(* ===== verification/Prelude.thy ===== *)
theory Prelude imports Main "HOL-Library.Word" "HOL-Library.Monad_Syntax" "HOL-Library.Multiset"
begin

text \<open>
  The prelude of the development: the types that name C's integers and bytes, the outcome of
  a C function, bounded memory, C strings, the file-descriptor numbers and errno values the
  code names, and the reachability predicate and invariant rule the state machines share.
\<close>

unbundle bit_operations_syntax

named_theorems machine_defs
  \<open>definitions of step relations and invariants, unfolded in preservation proofs\<close>

section \<open>Types of the C code\<close>

type_synonym u8 = "8 word"
type_synonym u16 = "16 word"
type_synonym u32 = "32 word"
type_synonym u64 = "64 word"

text \<open>A C \<open>int\<close> whose width does not matter to a claim is an \<open>int\<close>; \<open>INT_MAX\<close>
  and \<open>LONG_MAX\<close> are the limits of the LP64 hosts the makefiles build for.\<close>

definition INT_MAX :: int where "INT_MAX = 2147483647"

definition LONG_MAX :: int where "LONG_MAX = 9223372036854775807"

text \<open>The errno values the code assigns or compares with (Linux numbering).\<close>

abbreviation (input) EINTR :: int where "EINTR \<equiv> 4"
abbreviation (input) EINVAL :: int where "EINVAL \<equiv> 22"
abbreviation (input) EMFILE :: int where "EMFILE \<equiv> 24"
abbreviation (input) ENAMETOOLONG :: int where "ENAMETOOLONG \<equiv> 36"

abbreviation (input) STDIN_FILENO :: int where "STDIN_FILENO \<equiv> 0"
abbreviation (input) STDOUT_FILENO :: int where "STDOUT_FILENO \<equiv> 1"
abbreviation (input) STDERR_FILENO :: int where "STDERR_FILENO \<equiv> 2"

section \<open>What a C call can do\<close>

text \<open>
  A call returns a value, ends the process with \<open>exit(status)\<close>, ends it with
  \<open>abort()\<close>, waits for ever, or leaves the defined behaviour of C (an access outside an
  object, a signed overflow, a use of an indeterminate value).
\<close>

datatype 'a outcome = Ret 'a | Exits int | Aborts | Blocks | Undef

fun and_then :: "'a outcome \<Rightarrow> ('a \<Rightarrow> 'b outcome) \<Rightarrow> 'b outcome" where
  "and_then (Ret x) f = f x"
| "and_then (Exits n) f = Exits n"
| "and_then Aborts f = Aborts"
| "and_then Blocks f = Blocks"
| "and_then Undef f = Undef"

lemma and_then_eq_Ret [simp]: "and_then m f = Ret y \<longleftrightarrow> (\<exists>x. m = Ret x \<and> f x = Ret y)"
  by (cases m) auto

lemma and_then_assoc: "and_then (and_then m f) g = and_then m (\<lambda>x. and_then (f x) g)"
  by (cases m) auto

fun returns :: "'a outcome \<Rightarrow> bool" where
  "returns (Ret x) = True"
| "returns _ = False"

lemma returns_iff: "returns m \<longleftrightarrow> (\<exists>x. m = Ret x)"
  by (cases m) auto

section \<open>Bounded memory\<close>

text \<open>
  An array is the list of its elements. Reading or writing outside it has no defined result,
  so both return an option: \<open>None\<close> is the out-of-bounds access.
\<close>

definition load :: "'a list \<Rightarrow> nat \<Rightarrow> 'a option" where
  "load xs i = (if i < length xs then Some (xs ! i) else None)"

definition store :: "'a list \<Rightarrow> nat \<Rightarrow> 'a \<Rightarrow> 'a list option" where
  "store xs i v = (if i < length xs then Some (xs[i := v]) else None)"

text \<open>\<open>memcpy(xs + off, src, length src)\<close>\<close>

definition blit :: "'a list \<Rightarrow> nat \<Rightarrow> 'a list \<Rightarrow> 'a list option" where
  "blit xs off src =
     (if off + length src \<le> length xs
      then Some (take off xs @ src @ drop (off + length src) xs) else None)"

lemma load_Some [simp]: "i < length xs \<Longrightarrow> load xs i = Some (xs ! i)"
  by (simp add: load_def)

lemma load_None [simp]: "length xs \<le> i \<Longrightarrow> load xs i = None"
  by (simp add: load_def)

lemma store_Some [simp]: "i < length xs \<Longrightarrow> store xs i v = Some (xs[i := v])"
  by (simp add: store_def)

lemma store_None [simp]: "length xs \<le> i \<Longrightarrow> store xs i v = None"
  by (simp add: store_def)

lemma store_eq_Some: "store xs i v = Some ys \<longleftrightarrow> i < length xs \<and> ys = xs[i := v]"
  by (auto simp: store_def)

lemma length_blit: "blit xs off src = Some ys \<Longrightarrow> length ys = length xs"
  by (auto simp: blit_def split: if_splits)

lemma blit_Some_iff:
  "(\<exists>ys. blit xs off src = Some ys) \<longleftrightarrow> off + length src \<le> length xs"
  by (simp add: blit_def)

lemma blit_nth:
  assumes "blit xs off src = Some ys" and "i < length xs"
  shows "ys ! i = (if off \<le> i \<and> i < off + length src then src ! (i - off) else xs ! i)"
  using assms by (auto simp: blit_def nth_append min_def split: if_splits)

lemma blit_slice:
  "blit xs off src = Some ys \<Longrightarrow> take (length src) (drop off ys) = src"
  by (auto simp: blit_def split: if_splits)

section \<open>C strings\<close>

text \<open>A C string in a buffer: the bytes before the first NUL.\<close>

definition NUL :: char where "NUL = CHR 0x00"

definition c_str :: "char list \<Rightarrow> string" where
  "c_str buf = takeWhile (\<lambda>c. c \<noteq> NUL) buf"

definition nul_free :: "string \<Rightarrow> bool" where
  "nul_free s \<longleftrightarrow> NUL \<notin> set s"

lemma c_str_append_NUL [simp]: "nul_free s \<Longrightarrow> c_str (s @ NUL # rest) = s"
  by (induction s) (auto simp: c_str_def nul_free_def)

lemma c_str_nul_free [simp]: "nul_free (c_str buf)"
  by (auto simp: c_str_def nul_free_def dest: set_takeWhileD)

lemma nul_free_append [simp]: "nul_free (s @ t) \<longleftrightarrow> nul_free s \<and> nul_free t"
  by (auto simp: nul_free_def)

lemma nul_free_take [simp]: "nul_free s \<Longrightarrow> nul_free (take n s)"
  by (auto simp: nul_free_def dest: in_set_takeD)

lemma nul_free_Nil [simp]: "nul_free []"
  by (simp add: nul_free_def)

lemma nul_free_Cons [simp]: "nul_free (c # s) \<longleftrightarrow> c \<noteq> NUL \<and> nul_free s"
  by (auto simp: nul_free_def)

section \<open>State machines\<close>

text \<open>The states a machine can reach from its initial states by its steps.\<close>

inductive reach :: "('s \<Rightarrow> bool) \<Rightarrow> ('s \<Rightarrow> 's \<Rightarrow> bool) \<Rightarrow> 's \<Rightarrow> bool"
  for init :: "'s \<Rightarrow> bool" and step :: "'s \<Rightarrow> 's \<Rightarrow> bool" where
  reach_init: "init s \<Longrightarrow> reach init step s"
| reach_step: "reach init step s \<Longrightarrow> step s t \<Longrightarrow> reach init step t"

lemma reach_trans:
  "step\<^sup>*\<^sup>* s t \<Longrightarrow> reach init step s \<Longrightarrow> reach init step t"
  by (induction rule: rtranclp_induct) (auto intro: reach_step)

lemma reach_from_one: "reach (\<lambda>u. u = s) step t \<Longrightarrow> step\<^sup>*\<^sup>* s t"
  by (induction rule: reach.induct) auto

lemma reach_mono: "reach init step s \<Longrightarrow> (\<And>s. init s \<Longrightarrow> init' s) \<Longrightarrow> reach init' step s"
  by (induction rule: reach.induct) (auto intro: reach.intros)

text \<open>
  The interface every machine of the development offers its safety proofs: an invariant that
  holds initially and is kept by each step. Its client lemmas lift it to reachable states and
  to whole runs.
\<close>

locale safe_machine =
  fixes init :: "'s \<Rightarrow> bool"
    and step :: "'s \<Rightarrow> 's \<Rightarrow> bool"
    and inv :: "'s \<Rightarrow> bool"
  assumes init_inv: "init s \<Longrightarrow> inv s"
    and step_inv: "inv s \<Longrightarrow> step s t \<Longrightarrow> inv t"
begin

lemma reach_inv: "reach init step s \<Longrightarrow> inv s"
  by (induction rule: reach.induct) (auto intro: init_inv step_inv)

lemma run_inv: "step\<^sup>*\<^sup>* s t \<Longrightarrow> inv s \<Longrightarrow> inv t"
  by (induction rule: rtranclp_induct) (auto intro: step_inv)

end

text \<open>
  A machine that implements another one: under an invariant of its own, each of its steps is
  seen through \<open>view\<close> as a step of the abstract machine or as no step at all.
\<close>

locale simulation =
  fixes cinit :: "'s \<Rightarrow> bool" and cstep :: "'s \<Rightarrow> 's \<Rightarrow> bool" and cinv :: "'s \<Rightarrow> bool"
    and ainit :: "'a \<Rightarrow> bool" and astep :: "'a \<Rightarrow> 'a \<Rightarrow> bool" and view :: "'s \<Rightarrow> 'a"
  assumes conc_inv: "reach cinit cstep s \<Longrightarrow> cinv s"
    and sim_init: "cinit s \<Longrightarrow> ainit (view s)"
    and sim_step: "cinv s \<Longrightarrow> cstep s t \<Longrightarrow> view t = view s \<or> astep (view s) (view t)"
begin

lemma reach_view: "reach cinit cstep s \<Longrightarrow> reach ainit astep (view s)"
proof (induction rule: reach.induct)
  case (reach_step s t)
  then show ?case using conc_inv sim_step reach.reach_step by metis
qed (simp add: reach_init sim_init)

end

section \<open>Threads and a mutex\<close>

text \<open>
  The owner of a mutex is the one thread whose program point is inside the region the mutex
  guards. A step that moves one thread takes the mutex, gives it up, or does neither.
\<close>

definition mutex_ok :: "('p \<Rightarrow> bool) \<Rightarrow> nat option \<Rightarrow> (nat \<Rightarrow> 'p) \<Rightarrow> bool" where
  "mutex_ok h m p \<longleftrightarrow> (\<forall>i. h (p i) \<longleftrightarrow> m = Some i)"

lemma mutex_take: "mutex_ok h None p \<Longrightarrow> h v \<Longrightarrow> mutex_ok h (Some i) (p(i := v))"
  by (auto simp: mutex_ok_def)

lemma mutex_free: "mutex_ok h m p \<Longrightarrow> h (p i) \<Longrightarrow> \<not> h v \<Longrightarrow> mutex_ok h None (p(i := v))"
  by (auto simp: mutex_ok_def)

lemma mutex_keep: "mutex_ok h m p \<Longrightarrow> h v = h (p i) \<Longrightarrow> mutex_ok h m (p(i := v))"
  by (auto simp: mutex_ok_def)

lemma mutex_unique: "mutex_ok h m p \<Longrightarrow> h (p i) \<Longrightarrow> h (p j) \<Longrightarrow> i = j"
  by (auto simp: mutex_ok_def)

section \<open>Counting threads\<close>

text \<open>The sum of a weight of their program points over the first \<open>n\<close> threads.\<close>

definition tally :: "('p \<Rightarrow> int) \<Rightarrow> nat \<Rightarrow> (nat \<Rightarrow> 'p) \<Rightarrow> int" where
  "tally f n p = (\<Sum>i<n. f (p i))"

lemma tally_upd: "k < n \<Longrightarrow> tally f n (p(k := v)) = tally f n p - f (p k) + f v"
proof -
  assume "k < n"
  then have "tally f n p = f (p k) + (\<Sum>i \<in> {..<n} - {k}. f (p i))"
    by (simp add: tally_def sum.remove)
  moreover from \<open>k < n\<close> have "tally f n (p(k := v)) = f v + (\<Sum>i \<in> {..<n} - {k}. f ((p(k := v)) i))"
    by (simp add: tally_def sum.remove)
  ultimately show ?thesis by simp
qed

lemma tally_mono: "(\<And>i. i < n \<Longrightarrow> f (p i) \<le> g (q i)) \<Longrightarrow> tally f n p \<le> tally g n q"
  unfolding tally_def by (rule sum_mono) simp

lemma tally_nonneg: "(\<And>i. i < n \<Longrightarrow> 0 \<le> f (p i)) \<Longrightarrow> 0 \<le> tally f n p"
  unfolding tally_def by (rule sum_nonneg) simp

lemma tally_le: "(\<And>i. i < n \<Longrightarrow> f (p i) \<le> 1) \<Longrightarrow> tally f n p \<le> int n"
  using tally_mono [of n f p "\<lambda>_. 1" p] by (simp add: tally_def)

lemma tally_const: "(\<And>i. i < n \<Longrightarrow> f (p i) = c) \<Longrightarrow> tally f n p = int n * c"
  by (simp add: tally_def)

lemma tally_diff: "tally f n p - tally g n p = tally (\<lambda>x. f x - g x) n p"
  by (simp add: tally_def sum_subtractf)

lemma tally_member:
  assumes "\<And>x. 0 \<le> f x" "k < n"
  shows "f (p k) \<le> tally f n p"
  using assms member_le_sum [of k "{..<n}" "\<lambda>i. f (p i)"] by (simp add: tally_def)

lemma tally_two:
  assumes "\<And>x. 0 \<le> f x" "i < n" "j < n" "i \<noteq> j"
  shows "f (p i) + f (p j) \<le> tally f n p"
proof -
  have "(\<Sum>k \<in> {i, j}. f (p k)) \<le> tally f n p"
    unfolding tally_def using assms by (intro sum_mono2) auto
  then show ?thesis using assms(4) by simp
qed

lemma tally_pos_ex: "0 < tally f n p \<Longrightarrow> \<exists>i<n. 0 < f (p i)"
  using tally_mono [of n f p "\<lambda>_. 0" p] by (force simp: tally_def)

section \<open>Refinement of operations by operations\<close>

text \<open>
  Running a list of operations, collecting their results; it stops at the first that does not
  return.
\<close>

fun run_ops :: "('s \<Rightarrow> 'o \<Rightarrow> ('s \<times> 'r) option) \<Rightarrow> 's \<Rightarrow> 'o list \<Rightarrow> ('s \<times> 'r list) option" where
  "run_ops f s [] = Some (s, [])"
| "run_ops f s (x # xs) =
     (case f s x of None \<Rightarrow> None
      | Some (t, r) \<Rightarrow> map_option (\<lambda>(u, rs). (u, r # rs)) (run_ops f t xs))"

text \<open>
  A concrete component that follows an abstract one: wherever the abstract operation is
  defined the concrete one returns, with the same result and a related state.
\<close>

locale refines =
  fixes cstep :: "'s \<Rightarrow> 'o \<Rightarrow> ('s \<times> 'r) option"
    and astep :: "'a \<Rightarrow> 'o \<Rightarrow> ('a \<times> 'r) option"
    and R :: "'s \<Rightarrow> 'a \<Rightarrow> bool"
  assumes sim: "R s a \<Longrightarrow> astep a x = Some (b, r) \<Longrightarrow> \<exists>t. cstep s x = Some (t, r) \<and> R t b"
begin

lemma run_refines:
  "R s a \<Longrightarrow> run_ops astep a xs = Some (b, rs) \<Longrightarrow> \<exists>t. run_ops cstep s xs = Some (t, rs) \<and> R t b"
proof (induction xs arbitrary: s a b rs)
  case Nil
  then show ?case by simp
next
  case (Cons x xs)
  then obtain a' r rs' where "astep a x = Some (a', r)" "rs = r # rs'"
      and run: "run_ops astep a' xs = Some (b, rs')"
    by (auto split: option.splits)
  moreover from this Cons.prems(1) obtain s' where "cstep s x = Some (s', r)" "R s' a'"
    using sim by blast
  ultimately show ?case using Cons.IH [OF _ run] by fastforce
qed

end

section \<open>Generic lemmas on lists and words\<close>

lemma nth_list_update_if:
  "i < length xs \<Longrightarrow> xs[j := v] ! i = (if i = j then v else xs ! i)"
  by auto

lemma word_of_int_uint_eq: "word_of_int (uint w) = w"
  by simp

lemma uint_u8_bounds: "0 \<le> uint (b :: u8)" "uint (b :: u8) \<le> 255"
  using uint_lt2p [of b] by simp_all

lemma uint_u16_bounds: "0 \<le> uint (b :: u16)" "uint (b :: u16) \<le> 65535"
  using uint_lt2p [of b] by simp_all

end
