(* ===== verification/JobQueue.thy ===== *)
theory JobQueue imports Prelude
begin

text \<open>
  The doubly linked job queue of \<open>threads/rwlock.c\<close>. The heap maps the address of a
  \<open>struct job\<close> to its fields; address 0 is \<open>NULL\<close> and is never allocated. A
  step that dereferences \<open>NULL\<close> or unallocated storage, or that waits for a lock that is
  not free, does not return: its result is \<open>None\<close>. The abstraction of a queue is the list
  of the addresses of its jobs; each operation is shown to act on that list.
\<close>

section \<open>Data\<close>

abbreviation (input) NULL :: nat where "NULL \<equiv> 0"

record job =
  j_next :: nat
  j_prev :: nat
  j_id :: nat

datatype rwlock = Unlocked | RdHeld nat | WrHeld

record queue =
  q_head :: nat
  q_tail :: nat
  q_lock :: rwlock

type_synonym jheap = "nat \<rightharpoonup> job"
type_synonym jstate = "jheap \<times> queue"

section \<open>Locks and field accesses\<close>

definition wrlock :: "queue \<Rightarrow> queue option" where
  "wrlock q = (if q_lock q = Unlocked then Some (q\<lparr>q_lock := WrHeld\<rparr>) else None)"

definition rdlock :: "queue \<Rightarrow> queue option" where
  "rdlock q = (case q_lock q of
       Unlocked \<Rightarrow> Some (q\<lparr>q_lock := RdHeld 1\<rparr>)
     | RdHeld n \<Rightarrow> Some (q\<lparr>q_lock := RdHeld (n + 1)\<rparr>)
     | WrHeld \<Rightarrow> None)"

definition rwunlock :: "queue \<Rightarrow> queue" where
  "rwunlock q = q\<lparr>q_lock := (case q_lock q of
       RdHeld n \<Rightarrow> (if n \<le> 1 then Unlocked else RdHeld (n - 1))
     | _ \<Rightarrow> Unlocked)\<rparr>"

definition set_next :: "jheap \<Rightarrow> nat \<Rightarrow> nat \<Rightarrow> jheap option" where
  "set_next h p v = map_option (\<lambda>j. h(p \<mapsto> j\<lparr>j_next := v\<rparr>)) (h p)"

definition set_prev :: "jheap \<Rightarrow> nat \<Rightarrow> nat \<Rightarrow> jheap option" where
  "set_prev h p v = map_option (\<lambda>j. h(p \<mapsto> j\<lparr>j_prev := v\<rparr>)) (h p)"

lemmas field_defs = set_next_def set_prev_def

section \<open>The operations\<close>

text \<open>\<open>rc\<close> is what \<open>pthread_rwlock_init\<close> returned.\<close>

definition queue_init :: "queue \<Rightarrow> int \<Rightarrow> queue \<times> int" where
  "queue_init q rc =
     (let q = q\<lparr>q_head := NULL, q_tail := NULL\<rparr>
      in if rc \<noteq> 0 then (q, rc) else (q\<lparr>q_lock := Unlocked\<rparr>, 0))"

definition job_insert :: "jstate \<Rightarrow> nat \<Rightarrow> jstate option" where
  "job_insert st jp = (case st of (h, q) \<Rightarrow> do {
     q \<leftarrow> wrlock q;
     h \<leftarrow> set_next h jp (q_head q);
     h \<leftarrow> set_prev h jp NULL;
     (h, q) \<leftarrow> (if q_head q \<noteq> NULL
                then do { h \<leftarrow> set_prev h (q_head q) jp; Some (h, q) }
                else Some (h, q\<lparr>q_tail := jp\<rparr>));
     Some (h, rwunlock (q\<lparr>q_head := jp\<rparr>)) })"

definition job_append :: "jstate \<Rightarrow> nat \<Rightarrow> jstate option" where
  "job_append st jp = (case st of (h, q) \<Rightarrow> do {
     q \<leftarrow> wrlock q;
     h \<leftarrow> set_next h jp NULL;
     h \<leftarrow> set_prev h jp (q_tail q);
     (h, q) \<leftarrow> (if q_tail q \<noteq> NULL
                then do { h \<leftarrow> set_next h (q_tail q) jp; Some (h, q) }
                else Some (h, q\<lparr>q_head := jp\<rparr>));
     Some (h, rwunlock (q\<lparr>q_tail := jp\<rparr>)) })"

definition job_remove :: "jstate \<Rightarrow> nat \<Rightarrow> jstate option" where
  "job_remove st jp = (case st of (h, q) \<Rightarrow> do {
     q \<leftarrow> wrlock q;
     (h, q) \<leftarrow>
       (if jp = q_head q then do {
          j \<leftarrow> h jp;
          let q = q\<lparr>q_head := j_next j\<rparr>;
          if q_tail q = jp then Some (h, q\<lparr>q_tail := NULL\<rparr>)
          else do { h \<leftarrow> set_prev h (j_next j) (j_prev j); Some (h, q) } }
        else if jp = q_tail q then do {
          j \<leftarrow> h jp;
          h \<leftarrow> set_next h (j_prev j) (j_next j);
          Some (h, q\<lparr>q_tail := j_prev j\<rparr>) }
        else do {
          j \<leftarrow> h jp;
          h \<leftarrow> set_next h (j_prev j) (j_next j);
          j \<leftarrow> h jp;
          h \<leftarrow> set_prev h (j_next j) (j_prev j);
          Some (h, q) });
     Some (h, rwunlock q) })"

text \<open>The loop of \<open>job_find\<close>; on a cyclic list it does not return.\<close>

partial_function (option) find_loop :: "jheap \<Rightarrow> nat \<Rightarrow> nat \<Rightarrow> nat option" where
  "find_loop h jp tid =
     (if jp = NULL then Some NULL
      else case h jp of
        None \<Rightarrow> None
      | Some j \<Rightarrow> if j_id j = tid then Some jp else find_loop h (j_next j) tid)"

text \<open>\<open>rc\<close> is what \<open>pthread_rwlock_rdlock\<close> returned when it did not wait.\<close>

definition job_find :: "jstate \<Rightarrow> int \<Rightarrow> nat \<Rightarrow> (jstate \<times> nat) option" where
  "job_find st rc tid = (case st of (h, q) \<Rightarrow>
     if rc \<noteq> 0 then Some ((h, q), NULL)
     else do {
       q \<leftarrow> rdlock q;
       jp \<leftarrow> find_loop h (q_head q) tid;
       Some ((h, rwunlock q), jp) })"

section \<open>The abstraction: a heap segment is a list\<close>

text \<open>
  \<open>dseg h before p js lst after\<close>: following \<open>j_next\<close> from \<open>p\<close> visits
  exactly \<open>js\<close> and ends at \<open>after\<close>; each \<open>j_prev\<close> points back, the first to
  \<open>before\<close>; \<open>lst\<close> is the last job visited (\<open>before\<close> when there is none).
\<close>

fun dseg :: "jheap \<Rightarrow> nat \<Rightarrow> nat \<Rightarrow> nat list \<Rightarrow> nat \<Rightarrow> nat \<Rightarrow> bool" where
  "dseg h before p [] lst after \<longleftrightarrow> p = after \<and> lst = before"
| "dseg h before p (a # js) lst after \<longleftrightarrow>
     p = a \<and> a \<noteq> NULL \<and>
     (case h a of None \<Rightarrow> False
      | Some j \<Rightarrow> j_prev j = before \<and> dseg h a (j_next j) js lst after)"

definition jobs_of :: "jstate \<Rightarrow> nat list \<Rightarrow> bool" where
  "jobs_of st js \<longleftrightarrow> (case st of (h, q) \<Rightarrow>
     h NULL = None \<and> q_lock q = Unlocked \<and> distinct js \<and>
     dseg h NULL (q_head q) js (q_tail q) NULL)"

text \<open>The thread a job belongs to; the operations never write it.\<close>

definition tid_of :: "jstate \<Rightarrow> nat \<Rightarrow> nat option" where
  "tid_of st a = map_option j_id (fst st a)"

lemma dseg_append:
  "dseg h b p (xs @ ys) l n \<longleftrightarrow> (\<exists>m l'. dseg h b p xs l' m \<and> dseg h l' m ys l n)"
  by (induction xs arbitrary: b p) (auto split: option.splits)

lemma dseg_Cons_iff:
  "dseg h b p (a # js) l n \<longleftrightarrow>
     p = a \<and> a \<noteq> NULL \<and> (\<exists>j. h a = Some j \<and> j_prev j = b \<and> dseg h a (j_next j) js l n)"
  by (auto split: option.splits)

lemma dseg_upd [simp]:
  "a \<notin> set js \<Longrightarrow> dseg (h(a \<mapsto> j)) b p js l n = dseg h b p js l n"
  by (induction js arbitrary: b p) (auto split: option.splits)

lemma dseg_snoc:
  "dseg h b p (xs @ [a]) l n \<longleftrightarrow>
     l = a \<and> a \<noteq> NULL \<and>
     (\<exists>j l'. h a = Some j \<and> j_next j = n \<and> j_prev j = l' \<and> dseg h b p xs l' a)"
  by (auto simp: dseg_append split: option.splits)

lemma dseg_allocated: "dseg h b p js l n \<Longrightarrow> a \<in> set js \<Longrightarrow> a \<noteq> NULL \<and> h a \<noteq> None"
  by (induction js arbitrary: b p) (auto split: option.splits)

lemma dseg_last: "dseg h b p js l n \<Longrightarrow> l = (if js = [] then b else last js)"
  by (induction js arbitrary: b p) (auto split: option.splits if_splits)

lemma dseg_first: "dseg h b p js l n \<Longrightarrow> p = (if js = [] then n else hd js)"
  by (cases js) auto

lemma jobs_of_head_tail:
  assumes "jobs_of (h, q) js"
  shows "q_head q = (if js = [] then NULL else hd js)"
    and "q_tail q = (if js = [] then NULL else last js)"
  using assms by (auto simp: jobs_of_def dest: dseg_first dseg_last)

lemma find_loop_dseg:
  assumes "dseg h b p js l NULL" and "\<And>a. a \<in> set js \<Longrightarrow> h a \<noteq> None"
  shows "find_loop h p tid =
    Some (case find (\<lambda>a. map_option j_id (h a) = Some tid) js of None \<Rightarrow> NULL | Some a \<Rightarrow> a)"
  using assms
proof (induction js arbitrary: b p)
  case Nil
  then show ?case by (simp add: find_loop.simps)
next
  case (Cons a js)
  then obtain j where "h a = Some j" "p = a" "a \<noteq> NULL" "dseg h a (j_next j) js l NULL"
    by (auto split: option.splits)
  with Cons show ?case by (simp add: find_loop.simps)
qed


section \<open>Each operation acts on the list of jobs\<close>

lemma jobs_of_simp:
  "jobs_of (h, q) js \<longleftrightarrow> h NULL = None \<and> q_lock q = Unlocked \<and> distinct js \<and>
     dseg h NULL (q_head q) js (q_tail q) NULL"
  by (simp add: jobs_of_def)

lemma jobs_of_nonnull: "jobs_of (h, q) js \<Longrightarrow> h a = Some j \<Longrightarrow> a \<noteq> NULL"
  by (cases "a = NULL") (auto simp: jobs_of_simp)

lemma lock_update_id: "q_lock q = l \<Longrightarrow> q\<lparr>q_lock := l\<rparr> = q"
  by (cases q) simp

lemmas lock_defs = wrlock_def rdlock_def rwunlock_def

lemma job_insert_step:
  assumes q: "jobs_of (h, q) js" and a: "h jp = Some j" and new: "jp \<notin> set js"
  shows "\<exists>st. job_insert (h, q) jp = Some st \<and> jobs_of st (jp # js) \<and> tid_of st = tid_of (h, q)"
proof (cases js)
  case Nil
  from q a have "jp \<noteq> NULL" by (rule jobs_of_nonnull)
  with q a Nil show ?thesis
    by (auto simp: jobs_of_simp job_insert_def lock_defs field_defs tid_of_def fun_eq_iff)
next
  case (Cons b bs)
  from q a have "jp \<noteq> NULL" by (rule jobs_of_nonnull)
  moreover from Cons q new obtain k where "h b = Some k" "j_prev k = NULL" "q_head q = b" "b \<noteq> NULL"
      "dseg h b (j_next k) bs (q_tail q) NULL" "b \<noteq> jp" "jp \<notin> set bs" "b \<notin> set bs"
    by (auto simp: jobs_of_simp split: option.splits)
  ultimately show ?thesis using q a Cons
    by (auto simp: jobs_of_simp job_insert_def lock_defs field_defs tid_of_def fun_eq_iff)
qed

lemma job_append_step:
  assumes q: "jobs_of (h, q) js" and a: "h jp = Some j" and new: "jp \<notin> set js"
  shows "\<exists>st. job_append (h, q) jp = Some st \<and> jobs_of st (js @ [jp]) \<and> tid_of st = tid_of (h, q)"
proof (cases js rule: rev_cases)
  case Nil
  from q a have "jp \<noteq> NULL" by (rule jobs_of_nonnull)
  with q a Nil show ?thesis
    by (auto simp: jobs_of_simp job_append_def lock_defs field_defs tid_of_def fun_eq_iff)
next
  case (snoc bs b)
  from q a have "jp \<noteq> NULL" by (rule jobs_of_nonnull)
  moreover from snoc q new obtain k where "h b = Some k" "j_next k = NULL" "q_tail q = b" "b \<noteq> NULL"
      "dseg h NULL (q_head q) bs (j_prev k) b" "b \<noteq> jp" "jp \<notin> set bs" "b \<notin> set bs"
    by (auto simp: jobs_of_simp dseg_snoc)
  ultimately show ?thesis using q a snoc
    by (auto simp: jobs_of_simp job_append_def lock_defs field_defs tid_of_def fun_eq_iff dseg_append)
qed

text \<open>Removing: the job is the only one, the first, the last, or has both neighbours.\<close>

lemma job_remove_first:
  assumes q: "jobs_of (h, q) (jp # js)"
  shows "\<exists>st. job_remove (h, q) jp = Some st \<and> jobs_of st js \<and> tid_of st = tid_of (h, q)"
proof (cases js)
  case Nil
  with q show ?thesis
    by (auto simp: jobs_of_simp job_remove_def lock_defs field_defs tid_of_def fun_eq_iff
        split: option.splits)
next
  case (Cons b bs)
  with q obtain j k where "h jp = Some j" "j_prev j = NULL" "j_next j = b" "q_head q = jp"
      "h b = Some k" "b \<noteq> NULL" "jp \<noteq> NULL" "b \<noteq> jp" "b \<notin> set bs" "jp \<notin> set bs"
      "dseg h b (j_next k) bs (q_tail q) NULL"
    by (auto simp: jobs_of_simp split: option.splits)
  moreover from this have "q_tail q \<noteq> jp" by (auto dest!: dseg_last split: if_splits)
  ultimately show ?thesis using q Cons
    by (auto simp: jobs_of_simp job_remove_def lock_defs field_defs tid_of_def fun_eq_iff)
qed

lemma job_remove_last:
  assumes q: "jobs_of (h, q) (xs @ [a, jp])"
  shows "\<exists>st. job_remove (h, q) jp = Some st \<and> jobs_of st (xs @ [a]) \<and> tid_of st = tid_of (h, q)"
proof -
  from q obtain j k where f: "h jp = Some j" "j_prev j = a" "j_next j = NULL" "q_tail q = jp"
      "h a = Some k" "j_next k = jp" "a \<noteq> NULL" "jp \<noteq> NULL" "a \<noteq> jp" "a \<notin> set xs" "jp \<notin> set xs"
      "dseg h NULL (q_head q) xs (j_prev k) a"
    by (auto simp: jobs_of_simp dseg_append split: option.splits)
  from this have "jp \<noteq> q_head q"
    by (auto dest!: dseg_first simp: hd_in_set split: if_splits)
  with f q show ?thesis
    by (auto simp: jobs_of_simp job_remove_def lock_defs field_defs tid_of_def fun_eq_iff dseg_append)
qed

lemma job_remove_middle:
  assumes q: "jobs_of (h, q) (xs @ a # jp # b # ys)"
  shows "\<exists>st. job_remove (h, q) jp = Some st \<and> jobs_of st (xs @ a # b # ys) \<and>
    tid_of st = tid_of (h, q)"
proof -
  from q have dist: "distinct (xs @ a # jp # b # ys)"
      and "dseg h NULL (q_head q) (xs @ a # jp # b # ys) (q_tail q) NULL"
    by (simp_all only: jobs_of_simp)
  from this(2) obtain j k m where f: "h jp = Some j" "j_prev j = a" "j_next j = b"
      "h a = Some k" "j_next k = jp" "h b = Some m" "j_prev m = jp"
      "a \<noteq> NULL" "jp \<noteq> NULL" "b \<noteq> NULL"
      and seg: "dseg h NULL (q_head q) xs (j_prev k) a" "dseg h b (j_next m) ys (q_tail q) NULL"
    unfolding dseg_append dseg_Cons_iff by metis
  have "q_head q = (if xs = [] then a else hd xs)" using seg(1) by (rule dseg_first)
  with dist have hd: "jp \<noteq> q_head q" by (cases xs) auto
  have "q_tail q = (if ys = [] then b else last ys)" using seg(2) by (rule dseg_last)
  with dist have tl: "jp \<noteq> q_tail q" by (cases ys rule: rev_cases) auto
  let ?h = "h(a \<mapsto> k\<lparr>j_next := b\<rparr>, b \<mapsto> m\<lparr>j_prev := a\<rparr>)"
  from q have ql: "q_lock q = Unlocked" and null: "h NULL = None" by (simp_all add: jobs_of_simp)
  from dist f hd tl ql have "job_remove (h, q) jp = Some (?h, q)"
    by (simp add: job_remove_def lock_defs field_defs lock_update_id)
  moreover from dist f seg null ql have "jobs_of (?h, q) (xs @ a # b # ys)"
    by (simp add: jobs_of_simp dseg_append)
  moreover from f have "tid_of (?h, q) = tid_of (h, q)"
    by (simp add: tid_of_def fun_eq_iff)
  ultimately show ?thesis by blast
qed

lemma job_remove_step:
  assumes q: "jobs_of (h, q) js" and mem: "jp \<in> set js"
  shows "\<exists>st. job_remove (h, q) jp = Some st \<and> jobs_of st (remove1 jp js) \<and>
    tid_of st = tid_of (h, q)"
proof -
  from mem obtain xs ys where js: "js = xs @ jp # ys" and nx: "jp \<notin> set xs"
    by (meson split_list_first)
  then have r: "remove1 jp js = xs @ ys" by (simp add: remove1_append)
  show ?thesis
  proof (cases xs rule: rev_cases)
    case Nil
    with q js r job_remove_first [of h q jp ys] show ?thesis by simp
  next
    case (snoc xs' a)
    show ?thesis
    proof (cases ys)
      case Nil
      with job_remove_last [of h q xs' a jp] q js r snoc show ?thesis by auto
    next
      case (Cons b ys')
      with job_remove_middle [of h q xs' a jp b ys'] q js r snoc show ?thesis by auto
    qed
  qed
qed

lemma job_find_step:
  assumes q: "jobs_of (h, q) js"
  shows "job_find (h, q) 0 tid =
    Some ((h, q), case find (\<lambda>a. tid_of (h, q) a = Some tid) js of None \<Rightarrow> NULL | Some a \<Rightarrow> a)"
proof -
  from q have "find_loop h (q_head q) tid =
      Some (case find (\<lambda>a. tid_of (h, q) a = Some tid) js of None \<Rightarrow> NULL | Some a \<Rightarrow> a)"
    unfolding tid_of_def fst_conv
    by (intro find_loop_dseg) (auto simp: jobs_of_simp dest: dseg_allocated)
  with q show ?thesis
    by (simp add: jobs_of_simp job_find_def lock_defs lock_update_id)
qed


section \<open>Refinement of a list of jobs\<close>

datatype jop = Insert nat | Append nat | Remove nat | Find nat

fun jop_step :: "jstate \<Rightarrow> jop \<Rightarrow> (jstate \<times> nat) option" where
  "jop_step st (Insert a) = map_option (\<lambda>s. (s, a)) (job_insert st a)"
| "jop_step st (Append a) = map_option (\<lambda>s. (s, a)) (job_append st a)"
| "jop_step st (Remove a) = map_option (\<lambda>s. (s, a)) (job_remove st a)"
| "jop_step st (Find t) = job_find st 0 t"

text \<open>
  The specification: the threads of the allocated jobs (never written) and the list of queued
  jobs. Inserting a job twice and removing one that is not queued are outside it.
\<close>

fun list_step :: "(nat \<rightharpoonup> nat) \<times> nat list \<Rightarrow> jop \<Rightarrow> (((nat \<rightharpoonup> nat) \<times> nat list) \<times> nat) option" where
  "list_step (own, js) (Insert a) =
     (if own a = None \<or> a \<in> set js then None else Some ((own, a # js), a))"
| "list_step (own, js) (Append a) =
     (if own a = None \<or> a \<in> set js then None else Some ((own, js @ [a]), a))"
| "list_step (own, js) (Remove a) =
     (if a \<in> set js then Some ((own, remove1 a js), a) else None)"
| "list_step (own, js) (Find t) =
     Some ((own, js), case find (\<lambda>a. own a = Some t) js of None \<Rightarrow> NULL | Some a \<Rightarrow> a)"

definition queue_rel :: "jstate \<Rightarrow> (nat \<rightharpoonup> nat) \<times> nat list \<Rightarrow> bool" where
  "queue_rel st spec \<longleftrightarrow> tid_of st = fst spec \<and> jobs_of st (snd spec)"

lemma jop_step_sim:
  assumes rel: "queue_rel st spec" and step: "list_step spec x = Some (spec', r)"
  shows "\<exists>st'. jop_step st x = Some (st', r) \<and> queue_rel st' spec'"
proof -
  obtain h q own js where st: "st = (h, q)" and spec: "spec = (own, js)" by (cases st, cases spec)
  with rel have own: "own = tid_of (h, q)" and q: "jobs_of (h, q) js"
    by (simp_all add: queue_rel_def)
  show ?thesis
  proof (cases x)
    case (Insert a)
    from step spec Insert have f: "own a \<noteq> None" "a \<notin> set js" "spec' = (own, a # js)" "r = a"
      by (auto split: if_splits)
    moreover from f(1) obtain j where "h a = Some j" by (auto simp: own tid_of_def)
    moreover from this obtain st' where "job_insert (h, q) a = Some st'" "jobs_of st' (a # js)"
        "tid_of st' = tid_of (h, q)"
      using job_insert_step [OF q] f(2) by blast
    ultimately show ?thesis by (simp add: Insert st own queue_rel_def)
  next
    case (Append a)
    from step spec Append have f: "own a \<noteq> None" "a \<notin> set js" "spec' = (own, js @ [a])" "r = a"
      by (auto split: if_splits)
    moreover from f(1) obtain j where "h a = Some j" by (auto simp: own tid_of_def)
    moreover from this obtain st' where "job_append (h, q) a = Some st'" "jobs_of st' (js @ [a])"
        "tid_of st' = tid_of (h, q)"
      using job_append_step [OF q] f(2) by blast
    ultimately show ?thesis by (simp add: Append st own queue_rel_def)
  next
    case (Remove a)
    from step spec Remove have "a \<in> set js" "spec' = (own, remove1 a js)" "r = a"
      by (auto split: if_splits)
    moreover from this obtain st' where "job_remove (h, q) a = Some st'" "jobs_of st' (remove1 a js)"
        "tid_of st' = tid_of (h, q)"
      using job_remove_step [OF q] by blast
    ultimately show ?thesis by (simp add: Remove st own queue_rel_def)
  next
    case (Find t)
    with step spec job_find_step [OF q, of t] show ?thesis
      using q own by (auto simp: st queue_rel_def)
  qed
qed

interpretation jq: refines jop_step list_step queue_rel
  by unfold_locales (rule jop_step_sim)

lemma find_loop_cycle:
  assumes "find_loop h p t = Some r" and "h p = Some j" and "p \<noteq> NULL"
    and "j_next j = p" and "j_id j \<noteq> t"
  shows False
proof -
  have "h p = Some j \<longrightarrow> p \<noteq> NULL \<longrightarrow> j_next j = p \<longrightarrow> j_id j \<noteq> t \<longrightarrow> False"
    by (rule find_loop.raw_induct
        [where P = "\<lambda>h p t r. h p = Some j \<longrightarrow> p \<noteq> NULL \<longrightarrow> j_next j = p \<longrightarrow> j_id j \<noteq> t \<longrightarrow> False",
          OF _ assms(1)])
      (auto split: if_splits option.splits)
  with assms show False by blast
qed

section \<open>Properties\<close>

text \<open>
  C3. Any sequence of inserts, appends, removals and searches that never queues a job twice and
  never removes a job that is not queued runs to its end on the linked structure, returns what
  the list of jobs returns, and leaves \<open>head\<close>, \<open>tail\<close> and both link fields describing the
  resulting list.
\<close>

theorem job_queue_refines_list:
  assumes "jobs_of st js"
    and "run_ops list_step (tid_of st, js) ops = Some ((own, js'), rs)"
  shows "\<exists>st'. run_ops jop_step st ops = Some (st', rs) \<and> jobs_of st' js' \<and> tid_of st' = own"
  using jq.run_refines [of st "(tid_of st, js)" ops "(own, js')" rs] assms
  by (auto simp: queue_rel_def)

definition two_jobs :: jstate where
  "two_jobs = ([10 \<mapsto> \<lparr>j_next = 0, j_prev = 0, j_id = 7\<rparr>, 20 \<mapsto> \<lparr>j_next = 0, j_prev = 0, j_id = 8\<rparr>],
     \<lparr>q_head = 0, q_tail = 0, q_lock = Unlocked\<rparr>)"

theorem job_queue_refines_list_witness:
  "\<exists>st'. run_ops jop_step two_jobs [Append 10, Append 20, Find 8, Remove 10] =
     Some (st', [10, 20, 20, 10]) \<and> jobs_of st' [20] \<and> tid_of st' = tid_of two_jobs"
proof -
  have q: "jobs_of two_jobs []" by (simp add: two_jobs_def jobs_of_def)
  have r: "run_ops list_step (tid_of two_jobs, []) [Append 10, Append 20, Find 8, Remove 10] =
      Some ((tid_of two_jobs, [20]), [10, 20, 20, 10])"
    by (simp add: two_jobs_def tid_of_def)
  from job_queue_refines_list [OF q r] show ?thesis .
qed

text \<open>
  The precondition matters: when the job at the head of the queue is inserted a second time
  the list becomes circular, and a search for a thread that has no job never returns.
\<close>

theorem double_insert_search_diverges:
  assumes "jobs_of (h, q) (jp # js)" and "tid_of (h, q) jp \<noteq> Some t"
  shows "\<exists>h' q'. job_insert (h, q) jp = Some (h', q') \<and> q_head q' = jp \<and> job_find (h', q') 0 t = None"
proof -
  from assms obtain j where j: "h jp = Some j" "jp \<noteq> NULL" "q_head q = jp" "q_lock q = Unlocked"
      "j_id j \<noteq> t"
    by (auto simp: jobs_of_simp tid_of_def split: option.splits)
  let ?h = "h(jp \<mapsto> j\<lparr>j_next := jp, j_prev := jp\<rparr>)"
  from j have ins: "job_insert (h, q) jp = Some (?h, q)"
    by (cases q) (simp add: job_insert_def lock_defs field_defs)
  from j have "find_loop ?h jp t = None"
    by (cases "find_loop ?h jp t") (auto dest!: find_loop_cycle)
  with ins j show ?thesis
    by (simp add: job_find_def lock_defs)
qed

theorem double_insert_search_diverges_witness:
  "\<exists>h' q'. job_insert ([10 \<mapsto> \<lparr>j_next = 0, j_prev = 0, j_id = 7\<rparr>],
       \<lparr>q_head = 10, q_tail = 10, q_lock = Unlocked\<rparr>) 10 = Some (h', q') \<and>
     q_head q' = 10 \<and> job_find (h', q') 0 9 = None"
  by (rule double_insert_search_diverges [where js = "[]"]) (simp_all add: jobs_of_def tid_of_def)

end
