(* ===== verification/RefCount.thy ===== *)
theory RefCount imports Prelude
begin

text \<open>
  Reference counting. The interface \<open>refcounted\<close> states what \<open>foo_hold\<close> and
  \<open>foo_rele\<close> promise their callers; its client lemma says what any sequence of holds and
  releases does to an object. \<open>threads/mutex1.c\<close> is modelled here and provides the first
  interpretation; \<open>threads/mutex2.c\<close> and \<open>threads/mutex3.c\<close> provide two more in the theory
  of the hash table. An object is the address of a \<open>struct foo\<close>; \<open>None\<close> as the
  result of an operation means it does not return: it touches freed storage, waits for a lock
  the caller already holds, or overflows the \<open>int\<close> counter.
\<close>

section \<open>The interface\<close>

abbreviation (input) NULL :: nat where "NULL \<equiv> 0"

text \<open>\<open>fp->f_count++\<close> and \<open>--fp->f_count\<close> on a C \<open>int\<close>.\<close>

definition inc_int :: "int \<Rightarrow> int option" where
  "inc_int n = (if n < INT_MAX then Some (n + 1) else None)"

definition dec_int :: "int \<Rightarrow> int option" where
  "dec_int n = (if - INT_MAX - 1 < n then Some (n - 1) else None)"

lemma dec_int_pos [simp]: "1 \<le> n \<Longrightarrow> dec_int n = Some (n - 1)"
  by (simp add: dec_int_def INT_MAX_def)

lemma inc_int_Some [simp]: "n < INT_MAX \<Longrightarrow> inc_int n = Some (n + 1)"
  by (simp add: inc_int_def)

datatype refop = Hold | Rele

fun ref_run ::
  "('s \<Rightarrow> nat \<Rightarrow> 's option) \<Rightarrow> ('s \<Rightarrow> nat \<Rightarrow> 's option) \<Rightarrow> 's \<Rightarrow> nat \<Rightarrow> refop list \<Rightarrow> 's option"
where
  "ref_run hold rele s a [] = Some s"
| "ref_run hold rele s a (Hold # xs) =
     (case hold s a of None \<Rightarrow> None | Some t \<Rightarrow> ref_run hold rele t a xs)"
| "ref_run hold rele s a (Rele # xs) =
     (case rele s a of None \<Rightarrow> None | Some t \<Rightarrow> ref_run hold rele t a xs)"

text \<open>
  The count after a sequence that starts at \<open>n\<close> references; \<open>None\<close> when it overflows or
  goes on after the last release.
\<close>

fun ref_count :: "int \<Rightarrow> refop list \<Rightarrow> int option" where
  "ref_count n [] = Some n"
| "ref_count n (Hold # xs) = (if 1 \<le> n \<and> n < INT_MAX then ref_count (n + 1) xs else None)"
| "ref_count n (Rele # xs) = (if 1 \<le> n then ref_count (n - 1) xs else None)"

lemma ref_count_balance:
  "ref_count n xs = Some m \<Longrightarrow>
     m = n + int (count_list xs Hold) - int (count_list xs Rele)"
  by (induction n xs rule: ref_count.induct) (auto split: if_splits)

lemma ref_count_nonneg: "ref_count n xs = Some m \<Longrightarrow> 0 \<le> n \<Longrightarrow> 0 \<le> m"
  by (induction n xs rule: ref_count.induct) (auto split: if_splits)

locale refcounted =
  fixes hold rele :: "'s \<Rightarrow> nat \<Rightarrow> 's option"
    and refs :: "'s \<Rightarrow> nat \<Rightarrow> int option"
    and ok :: "'s \<Rightarrow> bool"
  assumes refs_pos: "ok s \<Longrightarrow> refs s a = Some n \<Longrightarrow> 1 \<le> n"
    and hold_ok: "ok s \<Longrightarrow> refs s a = Some n \<Longrightarrow> n < INT_MAX \<Longrightarrow>
      \<exists>t. hold s a = Some t \<and> ok t \<and> refs t = (refs s)(a \<mapsto> n + 1)"
    and rele_ok: "ok s \<Longrightarrow> refs s a = Some n \<Longrightarrow>
      \<exists>t. rele s a = Some t \<and> ok t \<and> refs t = (refs s)(a := (if n = 1 then None else Some (n - 1)))"
    and freed: "ok s \<Longrightarrow> refs s a = None \<Longrightarrow> hold s a = None \<and> rele s a = None"
begin

lemma run_counts:
  assumes "ok s" and "refs s a = Some n" and "ref_count n xs = Some m"
  shows "\<exists>t. ref_run hold rele s a xs = Some t \<and> ok t \<and>
    refs t = (refs s)(a := (if m = 0 then None else Some m))"
  using assms
proof (induction xs arbitrary: s n)
  case Nil
  then show ?case using refs_pos [OF Nil.prems(1,2)] by (auto simp: fun_upd_idem)
next
  case (Cons x xs)
  have n: "1 \<le> n" using Cons.prems refs_pos by blast
  show ?case
  proof (cases x)
    case Hold
    with Cons.prems n have "n < INT_MAX" and c: "ref_count (n + 1) xs = Some m"
      by (auto split: if_splits)
    with hold_ok Cons.prems obtain t where t: "hold s a = Some t" "ok t"
        "refs t = (refs s)(a \<mapsto> n + 1)" by blast
    with Cons.IH [OF t(2) _ c] show ?thesis by (fastforce simp: Hold)
  next
    case Rele
    with Cons.prems n have c: "ref_count (n - 1) xs = Some m"
      by (auto split: if_splits)
    from rele_ok [OF Cons.prems(1,2)] obtain t where t: "rele s a = Some t" "ok t"
        "refs t = (refs s)(a := (if n = 1 then None else Some (n - 1)))" by blast
    show ?thesis
    proof (cases "n = 1")
      case True
      with c have "xs = []" "m = 0" by (cases xs; cases "hd xs"; auto)+
      with t True show ?thesis by (simp add: Rele fun_upd_def)
    next
      case False
      with t have "refs t a = Some (n - 1)" by simp
      with Cons.IH [OF t(2) _ c] t False show ?thesis by (fastforce simp: Rele)
    qed
  qed
qed

lemma after_last_release:
  assumes "ok s" and "refs s a = Some n" and "ref_count n xs = Some 0"
  shows "\<exists>t. ref_run hold rele s a xs = Some t \<and> hold t a = None \<and> rele t a = None"
  using run_counts [OF assms] freed by fastforce

end

section \<open>\<open>threads/mutex1.c\<close>\<close>

record foo1 =
  f1_count :: int
  f1_locked :: bool
  f1_id :: u32

type_synonym heap1 = "nat \<rightharpoonup> foo1"

definition lock1 :: "heap1 \<Rightarrow> nat \<Rightarrow> heap1 option" where
  "lock1 h fp = (case h fp of None \<Rightarrow> None
     | Some f \<Rightarrow> if f1_locked f then None else Some (h(fp \<mapsto> f\<lparr>f1_locked := True\<rparr>)))"

definition unlock1 :: "heap1 \<Rightarrow> nat \<Rightarrow> heap1 option" where
  "unlock1 h fp = map_option (\<lambda>f. h(fp \<mapsto> f\<lparr>f1_locked := False\<rparr>)) (h fp)"

definition set_count1 :: "heap1 \<Rightarrow> nat \<Rightarrow> int \<Rightarrow> heap1 option" where
  "set_count1 h fp n = map_option (\<lambda>f. h(fp \<mapsto> f\<lparr>f1_count := n\<rparr>)) (h fp)"

text \<open>\<open>fp\<close> is what \<open>malloc\<close> returned and \<open>rc\<close> what \<open>pthread_mutex_init\<close> returned.\<close>

definition foo_alloc1 :: "heap1 \<Rightarrow> nat \<Rightarrow> int \<Rightarrow> u32 \<Rightarrow> heap1 \<times> nat" where
  "foo_alloc1 h fp rc fid =
     (if fp \<noteq> NULL then
        let h' = h(fp \<mapsto> \<lparr>f1_count = 1, f1_locked = False, f1_id = fid\<rparr>)
        in if rc \<noteq> 0 then (h'(fp := None), NULL) else (h', fp)
      else (h, fp))"

definition foo_hold1 :: "heap1 \<Rightarrow> nat \<Rightarrow> heap1 option" where
  "foo_hold1 h fp = do {
     h \<leftarrow> lock1 h fp;
     f \<leftarrow> h fp;
     n \<leftarrow> inc_int (f1_count f);
     h \<leftarrow> set_count1 h fp n;
     unlock1 h fp }"

definition foo_rele1 :: "heap1 \<Rightarrow> nat \<Rightarrow> heap1 option" where
  "foo_rele1 h fp = do {
     h \<leftarrow> lock1 h fp;
     f \<leftarrow> h fp;
     n \<leftarrow> dec_int (f1_count f);
     h \<leftarrow> set_count1 h fp n;
     h \<leftarrow> unlock1 h fp;
     if n = 0 then Some (h(fp := None)) else Some h }"

lemmas mutex1_defs = lock1_def unlock1_def set_count1_def foo_hold1_def foo_rele1_def

definition refs1 :: "heap1 \<Rightarrow> nat \<Rightarrow> int option" where
  "refs1 h a = map_option f1_count (h a)"

definition heap1_ok :: "heap1 \<Rightarrow> bool" where
  "heap1_ok h \<longleftrightarrow> h NULL = None \<and> (\<forall>a f. h a = Some f \<longrightarrow> 1 \<le> f1_count f \<and> \<not> f1_locked f)"

lemma heap1_okD: "heap1_ok h \<Longrightarrow> h a = Some f \<Longrightarrow> 1 \<le> f1_count f \<and> \<not> f1_locked f"
  by (simp add: heap1_ok_def)

lemma foo_hold1_eq:
  assumes "heap1_ok h" and "h a = Some f" and "f1_count f < INT_MAX"
  shows "foo_hold1 h a = Some (h(a \<mapsto> f\<lparr>f1_count := f1_count f + 1\<rparr>))"
  using assms heap1_okD [OF assms(1,2)] by (cases f) (simp add: mutex1_defs)

lemma foo_rele1_eq:
  assumes "heap1_ok h" and "h a = Some f"
  shows "foo_rele1 h a = Some (if f1_count f = 1 then h(a := None)
    else h(a \<mapsto> f\<lparr>f1_count := f1_count f - 1\<rparr>))"
  using assms heap1_okD [OF assms] by (cases f) (simp add: mutex1_defs)

lemma heap1_ok_upd:
  "heap1_ok h \<Longrightarrow> h a = Some f \<Longrightarrow> 1 \<le> n \<Longrightarrow> heap1_ok (h(a \<mapsto> f\<lparr>f1_count := n\<rparr>))"
  by (cases "a = 0") (auto simp: heap1_ok_def)

lemma heap1_ok_free: "heap1_ok h \<Longrightarrow> heap1_ok (h(a := None))"
  by (simp add: heap1_ok_def)

interpretation m1: refcounted foo_hold1 foo_rele1 refs1 heap1_ok
proof unfold_locales
  fix h a n
  assume ok: "heap1_ok h" and n: "refs1 h a = Some n"
  then obtain f where f: "h a = Some f" "f1_count f = n" by (auto simp: refs1_def)
  with ok show "1 \<le> n" by (auto dest: heap1_okD)
  show "\<exists>t. foo_hold1 h a = Some t \<and> heap1_ok t \<and> refs1 t = (refs1 h)(a \<mapsto> n + 1)" if "n < INT_MAX"
    using ok f that \<open>1 \<le> n\<close>
    by (simp add: foo_hold1_eq heap1_ok_upd) (simp add: refs1_def fun_eq_iff)
  show "\<exists>t. foo_rele1 h a = Some t \<and> heap1_ok t \<and>
      refs1 t = (refs1 h)(a := (if n = 1 then None else Some (n - 1)))"
    using ok f \<open>1 \<le> n\<close>
    by (auto simp: foo_rele1_eq heap1_ok_upd heap1_ok_free) (simp_all add: refs1_def fun_eq_iff)
next
  fix h a
  assume "heap1_ok h" and "refs1 h a = None"
  then show "foo_hold1 h a = None \<and> foo_rele1 h a = None"
    by (simp add: mutex1_defs refs1_def)
qed

section \<open>Properties\<close>

text \<open>
  An object made by \<open>foo_alloc\<close> starts with one reference; after any sequence of holds and
  releases that never goes past the last release it has one reference per unreleased hold,
  and it is freed by exactly the release that brings the balance to zero. No other object
  changes.
\<close>

theorem mutex1_lifetime:
  assumes "heap1_ok h" and "h fp = None" and "fp \<noteq> NULL" and "ref_count 1 xs = Some m"
  shows "\<exists>h'. foo_alloc1 h fp 0 fid = (h', fp) \<and>
    (\<exists>t. ref_run foo_hold1 foo_rele1 h' fp xs = Some t \<and> heap1_ok t \<and>
      m = 1 + int (count_list xs Hold) - int (count_list xs Rele) \<and>
      refs1 t fp = (if m = 0 then None else Some m) \<and>
      (\<forall>a. a \<noteq> fp \<longrightarrow> refs1 t a = refs1 h a))"
proof -
  let ?h = "h(fp \<mapsto> \<lparr>f1_count = 1, f1_locked = False, f1_id = fid\<rparr>)"
  have "foo_alloc1 h fp 0 fid = (?h, fp)" using assms by (simp add: foo_alloc1_def)
  moreover have "heap1_ok ?h" "refs1 ?h fp = Some 1"
    using assms by (simp_all add: heap1_ok_def refs1_def)
  from m1.run_counts [OF this assms(4)] obtain t where t: "ref_run foo_hold1 foo_rele1 ?h fp xs = Some t"
      "heap1_ok t" "refs1 t = (refs1 ?h)(fp := (if m = 0 then None else Some m))" by blast
  moreover have "refs1 t a = refs1 h a" if "a \<noteq> fp" for a
    using that by (simp add: t(3)) (simp add: refs1_def)
  ultimately show ?thesis
    using ref_count_balance [OF assms(4)] by simp
qed

theorem mutex1_lifetime_witness:
  "\<exists>h'. foo_alloc1 Map.empty 16 0 5 = (h', 16) \<and>
    (\<exists>t. ref_run foo_hold1 foo_rele1 h' 16 [Hold, Rele, Rele] = Some t \<and> heap1_ok t \<and>
      (0::int) = 1 + int (count_list [Hold, Rele, Rele] Hold) - int (count_list [Hold, Rele, Rele] Rele) \<and>
      refs1 t 16 = (if (0::int) = 0 then None else Some 0) \<and>
      (\<forall>a. a \<noteq> 16 \<longrightarrow> refs1 t a = refs1 Map.empty a))"
  by (rule mutex1_lifetime) (simp_all add: heap1_ok_def INT_MAX_def)

end
