(* ===== verification/FooTable.thy ===== *)
theory FooTable imports RefCount
begin

text \<open>
  The hash table of reference-counted objects, in its two locking disciplines:
  \<open>threads/mutex2.c\<close> (the counter is protected by the object's own lock, the chains by
  \<open>hashlock\<close>) and \<open>threads/mutex3.c\<close> (both by \<open>hashlock\<close>). Both are shown to refine one
  abstract table, the list of live objects with their ids and counts, newest first, and to be
  reference counted in the sense of \<open>RefCount\<close>. Definitions that model \<open>mutex3.c\<close> carry
  the suffix 3. Address 0 is \<open>NULL\<close>; \<open>None\<close> is an operation that does not return
  (a freed or \<open>NULL\<close> object, a lock already held, a counter overflow).
\<close>

section \<open>Data\<close>

record foo =
  f_count :: int
  f_locked :: bool
  f_id :: u32
  f_next :: nat

type_synonym fheap = "nat \<rightharpoonup> foo"

record ftable =
  foos :: fheap
  fh :: "nat list"
  hashlock :: bool

definition NHASH :: nat where "NHASH = 29"

text \<open>\<open>(((unsigned long)id)%NHASH)\<close>: the \<open>int\<close> is sign-extended to 64 bits first.\<close>

definition HASH :: "u32 \<Rightarrow> nat" where
  "HASH fid = unat (scast fid :: u64) mod NHASH"

lemma HASH_less [simp]: "HASH i < NHASH"
  by (simp add: HASH_def NHASH_def)

section \<open>Locks\<close>

definition lock_hash :: "ftable \<Rightarrow> ftable option" where
  "lock_hash st = (if hashlock st then None else Some (st\<lparr>hashlock := True\<rparr>))"

definition unlock_hash :: "ftable \<Rightarrow> ftable" where
  "unlock_hash st = st\<lparr>hashlock := False\<rparr>"

definition upd_foo :: "ftable \<Rightarrow> nat \<Rightarrow> (foo \<Rightarrow> foo) \<Rightarrow> ftable option" where
  "upd_foo st fp g = map_option (\<lambda>f. st\<lparr>foos := (foos st)(fp \<mapsto> g f)\<rparr>) (foos st fp)"

definition lock_foo :: "ftable \<Rightarrow> nat \<Rightarrow> ftable option" where
  "lock_foo st fp = (case foos st fp of None \<Rightarrow> None
     | Some f \<Rightarrow> if f_locked f then None else upd_foo st fp (\<lambda>f. f\<lparr>f_locked := True\<rparr>))"

definition unlock_foo :: "ftable \<Rightarrow> nat \<Rightarrow> ftable option" where
  "unlock_foo st fp = upd_foo st fp (\<lambda>f. f\<lparr>f_locked := False\<rparr>)"

definition count_up :: "ftable \<Rightarrow> nat \<Rightarrow> ftable option" where
  "count_up st fp = do {
     f \<leftarrow> foos st fp; n \<leftarrow> inc_int (f_count f); upd_foo st fp (\<lambda>f. f\<lparr>f_count := n\<rparr>) }"

definition count_down :: "ftable \<Rightarrow> nat \<Rightarrow> ftable option" where
  "count_down st fp = do {
     f \<leftarrow> foos st fp; n \<leftarrow> dec_int (f_count f); upd_foo st fp (\<lambda>f. f\<lparr>f_count := n\<rparr>) }"

section \<open>The chains\<close>

partial_function (option) scan :: "fheap \<Rightarrow> nat \<Rightarrow> u32 \<Rightarrow> nat option" where
  "scan h fp fid =
     (if fp = NULL then Some NULL
      else case h fp of
        None \<Rightarrow> None
      | Some f \<Rightarrow> if f_id f = fid then Some fp else scan h (f_next f) fid)"

text \<open>\<open>while (tfp->f_next != fp) tfp = tfp->f_next;\<close>\<close>

partial_function (option) walk :: "fheap \<Rightarrow> nat \<Rightarrow> nat \<Rightarrow> nat option" where
  "walk h tfp fp =
     (case h tfp of
        None \<Rightarrow> None
      | Some f \<Rightarrow> if f_next f \<noteq> fp then walk h (f_next f) fp else Some tfp)"

definition unlink :: "ftable \<Rightarrow> nat \<Rightarrow> ftable option" where
  "unlink st fp = do {
     f \<leftarrow> foos st fp;
     let idx = HASH (f_id f);
     tfp \<leftarrow> load (fh st) idx;
     if tfp = fp then do {
       bs \<leftarrow> store (fh st) idx (f_next f);
       Some (st\<lparr>fh := bs\<rparr>) }
     else do {
       tfp \<leftarrow> walk (foos st) tfp fp;
       upd_foo st tfp (\<lambda>t. t\<lparr>f_next := f_next f\<rparr>) } }"

definition free_foo :: "ftable \<Rightarrow> nat \<Rightarrow> ftable" where
  "free_foo st fp = st\<lparr>foos := (foos st)(fp := None)\<rparr>"

section \<open>\<open>mutex2.c\<close>\<close>

text \<open>\<open>fp\<close> is what \<open>malloc\<close> returned, \<open>rc\<close> what \<open>pthread_mutex_init\<close> returned.\<close>

definition foo_alloc :: "ftable \<Rightarrow> nat \<Rightarrow> int \<Rightarrow> u32 \<Rightarrow> (ftable \<times> nat) option" where
  "foo_alloc st fp rc fid =
     (if fp \<noteq> NULL then do {
        let st = st\<lparr>foos := (foos st)(fp \<mapsto>
               \<lparr>f_count = 1, f_locked = False, f_id = fid, f_next = NULL\<rparr>)\<rparr>;
        if rc \<noteq> 0 then Some (free_foo st fp, NULL)
        else do {
          let idx = HASH fid;
          st \<leftarrow> lock_hash st;
          first \<leftarrow> load (fh st) idx;
          st \<leftarrow> upd_foo st fp (\<lambda>f. f\<lparr>f_next := first\<rparr>);
          bs \<leftarrow> store (fh st) idx fp;
          let st = st\<lparr>fh := bs\<rparr>;
          st \<leftarrow> lock_foo st fp;
          let st = unlock_hash st;
          st \<leftarrow> unlock_foo st fp;
          Some (st, fp) } }
      else Some (st, fp))"

definition foo_hold :: "ftable \<Rightarrow> nat \<Rightarrow> ftable option" where
  "foo_hold st fp = do {
     st \<leftarrow> lock_foo st fp;
     st \<leftarrow> count_up st fp;
     unlock_foo st fp }"

definition foo_find :: "ftable \<Rightarrow> u32 \<Rightarrow> (ftable \<times> nat) option" where
  "foo_find st fid = do {
     st \<leftarrow> lock_hash st;
     first \<leftarrow> load (fh st) (HASH fid);
     fp \<leftarrow> scan (foos st) first fid;
     st \<leftarrow> (if fp \<noteq> NULL then foo_hold st fp else Some st);
     Some (unlock_hash st, fp) }"

text \<open>
  \<open>foo_rele\<close> gives up the object's lock between its two parts, and other threads may run there:
  the first part (lines 74-76 and 100-103) returns whether the second (lines 77-99) follows.
\<close>

definition rele_first :: "ftable \<Rightarrow> nat \<Rightarrow> (ftable \<times> bool) option" where
  "rele_first st fp = do {
     st \<leftarrow> lock_foo st fp;
     f \<leftarrow> foos st fp;
     if f_count f = 1 then do {
       st \<leftarrow> unlock_foo st fp;
       Some (st, True) }
     else do {
       st \<leftarrow> count_down st fp;
       st \<leftarrow> unlock_foo st fp;
       Some (st, False) } }"

definition rele_last :: "ftable \<Rightarrow> nat \<Rightarrow> ftable option" where
  "rele_last st fp = do {
     st \<leftarrow> lock_hash st;
     st \<leftarrow> lock_foo st fp;
     f \<leftarrow> foos st fp;
     if f_count f \<noteq> 1 then do {
       st \<leftarrow> count_down st fp;
       st \<leftarrow> unlock_foo st fp;
       Some (unlock_hash st) }
     else do {
       st \<leftarrow> unlink st fp;
       let st = unlock_hash st;
       st \<leftarrow> unlock_foo st fp;
       Some (free_foo st fp) } }"

definition foo_rele :: "ftable \<Rightarrow> nat \<Rightarrow> ftable option" where
  "foo_rele st fp = do {
     (st, again) \<leftarrow> rele_first st fp;
     if again then rele_last st fp else Some st }"

section \<open>\<open>mutex3.c\<close>\<close>

text \<open>Its \<open>foo_alloc\<close> is the same text as \<open>mutex2.c\<close>'s.\<close>

definition foo_alloc3 :: "ftable \<Rightarrow> nat \<Rightarrow> int \<Rightarrow> u32 \<Rightarrow> (ftable \<times> nat) option" where
  "foo_alloc3 = foo_alloc"

definition foo_hold3 :: "ftable \<Rightarrow> nat \<Rightarrow> ftable option" where
  "foo_hold3 st fp = do {
     st \<leftarrow> lock_hash st;
     st \<leftarrow> count_up st fp;
     Some (unlock_hash st) }"

definition foo_find3 :: "ftable \<Rightarrow> u32 \<Rightarrow> (ftable \<times> nat) option" where
  "foo_find3 st fid = do {
     st \<leftarrow> lock_hash st;
     first \<leftarrow> load (fh st) (HASH fid);
     fp \<leftarrow> scan (foos st) first fid;
     st \<leftarrow> (if fp \<noteq> NULL then count_up st fp else Some st);
     Some (unlock_hash st, fp) }"

definition foo_rele3 :: "ftable \<Rightarrow> nat \<Rightarrow> ftable option" where
  "foo_rele3 st fp = do {
     st \<leftarrow> lock_hash st;
     st \<leftarrow> count_down st fp;
     f \<leftarrow> foos st fp;
     if f_count f = 0 then do {
       st \<leftarrow> unlink st fp;
       let st = unlock_hash st;
       Some (free_foo st fp) }
     else Some (unlock_hash st) }"

section \<open>The abstract table\<close>

type_synonym entries = "(nat \<times> u32 \<times> int) list"

definition set_count :: "nat \<Rightarrow> int \<Rightarrow> entries \<Rightarrow> entries" where
  "set_count a n es = map (\<lambda>(x, i, c). (x, i, if x = a then n else c)) es"

definition drop_entry :: "nat \<Rightarrow> entries \<Rightarrow> entries" where
  "drop_entry a es = filter (\<lambda>e. fst e \<noteq> a) es"

datatype fop = Alloc nat int u32 | FHold nat | Find u32 | FRele nat

fun table_step :: "entries \<Rightarrow> fop \<Rightarrow> (entries \<times> nat) option" where
  "table_step es (Alloc a rc i) =
     (if a = NULL then Some (es, NULL)
      else if map_of es a \<noteq> None then None
      else if rc \<noteq> 0 then Some (es, NULL)
      else Some ((a, i, 1) # es, a))"
| "table_step es (FHold a) =
     (case map_of es a of None \<Rightarrow> None
      | Some (i, c) \<Rightarrow> if c < INT_MAX then Some (set_count a (c + 1) es, a) else None)"
| "table_step es (Find i) =
     (case find (\<lambda>e. fst (snd e) = i) es of None \<Rightarrow> Some (es, NULL)
      | Some (a, _, c) \<Rightarrow> if c < INT_MAX then Some (set_count a (c + 1) es, a) else None)"
| "table_step es (FRele a) =
     (case map_of es a of None \<Rightarrow> None
      | Some (i, c) \<Rightarrow> Some (if c = 1 then drop_entry a es else set_count a (c - 1) es, a))"

fun step2 :: "ftable \<Rightarrow> fop \<Rightarrow> (ftable \<times> nat) option" where
  "step2 st (Alloc a rc i) = foo_alloc st a rc i"
| "step2 st (FHold a) = map_option (\<lambda>t. (t, a)) (foo_hold st a)"
| "step2 st (Find i) = foo_find st i"
| "step2 st (FRele a) = map_option (\<lambda>t. (t, a)) (foo_rele st a)"

fun step3 :: "ftable \<Rightarrow> fop \<Rightarrow> (ftable \<times> nat) option" where
  "step3 st (Alloc a rc i) = foo_alloc3 st a rc i"
| "step3 st (FHold a) = map_option (\<lambda>t. (t, a)) (foo_hold3 st a)"
| "step3 st (Find i) = foo_find3 st i"
| "step3 st (FRele a) = map_option (\<lambda>t. (t, a)) (foo_rele3 st a)"

text \<open>A path along \<open>f_next\<close>, and the chain of a bucket.\<close>

fun path :: "fheap \<Rightarrow> nat \<Rightarrow> nat list \<Rightarrow> nat \<Rightarrow> bool" where
  "path h p [] q \<longleftrightarrow> p = q"
| "path h p (a # as) q \<longleftrightarrow>
     p = a \<and> a \<noteq> NULL \<and> (case h a of None \<Rightarrow> False | Some f \<Rightarrow> path h (f_next f) as q)"

definition bucket :: "nat \<Rightarrow> entries \<Rightarrow> nat list" where
  "bucket k es = map fst (filter (\<lambda>e. HASH (fst (snd e)) = k) es)"

definition foo_view :: "fheap \<Rightarrow> nat \<Rightarrow> (u32 \<times> int) option" where
  "foo_view h a = map_option (\<lambda>f. (f_id f, f_count f)) (h a)"

definition table_rel :: "ftable \<Rightarrow> entries \<Rightarrow> bool" where
  "table_rel st es \<longleftrightarrow>
     length (fh st) = NHASH \<and> \<not> hashlock st \<and>
     distinct (map fst es) \<and> NULL \<notin> set (map fst es) \<and>
     (\<forall>e \<in> set es. 1 \<le> snd (snd e)) \<and>
     foo_view (foos st) = map_of es \<and>
     (\<forall>a f. foos st a = Some f \<longrightarrow> \<not> f_locked f) \<and>
     (\<forall>k < NHASH. path (foos st) (fh st ! k) (bucket k es) NULL)"


section \<open>Paths and walks\<close>

lemma path_Cons_iff:
  "path h p (a # as) q \<longleftrightarrow> p = a \<and> a \<noteq> NULL \<and> (\<exists>f. h a = Some f \<and> path h (f_next f) as q)"
  by (auto split: option.splits)

declare path.simps(2) [simp del]
declare path_Cons_iff [simp]

lemma path_append: "path h p (as @ bs) q \<longleftrightarrow> (\<exists>m. path h p as m \<and> path h m bs q)"
  by (induction as arbitrary: p) auto

text \<open>Only the links of the visited objects matter.\<close>

lemma path_cong:
  assumes "\<And>a. a \<in> set as \<Longrightarrow> map_option f_next (h a) = map_option f_next (h' a)"
  shows "path h p as q = path h' p as q"
  using assms
proof (induction as arbitrary: p)
  case Nil
  then show ?case by simp
next
  case (Cons a as)
  from Cons.prems [of a] Cons.IH Cons.prems show ?case
    by (cases "h a"; cases "h' a") auto
qed

lemma path_upd_other [simp]: "a \<notin> set as \<Longrightarrow> path (h(a := x)) p as q = path h p as q"
  by (rule path_cong) auto

lemma walk_finds:
  assumes "path h p (xs @ b # a # ys) q" and "distinct (xs @ b # a # ys)"
  shows "walk h p a = Some b"
  using assms
proof (induction xs arbitrary: p)
  case Nil
  then obtain f where "h b = Some f" "f_next f = a" "p = b" by (auto simp: path_Cons_iff)
  then show ?case by (simp add: walk.simps)
next
  case (Cons x xs)
  then obtain f where f: "h x = Some f" "p = x" "path h (f_next f) (xs @ b # a # ys) q"
    by (auto simp: path_Cons_iff)
  then have "f_next f = (if xs = [] then b else hd xs)" by (cases xs) auto
  with Cons.prems(2) have "f_next f \<noteq> a" by (cases xs) auto
  with f Cons show ?case by (simp add: walk.simps)
qed

lemma scan_finds:
  assumes "path h p as NULL"
  shows "scan h p i =
    Some (case find (\<lambda>a. map_option f_id (h a) = Some i) as of None \<Rightarrow> NULL | Some a \<Rightarrow> a)"
  using assms
proof (induction as arbitrary: p)
  case Nil
  then show ?case by (simp add: scan.simps)
next
  case (Cons a as)
  then obtain f where "h a = Some f" "p = a" "a \<noteq> NULL" "path h (f_next f) as NULL"
    by (auto simp: path_Cons_iff)
  with Cons.IH show ?case by (simp add: scan.simps)
qed

lemma filter_neq [simp]: "a \<notin> set xs \<Longrightarrow> filter (\<lambda>x. x \<noteq> a) xs = xs"
  by (auto simp: filter_id_conv)

section \<open>Facts about the abstract table\<close>

lemma map_fst_set_count [simp]: "map fst (set_count a n es) = map fst es"
  by (induction es) (auto simp: set_count_def)

lemma bucket_set_count [simp]: "bucket k (set_count a n es) = bucket k es"
  by (induction es) (auto simp: set_count_def bucket_def)

lemma map_of_set_count:
  "map_of (set_count a n es) = (map_of es)(a := map_option (\<lambda>(i, c). (i, n)) (map_of es a))"
  by (induction es) (auto simp: set_count_def fun_eq_iff)

lemma map_of_drop_entry: "map_of (drop_entry a es) = (map_of es)(a := None)"
  by (induction es) (auto simp: drop_entry_def fun_eq_iff)

lemma bucket_drop_entry: "bucket k (drop_entry a es) = filter (\<lambda>x. x \<noteq> a) (bucket k es)"
  by (induction es) (auto simp: drop_entry_def bucket_def)

lemma set_bucket: "a \<in> set (bucket k es) \<longleftrightarrow> (\<exists>i c. (a, i, c) \<in> set es \<and> HASH i = k)"
  by (force simp: bucket_def image_iff)

lemma bucket_of_key:
  assumes "distinct (map fst es)" and "map_of es a = Some (i, c)"
  shows "a \<in> set (bucket k es) \<longleftrightarrow> HASH i = k"
proof -
  have "(a, j, d) \<in> set es \<longleftrightarrow> j = i \<and> d = c" for j d
    using assms by (metis map_of_eq_Some_iff option.inject prod.inject)
  then show ?thesis by (auto simp: set_bucket)
qed

lemma bucket_disjoint:
  assumes "distinct (map fst es)" and "x \<in> set (bucket k es)" and "x \<in> set (bucket l es)"
  shows "k = l"
proof -
  from assms(2,3) obtain i c j d where "(x, i, c) \<in> set es" "HASH i = k"
      "(x, j, d) \<in> set es" "HASH j = l"
    by (auto simp: set_bucket)
  moreover from this assms(1) have "(i, c) = (j, d)" by (metis eq_key_imp_eq_value)
  ultimately show ?thesis by simp
qed

lemma distinct_bucket: "distinct (map fst es) \<Longrightarrow> distinct (bucket k es)"
  unfolding bucket_def by (rule distinct_map_filter)

lemma table_relD:
  assumes "table_rel st es"
  shows "length (fh st) = NHASH" and "\<not> hashlock st" and "distinct (map fst es)"
    and "NULL \<notin> set (map fst es)" and "foo_view (foos st) = map_of es"
    and "\<And>a f. foos st a = Some f \<Longrightarrow> \<not> f_locked f"
    and "\<And>k. k < NHASH \<Longrightarrow> path (foos st) (fh st ! k) (bucket k es) NULL"
    and "\<And>a i c. map_of es a = Some (i, c) \<Longrightarrow> 1 \<le> c"
  using assms by (auto simp: table_rel_def dest!: map_of_SomeD)

lemma table_entry:
  assumes "table_rel st es" and "map_of es a = Some (i, c)"
  obtains f where "foos st a = Some f" "f_id f = i" "f_count f = c" "\<not> f_locked f" "1 \<le> c" "a \<noteq> NULL"
proof -
  from table_relD(5) [OF assms(1)] assms(2) obtain f where
    "foos st a = Some f" "f_id f = i" "f_count f = c"
    by (auto simp: foo_view_def dest!: fun_cong [where x = a])
  moreover have "a \<noteq> NULL" using table_relD(4) [OF assms(1)] assms(2)
    by (force dest!: map_of_SomeD)
  ultimately show thesis using that table_relD(6,8) [OF assms(1)] assms(2) by blast
qed

section \<open>The three effects on the table\<close>

definition with_count :: "ftable \<Rightarrow> nat \<Rightarrow> int \<Rightarrow> ftable" where
  "with_count st a n = st\<lparr>foos := (foos st)(a := map_option (\<lambda>f. f\<lparr>f_count := n\<rparr>) (foos st a))\<rparr>"

lemma set_count_pos:
  "\<forall>e \<in> set es. 1 \<le> snd (snd e) \<Longrightarrow> 1 \<le> n \<Longrightarrow> \<forall>e \<in> set (set_count a n es). 1 \<le> snd (snd e)"
  by (auto simp: set_count_def)

lemma rel_with_count:
  assumes rel: "table_rel st es" and e: "map_of es a = Some (i, c)" and n: "1 \<le> n"
  shows "table_rel (with_count st a n) (set_count a n es)"
proof -
  from table_entry [OF rel e] obtain f where f: "foos st a = Some f" "f_id f = i" "\<not> f_locked f" .
  have "foo_view (foos (with_count st a n)) = map_of (set_count a n es)"
    using f e table_relD(5) [OF rel]
    by (auto simp: with_count_def foo_view_def map_of_set_count fun_eq_iff)
  moreover have "path (foos (with_count st a n)) p as q = path (foos st) p as q" for p as q
    by (rule path_cong) (auto simp: with_count_def f)
  moreover have "\<not> f_locked g" if "foos (with_count st a n) b = Some g" for b g
    using that f table_relD(6) [OF rel] by (cases "b = a") (auto simp: with_count_def)
  moreover have "fh (with_count st a n) = fh st" "hashlock (with_count st a n) = hashlock st"
    by (simp_all add: with_count_def)
  ultimately show ?thesis
    using rel n set_count_pos [of es n a] by (simp add: table_rel_def)
qed


text \<open>
  Unlinking \<open>a\<close> from a table \<open>st0\<close> that differs from \<open>st\<close> only in the locks and in
  \<open>a\<close>'s counter and lock, and then freeing it.
\<close>

definition without :: "ftable \<Rightarrow> nat \<Rightarrow> ftable" where
  "without st a = st\<lparr>foos := (foos st)(a := None), hashlock := False\<rparr>"

lemma relinked_table:
  assumes rel: "table_rel st es" and e: "map_of es a = Some (i, c)"
    and fh': "length (fh st') = NHASH" and h': "foo_view ((foos st')(a := None)) = foo_view ((foos st)(a := None))"
    and l': "\<And>b f. b \<noteq> a \<Longrightarrow> foos st' b = Some f \<Longrightarrow> \<not> f_locked f"
    and ch: "\<And>k. k < NHASH \<Longrightarrow> path (foos st') (fh st' ! k) (filter (\<lambda>x. x \<noteq> a) (bucket k es)) NULL"
  shows "table_rel (without st' a) (drop_entry a es)"
proof -
  have "foo_view ((foos st)(a := None)) = (foo_view (foos st))(a := None)"
    by (auto simp: foo_view_def)
  then have "foo_view (foos (without st' a)) = map_of (drop_entry a es)"
    using h' table_relD(5) [OF rel] by (simp add: without_def map_of_drop_entry)
  moreover have "path (foos (without st' a)) (fh (without st' a) ! k) (bucket k (drop_entry a es)) NULL"
    if "k < NHASH" for k
    using ch [OF that] by (simp add: without_def bucket_drop_entry)
  moreover have "\<not> f_locked f" if "foos (without st' a) b = Some f" for b f
    using that l' by (cases "b = a") (auto simp: without_def)
  moreover have "distinct (map fst (drop_entry a es))"
    using table_relD(3) [OF rel] by (simp add: drop_entry_def distinct_map_filter)
  moreover have "NULL \<notin> set (map fst (drop_entry a es))"
    using table_relD(4) [OF rel] by (auto simp: drop_entry_def)
  moreover have "\<forall>e \<in> set (drop_entry a es). 1 \<le> snd (snd e)"
    using rel by (auto simp: drop_entry_def table_rel_def)
  ultimately show ?thesis
    using fh' by (simp add: table_rel_def without_def)
qed

lemma unlink_facts:
  assumes rel: "table_rel st es" and e: "map_of es a = Some (i, c)" and f: "foos st a = Some f"
    and st0: "fh st0 = fh st" "foos st0 = (foos st)(a \<mapsto> g)" "f_next g = f_next f" "f_id g = i"
    and b: "bucket (HASH i) es = xs @ a # ys"
  shows "path (foos st0) p as q = path (foos st) p as q" "HASH i < length (fh st)" "distinct (xs @ a # ys)"
    "path (foos st0) (fh st ! HASH i) (xs @ a # ys) NULL" "k \<noteq> HASH i \<Longrightarrow> a \<notin> set (bucket k es)"
    "foo_view ((foos st0)(a := None)) = foo_view ((foos st)(a := None))"
proof -
  note rels = table_relD [OF rel]
  show links: "path (foos st0) p as q = path (foos st) p as q" for p as q
    by (rule path_cong) (simp add: st0 f)
  show "HASH i < length (fh st)" by (simp add: rels(1))
  show "distinct (xs @ a # ys)" using distinct_bucket [OF rels(3), of "HASH i"] by (simp add: b)
  show "path (foos st0) (fh st ! HASH i) (xs @ a # ys) NULL"
    using rels(7) [of "HASH i"] by (simp add: b links)
  show "a \<notin> set (bucket k es)" if "k \<noteq> HASH i"
    using bucket_of_key [OF rels(3) e, of k] that by simp
  show "foo_view ((foos st0)(a := None)) = foo_view ((foos st)(a := None))" by (simp add: st0)
qed

lemma unlink_head:
  assumes rel: "table_rel st es" and e: "map_of es a = Some (i, c)" and f: "foos st a = Some f"
    and st0: "fh st0 = fh st" "foos st0 = (foos st)(a \<mapsto> g)" "f_next g = f_next f" "f_id g = i"
    and b: "bucket (HASH i) es = a # ys"
  shows "\<exists>st'. unlink st0 a = Some st' \<and> foos st' a \<noteq> None \<and>
    table_rel (without st' a) (drop_entry a es)"
proof -
  let ?k = "HASH i"
  note rels = table_relD [OF rel]
  note facts = unlink_facts [OF rel e f st0, of "[]", simplified append_Nil, OF b]
  note links = facts(1) and len = facts(2) and db = facts(3) and pk = facts(4) and other = facts(5) and view0 = facts(6)
  have hd: "fh st ! ?k = a" using pk by simp
  let ?st = "st0\<lparr>fh := (fh st)[?k := f_next f]\<rparr>"
  have "unlink st0 a = Some ?st"
    using hd len by (simp add: unlink_def st0)
  moreover have "foos ?st a \<noteq> None" by (simp add: st0)
  moreover have "table_rel (without ?st a) (drop_entry a es)"
  proof (rule relinked_table [OF rel e])
    show "path (foos ?st) (fh ?st ! k) (filter (\<lambda>x. x \<noteq> a) (bucket k es)) NULL" if "k < NHASH" for k
    proof (cases "k = ?k")
      case True
      have "filter (\<lambda>x. x \<noteq> a) (bucket k es) = ys"
        using True db by (auto simp: b)
      with True len pk show ?thesis by (auto simp: st0)
    next
      case False
      with other have "filter (\<lambda>x. x \<noteq> a) (bucket k es) = bucket k es"
        by simp
      with False rels(7) [OF that] show ?thesis by (simp add: links)
    qed
  qed (use view0 rels(1,6) in \<open>auto simp: st0 split: if_splits\<close>)
  ultimately show ?thesis by blast
qed

lemma unlink_inner:
  assumes rel: "table_rel st es" and e: "map_of es a = Some (i, c)" and f: "foos st a = Some f"
    and st0: "fh st0 = fh st" "foos st0 = (foos st)(a \<mapsto> g)" "f_next g = f_next f" "f_id g = i"
    and b: "bucket (HASH i) es = zs @ b' # a # ys"
  shows "\<exists>st'. unlink st0 a = Some st' \<and> foos st' a \<noteq> None \<and>
    table_rel (without st' a) (drop_entry a es)"
proof -
  let ?k = "HASH i"
  note rels = table_relD [OF rel]
  note facts = unlink_facts [OF rel e f st0, of "zs @ [b']", simplified append_assoc append_Cons append_Nil, OF b]
  note links = facts(1) and len = facts(2) and db = facts(3) and pk = facts(4) and other = facts(5)
  have w: "walk (foos st0) (fh st ! ?k) a = Some b'"
    using walk_finds [of "foos st0" "fh st ! ?k" zs b' a ys NULL] pk db by simp
  from pk have ne: "fh st ! ?k \<noteq> a" using db by (cases zs) auto
  have ba: "b' \<noteq> a" using db by auto
  from pk obtain t where t: "foos st0 b' = Some t" by (auto simp: path_append)
  let ?h = "(foos st0)(b' \<mapsto> t\<lparr>f_next := f_next f\<rparr>)"
  let ?st = "st0\<lparr>foos := ?h\<rparr>"
  have "foos st0 a = Some g" by (simp add: st0)
  with len ne w t have "unlink st0 a = Some ?st"
    by (simp add: unlink_def upd_foo_def st0(1,3,4))
  moreover have "foos ?st a \<noteq> None" using ba by (simp add: st0)
  moreover have "table_rel (without ?st a) (drop_entry a es)"
  proof (rule relinked_table [OF rel e])
    show "path (foos ?st) (fh ?st ! k) (filter (\<lambda>x. x \<noteq> a) (bucket k es)) NULL" if "k < NHASH" for k
    proof (cases "k = ?k")
      case True
      have "filter (\<lambda>x. x \<noteq> a) (bucket k es) = zs @ b' # ys"
        using True db by (auto simp: b)
      moreover have "path ?h (fh st ! ?k) (zs @ b' # ys) NULL"
        using pk db by (auto simp: path_append st0)
      ultimately show ?thesis using True by (simp add: st0)
    next
      case False
      have "b' \<in> set (bucket ?k es)" by (simp add: b)
      with False have "b' \<notin> set (bucket k es)"
        using bucket_disjoint [OF rels(3)] by blast
      with False other rels(7) [OF that] show ?thesis by (simp add: links st0(1))
    qed
    show "foo_view ((foos ?st)(a := None)) = foo_view ((foos st)(a := None))"
      using t ba by (auto simp: foo_view_def st0 fun_eq_iff)
    show "\<not> f_locked x" if "b \<noteq> a" "foos ?st b = Some x" for b x
      using that t ba rels(6) by (auto simp: st0 split: if_splits)
  qed (simp add: st0 rels(1))
  ultimately show ?thesis by blast
qed

lemma unlink_table:
  assumes rel: "table_rel st es" and e: "map_of es a = Some (i, c)" and f: "foos st a = Some f"
    and st0: "fh st0 = fh st" "foos st0 = (foos st)(a \<mapsto> g)" "f_next g = f_next f" "f_id g = i"
  shows "\<exists>st'. unlink st0 a = Some st' \<and> foos st' a \<noteq> None \<and>
    table_rel (without st' a) (drop_entry a es)"
proof -
  have "a \<in> set (bucket (HASH i) es)" using bucket_of_key [OF table_relD(3) [OF rel] e] by simp
  then obtain xs ys where b: "bucket (HASH i) es = xs @ a # ys" by (meson split_list)
  show ?thesis
  proof (cases xs rule: rev_cases)
    case Nil
    with b show ?thesis by (intro unlink_head [OF rel e f st0]) simp
  next
    case (snoc zs b')
    with b show ?thesis by (intro unlink_inner [OF rel e f st0]) simp
  qed
qed


section \<open>Each operation on a well-formed table\<close>

lemmas lock_defs = lock_hash_def unlock_hash_def lock_foo_def unlock_foo_def upd_foo_def
  count_up_def count_down_def

lemma foo_update_unlocked: "\<not> f_locked f \<Longrightarrow> f\<lparr>f_locked := False\<rparr> = f"
  by (cases f) simp

lemma hash_update_unlocked: "\<not> hashlock st \<Longrightarrow> st\<lparr>hashlock := False\<rparr> = st"
  by (cases st) simp

lemma foo_hold_eq:
  assumes "foos st a = Some f" and "\<not> f_locked f" and "f_count f < INT_MAX"
  shows "foo_hold st a = Some (with_count st a (f_count f + 1))"
  using assms by (cases f) (simp add: foo_hold_def lock_defs with_count_def)

lemma foo_hold3_eq:
  assumes "foos st a = Some f" and "\<not> hashlock st" and "f_count f < INT_MAX"
  shows "foo_hold3 st a = Some (with_count st a (f_count f + 1))"
  using assms by (cases st) (simp add: foo_hold3_def lock_defs with_count_def)

lemma find_bucket:
  assumes "\<And>e. e \<in> set es \<Longrightarrow> map_option f_id (h (fst e)) = Some (fst (snd e))"
  shows "find (\<lambda>a. map_option f_id (h a) = Some i) (bucket (HASH i) es) =
    map_option fst (find (\<lambda>e. fst (snd e) = i) es)"
  using assms
proof (induction es)
  case Nil
  then show ?case by (simp add: bucket_def)
next
  case (Cons e es)
  then obtain f where "h (fst e) = Some f" "f_id f = fst (snd e)"
    by (metis list.set_intros(1) map_option_eq_Some)
  with Cons show ?case by (simp add: bucket_def)
qed

lemma table_scan:
  assumes rel: "table_rel st es"
  shows "scan (foos st) (fh st ! HASH i) i =
    Some (case find (\<lambda>e. fst (snd e) = i) es of None \<Rightarrow> NULL | Some e \<Rightarrow> fst e)"
proof -
  have "map_option f_id (foos st (fst e)) = Some (fst (snd e))" if "e \<in> set es" for e
  proof -
    obtain a j c where "e = (a, j, c)" by (cases e)
    with that have "map_of es a = Some (j, c)"
      using table_relD(3) [OF rel] by (simp add: map_of_is_SomeI)
    with rel obtain f where "foos st a = Some f" "f_id f = j" by (rule table_entry)
    with \<open>e = (a, j, c)\<close> show ?thesis by simp
  qed
  then have "find (\<lambda>a. map_option f_id (foos st a) = Some i) (bucket (HASH i) es) =
      map_option fst (find (\<lambda>e. fst (snd e) = i) es)"
    by (rule find_bucket)
  moreover have "path (foos st) (fh st ! HASH i) (bucket (HASH i) es) NULL"
    using table_relD(7) [OF rel] by simp
  ultimately show ?thesis
    by (simp add: scan_finds del: not_None_eq split: option.splits)
qed

lemma find_entry:
  assumes "table_rel st es" and "find (\<lambda>e. fst (snd e) = i) es = Some (a, j, c)"
  shows "map_of es a = Some (j, c)"
  using assms table_relD(3) [OF assms(1)]
  by (metis find_Some_iff nth_mem map_of_is_SomeI)

lemma foo_find_eq:
  assumes rel: "table_rel st es"
  shows "find (\<lambda>e. fst (snd e) = i) es = None \<Longrightarrow>
      foo_find st i = Some (st, NULL) \<and> foo_find3 st i = Some (st, NULL)"
    and "find (\<lambda>e. fst (snd e) = i) es = Some (a, j, c) \<Longrightarrow> c < INT_MAX \<Longrightarrow>
      foo_find st i = Some (with_count st a (c + 1), a) \<and>
      foo_find3 st i = Some (with_count st a (c + 1), a)"
proof -
  note rels = table_relD [OF rel]
  have ld: "load (fh st) (HASH i) = Some (fh st ! HASH i)" by (simp add: rels(1))
  note unl = hash_update_unlocked [OF rels(2)]
  show "foo_find st i = Some (st, NULL) \<and> foo_find3 st i = Some (st, NULL)"
    if "find (\<lambda>e. fst (snd e) = i) es = None"
    using that rels(2) ld
    by (simp add: foo_find_def foo_find3_def lock_hash_def unlock_hash_def table_scan [OF rel] unl)
  show "foo_find st i = Some (with_count st a (c + 1), a) \<and>
      foo_find3 st i = Some (with_count st a (c + 1), a)"
    if found: "find (\<lambda>e. fst (snd e) = i) es = Some (a, j, c)" and c: "c < INT_MAX"
  proof -
    obtain f where f: "foos st a = Some f" "f_count f = c" "\<not> f_locked f" "a \<noteq> NULL"
      using table_entry [OF rel find_entry [OF rel found]] by metis
    have "foo_hold (st\<lparr>hashlock := True\<rparr>) a = Some (with_count (st\<lparr>hashlock := True\<rparr>) a (c + 1))"
      using f c by (simp add: foo_hold_eq)
    moreover have "count_up (st\<lparr>hashlock := True\<rparr>) a = Some (with_count (st\<lparr>hashlock := True\<rparr>) a (c + 1))"
      using f c by (simp add: count_up_def upd_foo_def with_count_def)
    moreover have "with_count (st\<lparr>hashlock := True\<rparr>) a (c + 1)\<lparr>hashlock := False\<rparr> = with_count st a (c + 1)"
      using rels(2) by (cases st) (simp add: with_count_def)
    ultimately show ?thesis
      using found f rels(2) ld
      by (simp add: foo_find_def foo_find3_def lock_hash_def unlock_hash_def table_scan [OF rel])
  qed
qed

lemma foo_rele_down:
  assumes "foos st a = Some f" and "\<not> f_locked f" and "1 < f_count f"
  shows "foo_rele st a = Some (with_count st a (f_count f - 1))"
  using assms
  by (cases f) (simp add: foo_rele_def rele_first_def lock_defs with_count_def)

lemma foo_rele3_down:
  assumes "foos st a = Some f" and "\<not> hashlock st" and "1 < f_count f"
  shows "foo_rele3 st a = Some (with_count st a (f_count f - 1))"
  using assms by (cases st) (simp add: foo_rele3_def lock_defs with_count_def)

text \<open>The second part of \<open>mutex2.c\<close>'s release, for whatever count it finds.\<close>

lemma rele_last_down:
  assumes "table_rel st es" and "map_of es a = Some (i, c)" and "c \<noteq> 1"
  shows "rele_last st a = Some (with_count st a (c - 1))"
proof -
  from assms(1,2) obtain f where "foos st a = Some f" "f_count f = c" "\<not> f_locked f" "1 \<le> c"
    by (rule table_entry)
  with assms(3) table_relD(2) [OF assms(1)] show ?thesis
    by (cases st; cases f) (simp add: rele_last_def lock_defs with_count_def)
qed

lemma rele_last_free:
  assumes rel: "table_rel st es" and e: "map_of es a = Some (i, 1)"
  shows "\<exists>t. rele_last st a = Some t \<and> table_rel t (drop_entry a es)"
proof -
  from rel e obtain f where f: "foos st a = Some f" "f_id f = i" "f_count f = 1" "\<not> f_locked f"
    by (rule table_entry)
  let ?st0 = "st\<lparr>hashlock := True, foos := (foos st)(a \<mapsto> f\<lparr>f_locked := True\<rparr>)\<rparr>"
  from unlink_table [OF rel e f(1), of ?st0 "f\<lparr>f_locked := True\<rparr>"] f obtain st' where
    u: "unlink ?st0 a = Some st'" "foos st' a \<noteq> None" "table_rel (without st' a) (drop_entry a es)"
    by auto
  with f table_relD(2) [OF rel] have "rele_last st a = Some (without st' a)"
    by (auto simp: rele_last_def lock_defs free_foo_def without_def)
  with u show ?thesis by blast
qed

lemma foo_rele_free:
  assumes rel: "table_rel st es" and e: "map_of es a = Some (i, 1)"
  shows "\<exists>t. foo_rele st a = Some t \<and> table_rel t (drop_entry a es)"
proof -
  from rel e obtain f where f: "foos st a = Some f" "f_count f = 1" "\<not> f_locked f"
    by (rule table_entry)
  then have "rele_first st a = Some (st, True)"
    by (cases st; cases f) (auto simp: rele_first_def lock_defs fun_upd_idem)
  with rele_last_free [OF assms] show ?thesis by (simp add: foo_rele_def)
qed

lemma foo_rele3_free:
  assumes rel: "table_rel st es" and e: "map_of es a = Some (i, 1)"
  shows "\<exists>t. foo_rele3 st a = Some t \<and> table_rel t (drop_entry a es)"
proof -
  from rel e obtain f where f: "foos st a = Some f" "f_id f = i" "f_count f = 1"
    by (rule table_entry)
  let ?st0 = "st\<lparr>hashlock := True, foos := (foos st)(a \<mapsto> f\<lparr>f_count := 0\<rparr>)\<rparr>"
  from unlink_table [OF rel e f(1), of ?st0 "f\<lparr>f_count := 0\<rparr>"] f obtain st' where
    u: "unlink ?st0 a = Some st'" "table_rel (without st' a) (drop_entry a es)"
    by auto
  with f table_relD(2) [OF rel] have "foo_rele3 st a = Some (without st' a)"
    by (auto simp: foo_rele3_def lock_defs free_foo_def without_def)
  with u show ?thesis by blast
qed


lemma foo_alloc_table:
  assumes rel: "table_rel st es" and a: "a \<noteq> NULL" and new: "map_of es a = None"
  shows "\<exists>t. foo_alloc st a 0 i = Some (t, a) \<and> table_rel t ((a, i, 1) # es)"
proof -
  note rels = table_relD [OF rel]
  let ?f = "\<lparr>f_count = 1, f_locked = False, f_id = i, f_next = fh st ! HASH i\<rparr>"
  let ?t = "st\<lparr>foos := (foos st)(a \<mapsto> ?f), fh := (fh st)[HASH i := a]\<rparr>"
  have "foos st a = None"
    using rels(5) new by (auto simp: foo_view_def dest!: fun_cong [where x = a])
  have len: "HASH i < length (fh st)" by (simp add: rels(1))
  with a rels(2) have "foo_alloc st a 0 i = Some (?t, a)"
    by (cases st) (simp add: foo_alloc_def lock_defs Let_def)
  moreover have "table_rel ?t ((a, i, 1) # es)"
  proof -
    have fresh: "a \<notin> set (bucket k es)" for k
      using new by (auto simp: set_bucket map_of_eq_None_iff image_iff)
    have "path (foos ?t) (fh ?t ! k) (bucket k ((a, i, 1) # es)) NULL" if "k < NHASH" for k
      using rels(7) [OF that] a len fresh by (cases "k = HASH i") (auto simp: bucket_def)
    moreover have "foo_view (foos ?t) = map_of ((a, i, 1) # es)"
      using rels(5) by (auto simp: foo_view_def fun_eq_iff)
    moreover have "\<not> f_locked f" if "foos ?t b = Some f" for b f
      using that rels(6) by (auto split: if_splits)
    ultimately show ?thesis
      using rel a new by (auto simp: table_rel_def map_of_eq_None_iff)
  qed
  ultimately show ?thesis by blast
qed

lemma foo_alloc_failed:
  assumes rel: "table_rel st es" and new: "map_of es a = None" and rc: "a = NULL \<or> rc \<noteq> 0"
  shows "foo_alloc st a rc i = Some (st, NULL)"
proof -
  have "foos st a = None"
    using table_relD(5) [OF rel] new by (auto simp: foo_view_def dest!: fun_cong [where x = a])
  with rc show ?thesis
    by (cases st) (auto simp: foo_alloc_def free_foo_def fun_upd_idem)
qed

lemma null_not_allocated: "table_rel st es \<Longrightarrow> map_of es NULL = None"
  using table_relD(4) by (force simp: map_of_eq_None_iff)

lemma table_holdE:
  assumes "table_step es (FHold a) = Some (es', r)"
  obtains i c where "map_of es a = Some (i, c)" "c < INT_MAX" "es' = set_count a (c + 1) es" "r = a"
proof (cases "map_of es a")
  case None
  with assms show thesis by simp
next
  case (Some p)
  obtain i c where "p = (i, c)" by (cases p)
  with Some assms have "map_of es a = Some (i, c)" "c < INT_MAX"
      "es' = set_count a (c + 1) es" "r = a"
    by (auto split: if_splits)
  then show thesis by (rule that)
qed

lemma table_releE:
  assumes "table_step es (FRele a) = Some (es', r)"
  obtains i c where "map_of es a = Some (i, c)" "r = a"
    "es' = (if c = 1 then drop_entry a es else set_count a (c - 1) es)"
proof (cases "map_of es a")
  case None
  with assms show thesis by simp
next
  case (Some p)
  obtain i c where p: "p = (i, c)" by (cases p)
  with Some assms show thesis by (intro that [of i c]) simp_all
qed

text \<open>Both disciplines have the same effect on related tables.\<close>

lemma alloc_sim:
  assumes rel: "table_rel st es" and step: "table_step es (Alloc a rc i) = Some (es', r)"
  shows "(\<exists>t. step2 st (Alloc a rc i) = Some (t, r) \<and> table_rel t es') \<and>
    (\<exists>t. step3 st (Alloc a rc i) = Some (t, r) \<and> table_rel t es')"
proof -
  show ?thesis
  proof (cases "a = NULL \<or> rc \<noteq> 0")
    case True
    with step have "map_of es a = None" "es' = es" "r = NULL"
      using null_not_allocated [OF rel] by (cases "map_of es a"; auto split: if_splits)+
    with True rel foo_alloc_failed [OF rel _ True] show ?thesis
      by (simp add: foo_alloc3_def)
  next
    case False
    with step have "map_of es a = None" "es' = (a, i, 1) # es" "r = a"
      by (cases "map_of es a"; auto split: if_splits)+
    with False foo_alloc_table [OF rel, of a i] show ?thesis
      by (simp add: foo_alloc3_def)
  qed
qed

lemma hold_sim:
  assumes rel: "table_rel st es" and step: "table_step es (FHold a) = Some (es', r)"
  shows "(\<exists>t. step2 st (FHold a) = Some (t, r) \<and> table_rel t es') \<and>
    (\<exists>t. step3 st (FHold a) = Some (t, r) \<and> table_rel t es')"
proof -
  from step obtain i c where e: "map_of es a = Some (i, c)" "c < INT_MAX"
      "es' = set_count a (c + 1) es" "r = a"
    by (rule table_holdE)
  from rel e(1) obtain f where f: "foos st a = Some f" "f_count f = c" "\<not> f_locked f" "1 \<le> c"
    by (rule table_entry)
  with e rel_with_count [OF rel e(1), of "c + 1"] table_relD(2) [OF rel] show ?thesis
    by (simp add: foo_hold_eq foo_hold3_eq)
qed

lemma find_sim:
  assumes rel: "table_rel st es" and step: "table_step es (Find i) = Some (es', r)"
  shows "(\<exists>t. step2 st (Find i) = Some (t, r) \<and> table_rel t es') \<and>
    (\<exists>t. step3 st (Find i) = Some (t, r) \<and> table_rel t es')"
proof -
  show ?thesis
  proof (cases "find (\<lambda>e. fst (snd e) = i) es")
    case None
    with step rel foo_find_eq(1) [OF rel None] show ?thesis by simp
  next
    case (Some e)
    obtain a j c where e: "e = (a, j, c)" by (cases e)
    with Some step have c: "c < INT_MAX" "es' = set_count a (c + 1) es" "r = a"
      by (auto split: if_splits)
    have found: "find (\<lambda>e. fst (snd e) = i) es = Some (a, j, c)" using Some e by simp
    have m: "map_of es a = Some (j, c)" by (rule find_entry [OF rel found])
    have "1 \<le> c + 1" using table_relD(8) [OF rel m] by simp
    with rel_with_count [OF rel m] foo_find_eq(2) [OF rel found c(1)] c show ?thesis
      by simp
  qed
qed

lemma rele_sim:
  assumes rel: "table_rel st es" and step: "table_step es (FRele a) = Some (es', r)"
  shows "(\<exists>t. step2 st (FRele a) = Some (t, r) \<and> table_rel t es') \<and>
    (\<exists>t. step3 st (FRele a) = Some (t, r) \<and> table_rel t es')"
proof -
  from step obtain i c where e: "map_of es a = Some (i, c)" "r = a"
      "es' = (if c = 1 then drop_entry a es else set_count a (c - 1) es)"
    by (rule table_releE)
  from rel e(1) obtain f where f: "foos st a = Some f" "f_count f = c" "\<not> f_locked f" "1 \<le> c"
    by (rule table_entry)
  show ?thesis
  proof (cases "c = 1")
    case True
    with e foo_rele_free [OF rel] foo_rele3_free [OF rel] show ?thesis
      by simp
  next
    case False
    with e f rel_with_count [OF rel e(1), of "c - 1"] table_relD(2) [OF rel] show ?thesis
      by (simp add: foo_rele_down foo_rele3_down)
  qed
qed

lemma step_sim:
  assumes "table_rel st es" "table_step es x = Some (es', r)"
  shows "(\<exists>t. step2 st x = Some (t, r) \<and> table_rel t es') \<and>
    (\<exists>t. step3 st x = Some (t, r) \<and> table_rel t es')"
proof (cases x)
  case (Alloc a rc i)
  with alloc_sim [OF assms(1) assms(2) [unfolded Alloc]] show ?thesis by simp
next
  case (FHold a)
  with hold_sim [OF assms(1) assms(2) [unfolded FHold]] show ?thesis by simp
next
  case (Find i)
  with find_sim [OF assms(1) assms(2) [unfolded Find]] show ?thesis by simp
next
  case (FRele a)
  with rele_sim [OF assms(1) assms(2) [unfolded FRele]] show ?thesis by simp
qed

interpretation t2: refines step2 table_step table_rel
  by unfold_locales (blast dest: step_sim)

interpretation t3: refines step3 table_step table_rel
  by unfold_locales (blast dest: step_sim)

section \<open>Reference counting\<close>

definition refs_of :: "ftable \<Rightarrow> nat \<Rightarrow> int option" where
  "refs_of st a = map_option f_count (foos st a)"

definition table_ok :: "ftable \<Rightarrow> bool" where
  "table_ok st \<longleftrightarrow> (\<exists>es. table_rel st es)"

lemma refs_of_rel: "table_rel st es \<Longrightarrow> refs_of st a = map_option snd (map_of es a)"
  using table_relD(5) [of st es, THEN fun_cong, of a]
  by (auto simp: refs_of_def foo_view_def option.map_comp comp_def simp flip: table_relD(5))

lemma refcounted_steps:
  assumes ok: "table_ok st" and n: "refs_of st a = Some n"
  shows "1 \<le> n"
    and "n < INT_MAX \<Longrightarrow> \<exists>t. foo_hold st a = Some t \<and> table_ok t \<and> refs_of t = (refs_of st)(a \<mapsto> n + 1)"
    and "n < INT_MAX \<Longrightarrow> \<exists>t. foo_hold3 st a = Some t \<and> table_ok t \<and> refs_of t = (refs_of st)(a \<mapsto> n + 1)"
    and "\<exists>t. foo_rele st a = Some t \<and> table_ok t \<and>
      refs_of t = (refs_of st)(a := (if n = 1 then None else Some (n - 1)))"
    and "\<exists>t. foo_rele3 st a = Some t \<and> table_ok t \<and>
      refs_of t = (refs_of st)(a := (if n = 1 then None else Some (n - 1)))"
proof -
  from ok obtain es where rel: "table_rel st es" by (auto simp: table_ok_def)
  with n obtain i where e: "map_of es a = Some (i, n)" by (auto simp: refs_of_rel)
  show "1 \<le> n" by (rule table_relD(8) [OF rel e])
  have refs: "refs_of t = (refs_of st)(a := map_option snd (v (i, n)))"
    if "table_rel t es'" "map_of es' = (map_of es)(a := v (i, n))" for t es' v
    using that by (auto simp: fun_eq_iff refs_of_rel [OF rel] refs_of_rel)
  have hold: "refs_of t = (refs_of st)(a \<mapsto> n + 1)" if "table_rel t (set_count a (n + 1) es)" for t
    using refs [OF that, of "\<lambda>(i, n). Some (i, n + 1)"] by (simp add: map_of_set_count e)
  have rele: "refs_of t = (refs_of st)(a := (if n = 1 then None else Some (n - 1)))"
    if "table_rel t (if n = 1 then drop_entry a es else set_count a (n - 1) es)" for t
    using refs [OF that, of "\<lambda>(i, n). if n = 1 then None else Some (i, n - 1)"]
    by (simp add: map_of_set_count map_of_drop_entry e split: if_splits)
  show "\<exists>t. foo_hold st a = Some t \<and> table_ok t \<and> refs_of t = (refs_of st)(a \<mapsto> n + 1)"
    and "\<exists>t. foo_hold3 st a = Some t \<and> table_ok t \<and> refs_of t = (refs_of st)(a \<mapsto> n + 1)"
    if "n < INT_MAX"
    using step_sim [OF rel, of "FHold a"] hold that e by (auto simp: table_ok_def)
  show "\<exists>t. foo_rele st a = Some t \<and> table_ok t \<and>
      refs_of t = (refs_of st)(a := (if n = 1 then None else Some (n - 1)))"
    and "\<exists>t. foo_rele3 st a = Some t \<and> table_ok t \<and>
      refs_of t = (refs_of st)(a := (if n = 1 then None else Some (n - 1)))"
    using step_sim [OF rel, of "FRele a"] rele e by (fastforce simp: table_ok_def)+
qed

lemma freed_object:
  assumes "table_ok st" and "refs_of st a = None"
  shows "foo_hold st a = None \<and> foo_rele st a = None"
    and "foo_hold3 st a = None \<and> foo_rele3 st a = None"
proof -
  from assms(2) have "foos st a = None" by (simp add: refs_of_def)
  then show "foo_hold st a = None \<and> foo_rele st a = None"
    and "foo_hold3 st a = None \<and> foo_rele3 st a = None"
    by (simp_all add: foo_hold_def foo_rele_def rele_first_def lock_foo_def foo_hold3_def
      foo_rele3_def count_up_def count_down_def lock_hash_def)
qed

interpretation m2: refcounted foo_hold foo_rele refs_of table_ok
  by unfold_locales (fact refcounted_steps(1,2,4) freed_object(1))+

interpretation m3: refcounted foo_hold3 foo_rele3 refs_of table_ok
  by unfold_locales (fact refcounted_steps(1,3,5) freed_object(2))+

section \<open>Properties\<close>

text \<open>
  C2. The two locking disciplines are the same table: started from one well-formed table, any
  sequence of allocations, holds, finds and releases whose objects are live runs to its end
  under \<open>mutex2.c\<close> and under \<open>mutex3.c\<close>, with the results of the abstract list of entries
  (a find returns the newest object of that id), and both leave chains, counters and locks
  that describe the same list.
\<close>

theorem mutex_disciplines_agree:
  assumes "table_rel st es" and "run_ops table_step es ops = Some (es', rs)"
  shows "\<exists>t u. run_ops step2 st ops = Some (t, rs) \<and> table_rel t es' \<and>
    run_ops step3 st ops = Some (u, rs) \<and> table_rel u es'"
  using t2.run_refines [OF assms] t3.run_refines [OF assms] by blast

definition empty_table :: ftable where
  "empty_table = \<lparr>foos = Map.empty, fh = replicate NHASH NULL, hashlock = False\<rparr>"

lemma empty_table_rel: "table_rel empty_table []"
  by (simp add: empty_table_def table_rel_def foo_view_def bucket_def fun_eq_iff)

theorem mutex_disciplines_agree_witness:
  "\<exists>t u. run_ops step2 empty_table [Alloc 16 0 5, Alloc 32 0 34, Find 34, Find 6, FRele 16] =
      Some (t, [16, 32, 32, 0, 16]) \<and> table_rel t [(32, 34, 2)] \<and>
    run_ops step3 empty_table [Alloc 16 0 5, Alloc 32 0 34, Find 34, Find 6, FRele 16] =
      Some (u, [16, 32, 32, 0, 16]) \<and> table_rel u [(32, 34, 2)]"
  by (rule mutex_disciplines_agree [OF empty_table_rel])
    (simp add: set_count_def drop_entry_def INT_MAX_def)

text \<open>
  C7. The recheck in \<open>mutex2.c\<close>'s \<open>foo_rele\<close> closes its window: a release that saw the count 1
  gives up the object's lock before it takes both locks in order, and whatever complete
  operations other threads run there, as long as the object lives, the second part has the
  effect of one atomic release at its own moment: it only decrements if a find intervened, and
  unlinks and frees the object if none is left.
\<close>

theorem rele_window_is_atomic:
  assumes "table_rel st es" and "map_of es fp = Some (i, 1)"
    and "run_ops table_step es others = Some (es', rs)"
    and "table_step es' (FRele fp) = Some (es'', fp)"
  shows "rele_first st fp = Some (st, True) \<and>
    (\<exists>t u. run_ops step2 st others = Some (t, rs) \<and> rele_last t fp = Some u \<and> table_rel u es'')"
proof -
  from assms(1,2) obtain f where f: "foos st fp = Some f" "f_count f = 1" "\<not> f_locked f"
    by (rule table_entry)
  then have "rele_first st fp = Some (st, True)"
    by (cases st; cases f) (auto simp: rele_first_def lock_defs fun_upd_idem)
  moreover from t2.run_refines [OF assms(1,3)] obtain t where
    t: "run_ops step2 st others = Some (t, rs)" "table_rel t es'" by blast
  moreover from assms(4) obtain j c where c: "map_of es' fp = Some (j, c)"
      "es'' = (if c = 1 then drop_entry fp es' else set_count fp (c - 1) es')"
    by (rule table_releE)
  moreover have "\<exists>u. rele_last t fp = Some u \<and> table_rel u es''"
  proof (cases "c = 1")
    case True
    with c rele_last_free [OF t(2)] show ?thesis by simp
  next
    case False
    with table_relD(8) [OF t(2) c(1)] have "1 \<le> c - 1" by simp
    with False c rele_last_down [OF t(2) c(1)] rel_with_count [OF t(2) c(1)] show ?thesis by simp
  qed
  ultimately show ?thesis by blast
qed

definition one_foo :: ftable where
  "one_foo = fst (the (foo_alloc empty_table 16 0 5))"

lemma one_foo_rel: "table_rel one_foo [(16, 5, 1)]"
  using foo_alloc_table [OF empty_table_rel, of 16 5] by (auto simp: one_foo_def)

theorem rele_window_is_atomic_witness:
  "rele_first one_foo 16 = Some (one_foo, True) \<and>
    (\<exists>t u. run_ops step2 one_foo [Find 5] = Some (t, [16]) \<and> rele_last t 16 = Some u \<and>
      table_rel u [(16, 5, 1)])"
  by (rule rele_window_is_atomic [OF one_foo_rel, where es' = "[(16, 5, 2)]" and i = 5])
    (simp_all add: set_count_def INT_MAX_def)

text \<open>
  C27. Under both disciplines an object with \<open>n\<close> references survives any sequence of holds and
  releases until the release that takes the count to zero, which frees it; no other object is
  touched, and a release after the last one never returns.
\<close>

theorem table_objects_lifetime:
  assumes "table_ok st" and "refs_of st a = Some n" and "ref_count n xs = Some m"
  shows "\<exists>t u. ref_run foo_hold foo_rele st a xs = Some t \<and>
    ref_run foo_hold3 foo_rele3 st a xs = Some u \<and> table_ok t \<and> table_ok u \<and>
    refs_of t = (refs_of st)(a := if m = 0 then None else Some m) \<and> refs_of u = refs_of t \<and>
    (foo_rele t a = None) = (m = 0) \<and> (foo_rele3 u a = None) = (m = 0)"
proof -
  from m2.run_counts [OF assms] m3.run_counts [OF assms] obtain t u where
    "ref_run foo_hold foo_rele st a xs = Some t" "ref_run foo_hold3 foo_rele3 st a xs = Some u"
    and ok: "table_ok t" "table_ok u"
    and r: "refs_of t = (refs_of st)(a := if m = 0 then None else Some m)"
      "refs_of u = (refs_of st)(a := if m = 0 then None else Some m)"
    by blast
  moreover have "(foo_rele t a = None) = (m = 0)" "(foo_rele3 u a = None) = (m = 0)"
    using freed_object [OF ok(1), of a] freed_object [OF ok(2), of a]
      refcounted_steps(4) [OF ok(1), of a m] refcounted_steps(5) [OF ok(2), of a m]
    by (cases "m = 0"; auto simp: r)+
  ultimately show ?thesis by auto
qed

theorem table_objects_lifetime_witness:
  "\<exists>t u. ref_run foo_hold foo_rele one_foo 16 [Hold, Rele, Rele] = Some t \<and>
    ref_run foo_hold3 foo_rele3 one_foo 16 [Hold, Rele, Rele] = Some u \<and> table_ok t \<and> table_ok u \<and>
    refs_of t = (refs_of one_foo)(16 := if (0::int) = 0 then None else Some 0) \<and> refs_of u = refs_of t \<and>
    (foo_rele t 16 = None) = ((0::int) = 0) \<and> (foo_rele3 u 16 = None) = ((0::int) = 0)"
proof (rule table_objects_lifetime)
  show "table_ok one_foo" using one_foo_rel by (auto simp: table_ok_def)
  show "refs_of one_foo 16 = Some 1" by (simp add: refs_of_rel [OF one_foo_rel])
  show "ref_count 1 [Hold, Rele, Rele] = Some 0" by (simp add: INT_MAX_def)
qed

end
