(* ===== verification/Checksum.thy ===== *)
theory Checksum imports Prelude
begin

text \<open>
  The Internet checksum of \<open>packetSpoofing/checksum.c\<close>. Memory is a list of bytes and a
  16-bit load is little-endian, as on the hosts the Makefile builds for. The accumulator is a
  C \<open>int\<close>: a sum above \<open>INT_MAX\<close>, like a read past the buffer, has no defined result and
  is \<open>None\<close>. The reference is the one's-complement sum of RFC 1071.
\<close>

section \<open>16-bit words in memory\<close>

definition le16 :: "u8 \<Rightarrow> u8 \<Rightarrow> u16" where
  "le16 lo hi = word_cat hi lo"

definition lo8 :: "u16 \<Rightarrow> u8" where "lo8 w = ucast w"

definition hi8 :: "u16 \<Rightarrow> u8" where "hi8 w = ucast (drop_bit 8 w)"

definition load16 :: "u8 list \<Rightarrow> nat \<Rightarrow> u16 option" where
  "load16 mem p = do { a \<leftarrow> load mem p; b \<leftarrow> load mem (p + 1); Some (le16 a b) }"

definition store16 :: "u8 list \<Rightarrow> nat \<Rightarrow> u16 \<Rightarrow> u8 list option" where
  "store16 mem p v = do { mem \<leftarrow> store mem p (lo8 v); store mem (p + 1) (hi8 v) }"

lemma uint_le16: "uint (le16 lo hi) = uint lo + 256 * uint hi"
proof -
  have "uint lo mod 256 = uint lo" using uint_u8_bounds [of lo] by simp
  then have "le16 lo hi = word_of_int (uint lo + 256 * uint hi)"
    by (simp add: le16_def word_cat_eq' concat_bit_eq push_bit_eq_mult take_bit_eq_mod)
  moreover have "uint (word_of_int (uint lo + 256 * uint hi) :: u16) = uint lo + 256 * uint hi"
    using uint_u8_bounds [of lo] uint_u8_bounds [of hi]
    by (subst uint_word_of_int) simp
  ultimately show ?thesis by (simp only:)
qed

lemma le16_parts [simp]: "le16 (lo8 w) (hi8 w) = w"
  unfolding le16_def lo8_def hi8_def
  by (rule bit_word_eqI) (auto simp: bit_simps)

lemma lo8_le16 [simp]: "lo8 (le16 a b) = a"
  unfolding le16_def lo8_def by (rule bit_word_eqI) (auto simp: bit_simps)

lemma hi8_le16 [simp]: "hi8 (le16 a b) = b"
  unfolding le16_def hi8_def by (rule bit_word_eqI) (auto simp: bit_simps)

section \<open>\<open>in_cksum\<close>\<close>

text \<open>Addition on a C \<open>int\<close>.\<close>

definition add_int :: "int \<Rightarrow> int \<Rightarrow> int option" where
  "add_int a b = (if - INT_MAX - 1 \<le> a + b \<and> a + b \<le> INT_MAX then Some (a + b) else None)"

function cksum_loop :: "u8 list \<Rightarrow> nat \<Rightarrow> int \<Rightarrow> int \<Rightarrow> (nat \<times> int \<times> int) option" where
  "cksum_loop mem w nleft sm =
     (if nleft > 1 then do {
        x \<leftarrow> load16 mem w;
        sm \<leftarrow> add_int sm (uint x);
        cksum_loop mem (w + 2) (nleft - 2) sm }
      else Some (w, nleft, sm))"
  by pat_completeness auto
termination by (relation "measure (\<lambda>(mem, w, nleft, sm). nat nleft)") auto

definition odd_byte :: "u8 list \<Rightarrow> nat \<times> int \<times> int \<Rightarrow> int option" where
  "odd_byte mem = (\<lambda>(w, nleft, sm).
     if nleft = 1 then do { b \<leftarrow> load mem w; add_int sm (uint (le16 b 0)) } else Some sm)"

definition in_cksum :: "u8 list \<Rightarrow> int \<Rightarrow> u16 option" where
  "in_cksum mem len = do {
     st \<leftarrow> cksum_loop mem 0 len 0;
     sm \<leftarrow> odd_byte mem st;
     sm \<leftarrow> add_int (drop_bit 16 sm) (sm AND 0xffff);
     sm \<leftarrow> add_int sm (drop_bit 16 sm);
     Some (word_of_int (NOT sm)) }"

section \<open>The reference: RFC 1071\<close>

fun words_le :: "u8 list \<Rightarrow> u16 list" where
  "words_le [] = []"
| "words_le [b] = [le16 b 0]"
| "words_le (a # b # bs) = le16 a b # words_le bs"

text \<open>One's-complement addition: the carry out of bit 15 is added back at bit 0.\<close>

definition oc_add :: "int \<Rightarrow> int \<Rightarrow> int" where
  "oc_add a b = (if a + b \<le> 65535 then a + b else a + b - 65535)"

definition rfc1071 :: "u8 list \<Rightarrow> u16" where
  "rfc1071 bs = NOT (word_of_int (foldl oc_add 0 (map uint (words_le bs))))"

definition total :: "u8 list \<Rightarrow> int" where
  "total bs = sum_list (map uint (words_le bs))"

lemma total_simps [simp]:
  "total [] = 0" "total [b] = uint b" "total (a # b # bs) = uint (le16 a b) + total bs"
  by (simp_all add: total_def uint_le16)

lemma total_nonneg [simp]: "0 \<le> total bs"
  by (induction bs rule: words_le.induct) auto

lemma total_le: "total bs \<le> 65535 * int (length bs div 2) + 255 * int (length bs mod 2)"
proof (induction bs rule: words_le.induct)
  case (2 b)
  then show ?case using uint_u8_bounds [of b] by simp
next
  case (3 a b bs)
  then show ?case using uint_u16_bounds [of "le16 a b"] by simp
qed simp

lemma total_small: "length bs \<le> 65537 \<Longrightarrow> total bs \<le> INT_MAX"
proof -
  assume "length bs \<le> 65537"
  then have "length bs div 2 \<le> 32768" "length bs mod 2 \<le> 1" by linarith+
  with total_le [of bs] show ?thesis by (simp add: INT_MAX_def)
qed

section \<open>The loop computes the sum of the words\<close>

lemma load16_at: "load16 (pre @ a # b # post) (length pre) = Some (le16 a b)"
  by (simp add: load16_def nth_append)

lemma add_int_nonneg:
  "0 \<le> a \<Longrightarrow> 0 \<le> b \<Longrightarrow> add_int a b = (if a + b \<le> INT_MAX then Some (a + b) else None)"
  by (simp add: add_int_def INT_MAX_def)

declare cksum_loop.simps [simp del]

lemma cksum_loop_total:
  assumes "0 \<le> s" and "s \<le> INT_MAX"
  shows "do { st \<leftarrow> cksum_loop (pre @ bs @ post) (length pre) (int (length bs)) s;
              odd_byte (pre @ bs @ post) st } =
    (if s + total bs \<le> INT_MAX then Some (s + total bs) else None)"
  using assms
proof (induction bs arbitrary: pre s rule: words_le.induct)
  case 1
  then show ?case by (simp add: cksum_loop.simps odd_byte_def)
next
  case (2 b)
  then show ?case by (simp add: cksum_loop.simps odd_byte_def add_int_nonneg nth_append uint_le16)
next
  case (3 a b bs)
  have ld: "load16 (pre @ a # b # bs @ post) (length pre) = Some (le16 a b)"
    by (simp add: load16_at)
  show ?case
  proof (cases "s + uint (le16 a b) \<le> INT_MAX")
    case True
    with 3(2) have "0 \<le> s + uint (le16 a b)" by simp
    from 3(1) [OF this True, of "pre @ [a, b]"] True 3(2) ld show ?thesis
      by (subst cksum_loop.simps) (simp add: add_int_nonneg add.assoc)
  next
    case False
    moreover have "\<not> s + total (a # b # bs) \<le> INT_MAX"
      using False total_nonneg [of bs] by (simp only: total_simps; linarith)
    ultimately show ?thesis using 3(2) ld
      by (subst cksum_loop.simps) (simp add: add_int_nonneg)
  qed
qed

lemma cksum_loop_outside:
  assumes "int (length mem) < int w + nleft" and "1 \<le> nleft"
  shows "do { st \<leftarrow> cksum_loop mem w nleft s; odd_byte mem st } = None"
  using assms
proof (induction mem w nleft s rule: cksum_loop.induct)
  case (1 mem w nleft s)
  show ?case
  proof (cases "nleft > 1")
    case False
    with 1 have "nleft = 1" "length mem \<le> w" by linarith+
    then show ?thesis by (subst cksum_loop.simps) (simp add: odd_byte_def)
  next
    case True
    have "do { st \<leftarrow> cksum_loop mem (w + 2) (nleft - 2) t; odd_byte mem st } = None"
      if x: "load16 mem w = Some x" and t: "add_int s (uint x) = Some t" for x t
    proof -
      from x have "w + 1 < length mem"
        by (auto simp: load16_def load_def split: if_splits bind_splits)
      with 1(2) have "1 \<le> nleft - 2" by linarith
      with 1(1) [OF True x t] 1(2) show ?thesis by simp
    qed
    with True show ?thesis
      by (subst cksum_loop.simps) (auto split: bind_splits)
  qed
qed


text \<open>The two folding steps, on a non-negative accumulator.\<close>

definition oc_norm :: "int \<Rightarrow> int" where
  "oc_norm n = (if n = 0 then 0 else 1 + (n - 1) mod 65535)"

lemma oc_norm_range: "0 \<le> n \<Longrightarrow> 0 \<le> oc_norm n \<and> oc_norm n \<le> 65535"
  using pos_mod_bound [of 65535 "n - 1"] by (auto simp: oc_norm_def)

lemma oc_norm_small: "0 \<le> n \<Longrightarrow> n \<le> 65535 \<Longrightarrow> oc_norm n = n"
  by (auto simp: oc_norm_def)

lemma oc_norm_cong: "0 < n \<Longrightarrow> 0 < m \<Longrightarrow> (oc_norm n = oc_norm m) = (65535 dvd n - m)"
  by (simp add: oc_norm_def mod_eq_dvd_iff)

lemma oc_norm_pos: "0 < n \<Longrightarrow> 0 < oc_norm n"
  by (simp add: oc_norm_def add_pos_nonneg)

lemma oc_norm_eq_0: "0 \<le> n \<Longrightarrow> oc_norm n = 0 \<longleftrightarrow> n = 0"
  using oc_norm_pos [of n] by (auto simp: oc_norm_def order_less_le)

lemma oc_norm_unique:
  assumes "0 < n" "0 < m" "m \<le> 65535" "65535 dvd n - m"
  shows "oc_norm n = m"
  using oc_norm_cong [of n m] oc_norm_small [of m] assms by simp

lemma oc_add_norm:
  assumes "0 \<le> n" and "0 \<le> x" and "x \<le> 65535"
  shows "oc_add (oc_norm n) x = oc_norm (n + x)"
proof (cases "n + x = 0")
  case True
  with assms show ?thesis by (simp add: oc_add_def oc_norm_def)
next
  case False
  show ?thesis
  proof (cases "n = 0")
    case True
    with assms show ?thesis by (simp add: oc_add_def oc_norm_small)
  next
    case n: False
    with assms have pos: "0 < n" "0 < oc_norm n" "oc_norm n \<le> 65535"
      using oc_norm_pos oc_norm_range by (simp_all add: order_less_le)
    define k where "k = (n - 1) div 65535"
    have "n - oc_norm n = 65535 * k"
      using n minus_mod_eq_mult_div [of "n - 1" 65535] by (simp add: oc_norm_def k_def)
    then have "(n + x) - oc_add (oc_norm n) x = 65535 * (if oc_norm n + x \<le> 65535 then k else k + 1)"
      by (simp add: oc_add_def)
    then have "65535 dvd (n + x) - oc_add (oc_norm n) x"
      by (rule dvdI)
    moreover have "0 < oc_add (oc_norm n) x" "oc_add (oc_norm n) x \<le> 65535"
      using pos assms by (simp_all add: oc_add_def)
    ultimately have "oc_norm (n + x) = oc_add (oc_norm n) x"
      using pos(1) assms(2) by (intro oc_norm_unique) linarith+
    then show ?thesis ..
  qed
qed

lemma foldl_oc_add:
  "0 \<le> n \<Longrightarrow> foldl oc_add (oc_norm n) (map uint (ws :: u16 list)) = oc_norm (n + sum_list (map uint ws))"
proof (induction ws arbitrary: n)
  case (Cons w ws)
  have "0 \<le> n + uint w" using Cons.prems by simp
  with Cons show ?case
    using uint_u16_bounds [of w] by (simp add: oc_add_norm add.assoc)
qed simp

lemma rfc1071_total: "rfc1071 bs = NOT (word_of_int (oc_norm (total bs)))"
  using foldl_oc_add [of 0 "words_le bs"] by (simp add: rfc1071_def total_def oc_norm_def)

lemma fold_twice:
  assumes "0 \<le> s" and "s \<le> INT_MAX"
  shows "do { t \<leftarrow> add_int (drop_bit 16 s) (s AND 0xffff);
              t \<leftarrow> add_int t (drop_bit 16 t);
              Some (word_of_int (NOT t) :: u16) } =
    Some (NOT (word_of_int (oc_norm s)))"
proof -
  have parts: "drop_bit 16 s = s div 65536" "s AND 0xffff = s mod 65536"
    using take_bit_eq_mask [of 16 s] by (simp_all add: drop_bit_eq_div take_bit_eq_mod mask_eq_exp_minus_1)
  define t where "t = s div 65536 + s mod 65536"
  have q: "0 \<le> s div 65536" "s div 65536 \<le> 32767" "0 \<le> s mod 65536" "s mod 65536 \<le> 65535"
    using assms by (auto simp: INT_MAX_def)
  then have t: "0 \<le> t" "t \<le> 98302" by (simp_all add: t_def)
  define u where "u = t + t div 65536"
  have "65535 dvd s - t"
  proof -
    have "s - t = 65535 * (s div 65536)"
      using minus_mod_eq_mult_div [of s 65536] by (simp add: t_def)
    then show ?thesis by simp
  qed
  have "t = 0 \<longleftrightarrow> s = 0" using q div_mult_mod_eq [of s 65536] by (auto simp: t_def)
  have "word_of_int u = (word_of_int (oc_norm s) :: u16)"
  proof (cases "t < 65536")
    case True
    with t have "u = t" by (simp add: u_def)
    moreover have "oc_norm s = t"
      using \<open>65535 dvd s - t\<close> \<open>t = 0 \<longleftrightarrow> s = 0\<close> t True assms oc_norm_unique [of s t]
      by (cases "t = 0") (auto simp: oc_norm_def)
    ultimately show ?thesis by simp
  next
    case False
    with t have "t div 65536 = 1" by auto
    then have u: "u = t + 1" by (simp add: u_def)
    have "65535 dvd (s - t) + 65535" using \<open>65535 dvd s - t\<close> by simp
    then have "65535 dvd s - (t - 65535)" by (simp add: algebra_simps)
    moreover have "0 < s" using \<open>t = 0 \<longleftrightarrow> s = 0\<close> False assms by linarith
    ultimately have "oc_norm s = t - 65535"
      using t False by (intro oc_norm_unique) auto
    with u have "u = oc_norm s + 2 ^ 16" by simp
    then show ?thesis by (simp only: word_of_int_2p_len of_int_add) simp
  qed
  moreover have "add_int (drop_bit 16 s) (s AND 0xffff) = Some t"
    using q by (simp add: parts add_int_def INT_MAX_def t_def)
  moreover have "add_int t (drop_bit 16 t) = Some u"
  proof -
    have "0 \<le> t div 65536" "t div 65536 \<le> 1" using t by linarith+
    with t show ?thesis by (simp add: add_int_def INT_MAX_def u_def drop_bit_eq_div)
  qed
  ultimately show ?thesis by (simp add: of_int_not_eq)
qed

section \<open>What \<open>in_cksum\<close> computes\<close>

lemma in_cksum_eq:
  "in_cksum mem n = (if nat n \<le> length mem \<and> total (take (nat n) mem) \<le> INT_MAX
     then Some (rfc1071 (take (nat n) mem)) else None)"
proof (cases "nat n \<le> length mem")
  case False
  then have "do { st \<leftarrow> cksum_loop mem 0 n 0; odd_byte mem st } = None"
    by (intro cksum_loop_outside) auto
  with False show ?thesis by (simp add: in_cksum_def flip: Option.bind_assoc)
next
  case True
  let ?bs = "take (nat n) mem"
  have sums: "do { st \<leftarrow> cksum_loop mem 0 n 0; odd_byte mem st } =
      (if total ?bs \<le> INT_MAX then Some (total ?bs) else None)"
  proof (cases "n \<le> 0")
    case neg: True
    then show ?thesis by (simp add: cksum_loop.simps odd_byte_def INT_MAX_def)
  next
    case False
    with True have "n = int (length ?bs)" by simp
    with cksum_loop_total [of 0 "[]" ?bs "drop (nat n) mem"] show ?thesis
      by (simp add: INT_MAX_def)
  qed
  show ?thesis
  proof (cases "total ?bs \<le> INT_MAX")
    case False
    with sums True show ?thesis by (simp add: in_cksum_def flip: Option.bind_assoc)
  next
    case small: True
    with sums have "do { st \<leftarrow> cksum_loop mem 0 n 0; odd_byte mem st } = Some (total ?bs)" by simp
    with fold_twice [OF total_nonneg small] True small show ?thesis
      by (simp add: in_cksum_def rfc1071_total flip: Option.bind_assoc)
  qed
qed

section \<open>Changing one word\<close>

lemma length_words_le: "length (words_le bs) = (length bs + 1) div 2"
  by (induction bs rule: words_le.induct) auto

lemma words_le_store16:
  assumes "even p" and "p + 1 < length bs" and "store16 bs p v = Some bs'"
  shows "words_le bs' = (words_le bs)[p div 2 := v] \<and> length bs' = length bs"
proof -
  have "words_le (bs[p := lo8 v, Suc p := hi8 v]) = (words_le bs)[p div 2 := v]"
    using assms(1,2)
  proof (induction bs arbitrary: p rule: words_le.induct)
    case (3 a b bs)
    show ?case
    proof (cases p)
      case 0
      then show ?thesis by simp
    next
      case (Suc q)
      with 3(2) obtain r where "p = Suc (Suc r)" "even r" by (cases q) auto
      with 3 show ?thesis by simp
    qed
  qed auto
  with assms show ?thesis by (auto simp: store16_def store_def split: bind_splits)
qed

lemma words_le_load16:
  "even p \<Longrightarrow> load16 bs p = Some w \<Longrightarrow> p + 1 < length bs \<and> words_le bs ! (p div 2) = w"
proof (induction bs arbitrary: p rule: words_le.induct)
  case (3 a b bs)
  show ?case
  proof (cases p)
    case 0
    with 3 show ?thesis by (simp add: load16_def)
  next
    case (Suc q)
    with 3(2) obtain r where r: "p = Suc (Suc r)" "even r" by (cases q) auto
    with 3(3) have "load16 bs r = Some w" by (auto simp: load16_def load_def split: bind_splits if_splits)
    with 3(1) [OF r(2)] r show ?thesis by simp
  qed
qed (auto simp: load16_def load_def split: bind_splits if_splits)

lemma sum_list_update_int:
  "k < length ws \<Longrightarrow> sum_list (map uint (ws[k := v])) = sum_list (map uint ws) - uint (ws ! k) + uint (v :: u16)"
  by (induction ws arbitrary: k) (auto split: nat.splits)

lemma total_store16:
  assumes "even p" and "load16 bs p = Some old" and "store16 bs p v = Some bs'"
  shows "total bs' = total bs - uint old + uint v" and "length bs' = length bs"
proof -
  from words_le_load16 [OF assms(1,2)] have w: "p + 1 < length bs" "words_le bs ! (p div 2) = old"
    by simp_all
  moreover from w(1) assms(1) have "p div 2 < length (words_le bs)"
    by (auto simp: length_words_le elim: evenE)
  moreover note words_le_store16 [OF assms(1) w(1) assms(3)]
  ultimately show "total bs' = total bs - uint old + uint v" and "length bs' = length bs"
    by (simp_all add: total_def sum_list_update_int)
qed

lemma rfc1071_inserted:
  assumes "even p" and "load16 bs p = Some 0" and "store16 bs p (rfc1071 bs) = Some bs'"
  shows "rfc1071 bs' = 0"
proof -
  let ?N = "oc_norm (total bs)"
  have N: "0 \<le> ?N" "?N \<le> 65535" using oc_norm_range [of "total bs"] by simp_all
  have "uint (rfc1071 bs) = 65535 - ?N"
  proof -
    have "rfc1071 bs = word_of_int (65535 - ?N)"
      by (simp add: rfc1071_total not_eq_complement)
    then show ?thesis using N by (simp add: uint_word_of_int del: of_int_diff)
  qed
  with total_store16 [OF assms] have t: "total bs' = total bs + (65535 - ?N)" by simp
  have "oc_norm (total bs') = 65535"
  proof (cases "total bs = 0")
    case True
    with t show ?thesis by (simp add: oc_norm_def)
  next
    case False
    then have "0 < total bs" using total_nonneg [of bs] by linarith
    moreover have "total bs - ?N = 65535 * ((total bs - 1) div 65535)"
      using False minus_mod_eq_mult_div [of "total bs - 1" 65535] by (simp add: oc_norm_def)
    ultimately show ?thesis
      using N t by (intro oc_norm_unique) auto
  qed
  then show ?thesis by (simp add: rfc1071_total)
qed

lemma residues_apart:
  assumes "0 \<le> x" "x \<le> 65535" "0 \<le> y" "y \<le> 65535" "x \<noteq> (y :: int)" "65535 dvd x - y"
  shows "(x = 65535 \<and> y = 0) \<or> (x = 0 \<and> y = 65535)"
proof -
  from assms(6) obtain k where "x - y = 65535 * k" by (auto simp: dvd_def)
  with assms have "k = 1 \<or> k = - 1" by auto
  with \<open>x - y = 65535 * k\<close> assms show ?thesis by auto
qed

lemma rfc1071_detects:
  assumes "even p" and "load16 bs p = Some old" and "store16 bs p v = Some bs'"
    and "v \<noteq> old" and "{v, old} \<noteq> {0, 0xffff}"
  shows "rfc1071 bs' \<noteq> rfc1071 bs"
proof
  assume "rfc1071 bs' = rfc1071 bs"
  then have "word_of_int (oc_norm (total bs')) = (word_of_int (oc_norm (total bs)) :: u16)"
    by (simp add: rfc1071_total)
  then have "uint (word_of_int (oc_norm (total bs')) :: u16) = uint (word_of_int (oc_norm (total bs)) :: u16)"
    by simp
  then have eq: "oc_norm (total bs') = oc_norm (total bs)"
    using oc_norm_range [of "total bs"] oc_norm_range [of "total bs'"] by (simp add: uint_word_of_int)
  have t: "total bs' = total bs - uint old + uint v" using total_store16 assms by blast
  have ne: "uint v \<noteq> uint old" using assms(4) by (simp add: word_uint_eq_iff)
  have "total bs' \<noteq> 0 \<and> total bs \<noteq> 0"
  proof -
    have "total bs' = 0 \<longleftrightarrow> total bs = 0"
      using eq oc_norm_eq_0 [of "total bs"] oc_norm_eq_0 [of "total bs'"] by simp
    with t ne show ?thesis by auto
  qed
  then have "0 < total bs'" "0 < total bs"
    using total_nonneg [of bs] total_nonneg [of bs'] by linarith+
  with eq t have "65535 dvd uint v - uint old" by (simp add: oc_norm_cong algebra_simps)
  with ne have "(uint v = 65535 \<and> uint old = 0) \<or> (uint v = 0 \<and> uint old = 65535)"
    by (intro residues_apart uint_u16_bounds)
  then have "(v = 0xffff \<and> old = 0) \<or> (v = 0 \<and> old = 0xffff)"
    by (simp add: word_uint_eq_iff)
  with assms(5) show False by auto
qed

section \<open>Properties\<close>

text \<open>
  C1. \<open>in_cksum\<close> is the RFC 1071 checksum wherever it returns, odd lengths included; it returns
  exactly when the buffer holds \<open>length\<close> bytes and the words sum to at most \<open>INT_MAX\<close>, so for
  every buffer of up to 65537 bytes (all IP packets).
\<close>

theorem in_cksum_is_rfc1071:
  "in_cksum mem n = (if nat n \<le> length mem \<and> total (take (nat n) mem) \<le> INT_MAX
     then Some (rfc1071 (take (nat n) mem)) else None) \<and>
   (n \<le> int (min 65537 (length mem))) \<le> (in_cksum mem n \<noteq> None)"
  by (auto simp: in_cksum_eq intro!: total_small)

text \<open>
  The bound is sharp: the accumulator is a signed \<open>int\<close>, and 65538 bytes of ones overflow it.
\<close>

theorem in_cksum_overflows: "in_cksum (replicate 65538 0xff) 65538 = None"
proof -
  have "total (replicate (2 * k) 0xff) = 65535 * int k" for k
    by (induction k) (simp_all add: uint_le16)
  from this [of 32769] show ?thesis by (simp add: in_cksum_eq INT_MAX_def)
qed

text \<open>
  A checksum written into its zeroed field, at an even offset, makes the checksum of the
  whole buffer 0: what a receiver checks.
\<close>

theorem in_cksum_verifies:
  assumes "even p" and "length bs \<le> 65537" and "load16 bs p = Some 0"
    and "in_cksum bs (int (length bs)) = Some c" and "store16 bs p c = Some bs'"
  shows "in_cksum bs' (int (length bs')) = Some 0"
proof -
  from assms(4) have "c = rfc1071 bs" by (simp add: in_cksum_eq split: if_splits)
  with assms(5) have st: "store16 bs p (rfc1071 bs) = Some bs'" by simp
  have "rfc1071 bs' = 0" by (rule rfc1071_inserted [OF assms(1,3) st])
  moreover have "length bs' = length bs" by (rule total_store16(2) [OF assms(1,3) st])
  ultimately show ?thesis using assms(2) by (simp add: in_cksum_eq total_small)
qed

theorem in_cksum_verifies_witness:
  "in_cksum [8, 0, 0xf0, 0xff, 0, 0, 0, 0, 7] (int (length [8, 0, 0xf0, 0xff, 0, 0, 0, 0, 7 :: u8])) = Some 0"
proof (rule in_cksum_verifies [where p = 2 and bs = "[8, 0, 0, 0, 0, 0, 0, 0, 7]" and c = "0xfff0"])
  show "load16 [8, 0, 0, 0, 0, 0, 0, 0, 7] 2 = Some 0" by code_simp
  show "in_cksum [8, 0, 0, 0, 0, 0, 0, 0, 7] (int (length [8, 0, 0, 0, 0, 0, 0, 0, 7 :: u8])) = Some 0xfff0"
    by code_simp
  show "store16 [8, 0, 0, 0, 0, 0, 0, 0, 7] 2 0xfff0 = Some [8, 0, 0xf0, 0xff, 0, 0, 0, 0, 7]"
    by code_simp
qed simp_all

text \<open>
  A change of one 16-bit word is detected, but for the exchange of the two
  representations of zero.
\<close>

theorem in_cksum_detects:
  assumes "even p" and "length bs \<le> 65537" and "load16 bs p = Some old" and "store16 bs p v = Some bs'"
    and "v \<noteq> old" and "{v, old} \<noteq> {0, 0xffff}"
  shows "in_cksum bs' (int (length bs')) \<noteq> in_cksum bs (int (length bs))"
  using rfc1071_detects [OF assms(1,3-6)] total_store16(2) [OF assms(1,3,4)] assms(2)
  by (simp add: in_cksum_eq total_small)

theorem in_cksum_detects_witness:
  "in_cksum [8, 0, 1, 2, 9] (int (length [8, 0, 1, 2, 9 :: u8])) \<noteq>
   in_cksum [8, 0, 0, 0, 9] (int (length [8, 0, 0, 0, 9 :: u8]))"
proof (rule in_cksum_detects [where p = 2 and v = "0x201" and old = 0])
  show "load16 [8, 0, 0, 0, 9] 2 = Some 0" by code_simp
  show "store16 [8, 0, 0, 0, 9] 2 0x201 = Some [8, 0, 1, 2, 9]" by code_simp
  show "{0x201, 0} \<noteq> {0, 0xffff :: u16}" by (simp add: doubleton_eq_iff)
qed simp_all

end
