(* ===== verification/Headers.thy ===== *)
theory Headers imports Checksum
begin

text \<open>
  The packet headers of \<open>packetSpoofing/myheader.h\<close> as records, laid over byte buffers the way
  the C structs are: little-endian fields, bit-fields from the low end, no padding. A pointer
  \<open>struct H *h = buffer + off\<close> is the offset; reading a field through it decodes the bytes
  there, assigning one decodes, updates and encodes them. The interface \<open>layout\<close> is what
  every header's encoder and decoder promise.
\<close>

section \<open>Bytes and byte order\<close>

definition bytes16 :: "u16 \<Rightarrow> u8 list" where
  "bytes16 w = [lo8 w, hi8 w]"

definition le32 :: "u8 \<Rightarrow> u8 \<Rightarrow> u8 \<Rightarrow> u8 \<Rightarrow> u32" where
  "le32 a b c d = word_cat (le16 c d) (le16 a b)"

definition bytes32 :: "u32 \<Rightarrow> u8 list" where
  "bytes32 w = bytes16 (ucast w) @ bytes16 (ucast (drop_bit 16 w))"

text \<open>\<open>ntohs\<close> and \<open>htons\<close> exchange the bytes on a little-endian host, \<open>htonl\<close> reverses them.\<close>

definition htons :: "u16 \<Rightarrow> u16" where
  "htons w = le16 (hi8 w) (lo8 w)"

abbreviation (input) ntohs :: "u16 \<Rightarrow> u16" where "ntohs \<equiv> htons"

definition htonl :: "u32 \<Rightarrow> u32" where
  "htonl w = (case bytes32 w of [a, b, c, d] \<Rightarrow> le32 d c b a | _ \<Rightarrow> 0)"

lemma htons_htons [simp]: "htons (htons w) = w"
  by (simp add: htons_def)

lemma le32_bytes [simp]:
  "le32 (lo8 (ucast w)) (hi8 (ucast w)) (lo8 (ucast (drop_bit 16 w))) (hi8 (ucast (drop_bit 16 w))) = w"
  unfolding le32_def le16_parts by (rule bit_word_eqI) (auto simp: bit_simps)

lemma bytes32_le32 [simp]: "bytes32 (le32 a b c d) = [a, b, c, d]"
proof -
  have "ucast (le32 a b c d) = le16 a b" "ucast (drop_bit 16 (le32 a b c d)) = le16 c d"
    unfolding le32_def by (rule bit_word_eqI; auto simp: bit_simps)+
  then show ?thesis by (simp add: bytes32_def bytes16_def)
qed

lemma bytes16_le16 [simp]: "bytes16 (le16 a b) = [a, b]"
  by (simp add: bytes16_def)

text \<open>Six bytes of a hardware address.\<close>

definition le48 :: "u8 list \<Rightarrow> 48 word" where
  "le48 bs = word_cat (le32 (bs ! 2) (bs ! 3) (bs ! 4) (bs ! 5)) (le16 (bs ! 0) (bs ! 1))"

definition bytes48 :: "48 word \<Rightarrow> u8 list" where
  "bytes48 w = bytes16 (ucast w) @ bytes32 (ucast (drop_bit 16 w))"

lemma bytes48_le48: "length bs = 6 \<Longrightarrow> bytes48 (le48 bs) = bs"
proof -
  assume "length bs = 6"
  then obtain a b c d e f where bs: "bs = [a, b, c, d, e, f]"
    by (auto simp: length_Suc_conv numeral_eq_Suc)
  have "ucast (le48 bs) = le16 a b" "ucast (drop_bit 16 (le48 bs)) = le32 c d e f"
    unfolding le48_def bs by (rule bit_word_eqI; auto simp: bit_simps)+
  then show ?thesis by (simp add: bytes48_def bs)
qed

lemma length_bytes48 [simp]: "length (bytes48 w) = 6"
  by (simp add: bytes48_def bytes16_def bytes32_def)

lemma le48_bytes48 [simp]: "le48 (bytes48 w @ r) = w"
proof -
  have "le48 (bytes48 w @ r) = word_cat (ucast (drop_bit 16 w) :: u32) (ucast w :: u16)"
    by (simp add: le48_def bytes48_def bytes16_def bytes32_def)
  also have "\<dots> = w" by (rule bit_word_eqI) (auto simp: bit_simps)
  finally show ?thesis .
qed

section \<open>Structs over buffers\<close>

definition get_at :: "nat \<Rightarrow> (u8 list \<Rightarrow> 'h) \<Rightarrow> u8 list \<Rightarrow> nat \<Rightarrow> 'h option" where
  "get_at n dec buf off = (if off + n \<le> length buf then Some (dec (take n (drop off buf))) else None)"

definition upd_at ::
  "nat \<Rightarrow> (u8 list \<Rightarrow> 'h) \<Rightarrow> ('h \<Rightarrow> u8 list) \<Rightarrow> u8 list \<Rightarrow> nat \<Rightarrow> ('h \<Rightarrow> 'h) \<Rightarrow> u8 list option" where
  "upd_at n dec enc buf off f = do { h \<leftarrow> get_at n dec buf off; blit buf off (enc (f h)) }"

locale layout =
  fixes size :: nat and dec :: "u8 list \<Rightarrow> 'h" and enc :: "'h \<Rightarrow> u8 list"
  assumes length_enc: "length (enc h) = size"
    and dec_enc: "dec (enc h) = h"
    and enc_dec: "length bs = size \<Longrightarrow> enc (dec bs) = bs"
begin

lemma upd_defined:
  "(\<exists>buf'. upd_at size dec enc buf off f = Some buf') \<longleftrightarrow> off + size \<le> length buf"
  by (simp add: upd_at_def get_at_def blit_def length_enc)

lemma upd_length: "upd_at size dec enc buf off f = Some buf' \<Longrightarrow> length buf' = length buf"
  by (auto simp: upd_at_def get_at_def length_blit split: if_splits bind_splits)

lemma get_upd:
  assumes "upd_at size dec enc buf off f = Some buf'"
  shows "get_at size dec buf' off = map_option f (get_at size dec buf off)"
proof -
  from assms have l: "off + size \<le> length buf" using upd_defined by blast
  with assms have b: "blit buf off (enc (f (dec (take size (drop off buf))))) = Some buf'"
    by (simp add: upd_at_def get_at_def)
  with l show ?thesis
    using blit_slice [OF b] length_blit [OF b] by (simp add: get_at_def length_enc dec_enc)
qed

lemma upd_other:
  assumes "upd_at size dec enc buf off f = Some buf'" and "i < off \<or> off + size \<le> i"
  shows "load buf' i = load buf i"
proof -
  from assms(1) have l: "off + size \<le> length buf" using upd_defined by blast
  with assms(1) have b: "blit buf off (enc (f (dec (take size (drop off buf))))) = Some buf'"
    by (simp add: upd_at_def get_at_def)
  with assms(2) show ?thesis
    using length_blit [OF b] blit_nth [OF b] by (auto simp: load_def length_enc)
qed

lemma upd_same: "get_at size dec buf off = Some h \<Longrightarrow> upd_at size dec enc buf off (\<lambda>_. h) = Some buf"
  by (auto simp: upd_at_def get_at_def blit_def length_enc enc_dec split: if_splits)
    (metis add.commute append_take_drop_id drop_drop)

end

section \<open>The headers\<close>

record ethheader =
  ether_dhost :: "48 word"
  ether_shost :: "48 word"
  ether_type :: u16

record ipheader =
  iph_ihl :: "4 word"
  iph_ver :: "4 word"
  iph_tos :: u8
  iph_len :: u16
  iph_ident :: u16
  iph_flag :: "3 word"
  iph_offset :: "13 word"
  iph_ttl :: u8
  iph_protocol :: u8
  iph_chksum :: u16
  iph_sourceip :: u32
  iph_destip :: u32

record icmpheader =
  icmp_type :: u8
  icmp_code :: u8
  icmp_chksum :: u16
  icmp_id :: u16
  icmp_seq :: u16

record udpheader =
  udp_sport :: u16
  udp_dport :: u16
  udp_ulen :: u16
  udp_sum :: u16

record tcpheader =
  tcp_sport :: u16
  tcp_dport :: u16
  tcp_seq :: u32
  tcp_ack :: u32
  tcp_offx2 :: u8
  tcp_flags :: u8
  tcp_win :: u16
  tcp_sum :: u16
  tcp_urp :: u16

section \<open>Their layouts\<close>

abbreviation (input) sizeof_eth :: nat where "sizeof_eth \<equiv> 14"
abbreviation (input) sizeof_ip :: nat where "sizeof_ip \<equiv> 20"
abbreviation (input) sizeof_icmp :: nat where "sizeof_icmp \<equiv> 8"
abbreviation (input) sizeof_udp :: nat where "sizeof_udp \<equiv> 8"
abbreviation (input) sizeof_tcp :: nat where "sizeof_tcp \<equiv> 20"

definition dec_eth :: "u8 list \<Rightarrow> ethheader" where
  "dec_eth b = \<lparr>ether_dhost = le48 b, ether_shost = le48 (drop 6 b), ether_type = le16 (b ! 12) (b ! 13)\<rparr>"

definition enc_eth :: "ethheader \<Rightarrow> u8 list" where
  "enc_eth h = bytes48 (ether_dhost h) @ bytes48 (ether_shost h) @ bytes16 (ether_type h)"

definition dec_ip :: "u8 list \<Rightarrow> ipheader" where
  "dec_ip b = \<lparr>
     iph_ihl = ucast (b ! 0), iph_ver = ucast (drop_bit 4 (b ! 0)),
     iph_tos = b ! 1, iph_len = le16 (b ! 2) (b ! 3), iph_ident = le16 (b ! 4) (b ! 5),
     iph_flag = ucast (le16 (b ! 6) (b ! 7)), iph_offset = ucast (drop_bit 3 (le16 (b ! 6) (b ! 7))),
     iph_ttl = b ! 8, iph_protocol = b ! 9, iph_chksum = le16 (b ! 10) (b ! 11),
     iph_sourceip = le32 (b ! 12) (b ! 13) (b ! 14) (b ! 15),
     iph_destip = le32 (b ! 16) (b ! 17) (b ! 18) (b ! 19)\<rparr>"

definition enc_ip :: "ipheader \<Rightarrow> u8 list" where
  "enc_ip h = [word_cat (iph_ver h) (iph_ihl h), iph_tos h] @ bytes16 (iph_len h) @
     bytes16 (iph_ident h) @ bytes16 (word_cat (iph_offset h) (iph_flag h)) @
     [iph_ttl h, iph_protocol h] @ bytes16 (iph_chksum h) @
     bytes32 (iph_sourceip h) @ bytes32 (iph_destip h)"

definition dec_icmp :: "u8 list \<Rightarrow> icmpheader" where
  "dec_icmp b = \<lparr>icmp_type = b ! 0, icmp_code = b ! 1, icmp_chksum = le16 (b ! 2) (b ! 3),
     icmp_id = le16 (b ! 4) (b ! 5), icmp_seq = le16 (b ! 6) (b ! 7)\<rparr>"

definition enc_icmp :: "icmpheader \<Rightarrow> u8 list" where
  "enc_icmp h = [icmp_type h, icmp_code h] @ bytes16 (icmp_chksum h) @ bytes16 (icmp_id h) @
     bytes16 (icmp_seq h)"

definition dec_udp :: "u8 list \<Rightarrow> udpheader" where
  "dec_udp b = \<lparr>udp_sport = le16 (b ! 0) (b ! 1), udp_dport = le16 (b ! 2) (b ! 3),
     udp_ulen = le16 (b ! 4) (b ! 5), udp_sum = le16 (b ! 6) (b ! 7)\<rparr>"

definition enc_udp :: "udpheader \<Rightarrow> u8 list" where
  "enc_udp h = bytes16 (udp_sport h) @ bytes16 (udp_dport h) @ bytes16 (udp_ulen h) @ bytes16 (udp_sum h)"

definition dec_tcp :: "u8 list \<Rightarrow> tcpheader" where
  "dec_tcp b = \<lparr>tcp_sport = le16 (b ! 0) (b ! 1), tcp_dport = le16 (b ! 2) (b ! 3),
     tcp_seq = le32 (b ! 4) (b ! 5) (b ! 6) (b ! 7), tcp_ack = le32 (b ! 8) (b ! 9) (b ! 10) (b ! 11),
     tcp_offx2 = b ! 12, tcp_flags = b ! 13, tcp_win = le16 (b ! 14) (b ! 15),
     tcp_sum = le16 (b ! 16) (b ! 17), tcp_urp = le16 (b ! 18) (b ! 19)\<rparr>"

definition enc_tcp :: "tcpheader \<Rightarrow> u8 list" where
  "enc_tcp h = bytes16 (tcp_sport h) @ bytes16 (tcp_dport h) @ bytes32 (tcp_seq h) @
     bytes32 (tcp_ack h) @ [tcp_offx2 h, tcp_flags h] @ bytes16 (tcp_win h) @
     bytes16 (tcp_sum h) @ bytes16 (tcp_urp h)"

text \<open>\<open>TH_OFF\<close>, the data offset in 32-bit words.\<close>

definition TH_OFF :: "tcpheader \<Rightarrow> u8" where
  "TH_OFF th = drop_bit 4 (tcp_offx2 th AND 0xf0)"

definition TH_FLAGS :: u8 where
  "TH_FLAGS = 0x01 OR 0x02 OR 0x04 OR 0x10 OR 0x20 OR 0x40 OR 0x80"

lemma nibbles:
  "ucast (word_cat v i :: u8) = (i :: 4 word)" "ucast (drop_bit 4 (word_cat v i :: u8)) = (v :: 4 word)"
  "word_cat (ucast (drop_bit 4 b) :: 4 word) (ucast b :: 4 word) = (b :: u8)"
  by (rule bit_word_eqI; auto simp: bit_simps)+

lemma flag_bits:
  "ucast (word_cat off fl :: u16) = (fl :: 3 word)" "ucast (drop_bit 3 (word_cat off fl :: u16)) = (off :: 13 word)"
  "word_cat (ucast (drop_bit 3 w) :: 13 word) (ucast w :: 3 word) = (w :: u16)"
  by (rule bit_word_eqI; auto simp: bit_simps)+

lemmas header_defs = dec_eth_def enc_eth_def dec_ip_def enc_ip_def dec_icmp_def enc_icmp_def
  dec_udp_def enc_udp_def dec_tcp_def enc_tcp_def

interpretation ip_l: layout sizeof_ip dec_ip enc_ip
proof unfold_locales
  show "length (enc_ip h) = 20" for h by (simp add: enc_ip_def bytes16_def bytes32_def)
  show "dec_ip (enc_ip h) = h" for h
    by (simp add: header_defs bytes16_def bytes32_def nibbles flag_bits)
  show "enc_ip (dec_ip bs) = bs" if l: "length bs = 20" for bs
  proof -
    from l obtain a b c d e f g h i j k l m n p q r s t u where
      "bs = [a, b, c, d, e, f, g, h, i, j, k, l, m, n, p, q, r, s, t, u]"
      by (auto simp: length_Suc_conv numeral_eq_Suc)
    then show ?thesis by (simp add: header_defs nibbles flag_bits)
  qed
qed

interpretation eth_l: layout sizeof_eth dec_eth enc_eth
proof unfold_locales
  show "length (enc_eth h) = 14" for h by (simp add: enc_eth_def bytes16_def)
  show "dec_eth (enc_eth h) = h" for h
    by (simp add: header_defs nth_append bytes16_def)
  show "enc_eth (dec_eth bs) = bs" if l: "length bs = 14" for bs
  proof -
    have "le48 bs = le48 (take 6 bs)" "le48 (drop 6 bs) = le48 (take 6 (drop 6 bs))"
      using l by (simp_all add: le48_def)
    moreover have "take 6 bs @ take 6 (drop 6 bs) @ [bs ! 12, bs ! 13] = bs"
      using l by (auto simp: length_Suc_conv numeral_eq_Suc)
    ultimately show ?thesis using l by (simp add: header_defs bytes48_le48)
  qed
qed

interpretation icmp_l: layout sizeof_icmp dec_icmp enc_icmp
  by unfold_locales
    (auto simp: header_defs length_Suc_conv numeral_eq_Suc bytes16_def le16_parts)

interpretation udp_l: layout sizeof_udp dec_udp enc_udp
  by unfold_locales
    (auto simp: header_defs length_Suc_conv numeral_eq_Suc bytes16_def)

interpretation tcp_l: layout sizeof_tcp dec_tcp enc_tcp
proof unfold_locales
  show "length (enc_tcp h) = 20" for h by (simp add: enc_tcp_def bytes16_def bytes32_def)
  show "dec_tcp (enc_tcp h) = h" for h
    by (simp add: header_defs bytes16_def bytes32_def)
  show "enc_tcp (dec_tcp bs) = bs" if "length bs = 20" for bs
    using that by (auto simp: length_Suc_conv numeral_eq_Suc header_defs)
qed

section \<open>Properties\<close>

text \<open>
  Every header's encoder and decoder are inverse, so the bytes a program assembles through
  struct assignments are read back as the same fields.
\<close>

theorem header_layouts:
  "dec_eth (enc_eth e) = e \<and> dec_ip (enc_ip i) = i \<and> dec_icmp (enc_icmp c) = c \<and>
   dec_udp (enc_udp u) = u \<and> dec_tcp (enc_tcp t) = t \<and>
   map length [enc_eth e, enc_ip i, enc_icmp c, enc_udp u, enc_tcp t] = [14, 20, 8, 8, 20]"
  using eth_l.dec_enc ip_l.dec_enc icmp_l.dec_enc udp_l.dec_enc tcp_l.dec_enc
    eth_l.length_enc ip_l.length_enc icmp_l.length_enc udp_l.length_enc tcp_l.length_enc
  by simp

end
