(* ===== verification/Spoof.thy ===== *)
theory Spoof imports Headers
begin

text \<open>
  The packet builders of \<open>packetSpoofing\<close>: the raw-socket sender, the TCP checksum over the
  pseudo header, the three spoofing programs and the sniff-and-reply handler. A program is
  the list of calls it makes on the kernel, or \<open>None\<close> where it reads or writes outside a buffer.
\<close>

section \<open>Addresses and strings\<close>

text \<open>\<open>inet_addr\<close> on a dotted quad; the result is in network order, as it lies in memory.\<close>

fun quad :: "nat list \<Rightarrow> nat \<Rightarrow> string \<Rightarrow> nat list" where
  "quad ns n [] = ns @ [n]"
| "quad ns n (c # cs) =
     (if c = CHR ''.'' then quad (ns @ [n]) 0 cs
      else quad ns (10 * n + (of_char c - 48)) cs)"

definition inet_addr :: "string \<Rightarrow> u32" where
  "inet_addr s = (case quad [] 0 s of
     [a, b, c, d] \<Rightarrow> le32 (of_nat a) (of_nat b) (of_nat c) (of_nat d) | _ \<Rightarrow> 0xffffffff)"

definition char_bytes :: "string \<Rightarrow> u8 list" where
  "char_bytes s = map of_char s"

section \<open>\<open>send_raw_ip_packet\<close>\<close>

datatype rawcall =
    RawSocket
  | HdrIncl int
  | SendTo int u32 "u8 list"
  | CloseSock int

text \<open>\<open>sock\<close> is what \<open>socket\<close> returned; no call's result is checked.\<close>

definition send_raw_ip_packet :: "int \<Rightarrow> u8 list \<Rightarrow> rawcall list option" where
  "send_raw_ip_packet sock buf = do {
     ip \<leftarrow> get_at sizeof_ip dec_ip buf 0;
     let len = unat (ntohs (iph_len ip));
     if len \<le> length buf then
       Some [RawSocket, HdrIncl sock, SendTo sock (iph_destip ip) (take len buf), CloseSock sock]
     else None }"

section \<open>\<open>calculate_tcp_checksum\<close>\<close>

abbreviation (input) sizeof_pseudo_tcp :: nat where "sizeof_pseudo_tcp \<equiv> 1532"

text \<open>
  \<open>buf\<close> is the object \<open>ip\<close> points to. \<open>tcp_len\<close> is negative when the length field is below 20,
  and \<open>memcpy\<close> then copies a length near \<open>2^64\<close>.
\<close>

definition pseudo_header :: "ipheader \<Rightarrow> int \<Rightarrow> u8 list option" where
  "pseudo_header ip tcp_len = do {
     let p = replicate sizeof_pseudo_tcp 0;
     p \<leftarrow> blit p 0 (bytes32 (iph_sourceip ip));
     p \<leftarrow> blit p 4 (bytes32 (iph_destip ip));
     p \<leftarrow> blit p 8 [0];
     p \<leftarrow> blit p 9 [6];
     blit p 10 (bytes16 (htons (word_of_int tcp_len))) }"

definition calculate_tcp_checksum :: "u8 list \<Rightarrow> u16 option" where
  "calculate_tcp_checksum buf = do {
     ip \<leftarrow> get_at sizeof_ip dec_ip buf 0;
     let tcp_len = uint (ntohs (iph_len ip)) - int sizeof_ip;
     p \<leftarrow> pseudo_header ip tcp_len;
     if tcp_len < 0 \<or> int (length buf) < int sizeof_ip + tcp_len then None
     else do {
       p \<leftarrow> blit p 12 (take (nat tcp_len) (drop sizeof_ip buf));
       in_cksum p (tcp_len + 12) } }"

section \<open>The spoofing programs\<close>

definition spoof_udp_main :: "int \<Rightarrow> rawcall list option" where
  "spoof_udp_main sock = do {
     let buffer = replicate 1500 0;
     let msg = char_bytes (''Hello Server!'' @ [CHR 0x0A]);
     let data_len = length msg;
     buffer \<leftarrow> blit buffer (sizeof_ip + sizeof_udp) msg;
     buffer \<leftarrow> upd_at sizeof_udp dec_udp enc_udp buffer sizeof_ip (\<lambda>udp. udp\<lparr>
        udp_sport := htons 12345, udp_dport := htons 8081,
        udp_ulen := htons (of_nat (sizeof_udp + data_len)), udp_sum := 0\<rparr>);
     buffer \<leftarrow> upd_at sizeof_ip dec_ip enc_ip buffer 0 (\<lambda>ip. ip\<lparr>
        iph_ver := 4, iph_ihl := 5, iph_ttl := 20,
        iph_sourceip := inet_addr ''10.128.0.4'', iph_destip := inet_addr ''10.128.0.2'',
        iph_protocol := 17,
        iph_len := htons (of_nat (sizeof_ip + sizeof_udp + data_len))\<rparr>);
     send_raw_ip_packet sock buffer }"

definition spoof_icmp_main :: "int \<Rightarrow> rawcall list option" where
  "spoof_icmp_main sock = do {
     let buffer = replicate 1500 0;
     buffer \<leftarrow> upd_at sizeof_icmp dec_icmp enc_icmp buffer sizeof_ip (\<lambda>icmp. icmp\<lparr>icmp_type := 8\<rparr>);
     buffer \<leftarrow> upd_at sizeof_icmp dec_icmp enc_icmp buffer sizeof_ip (\<lambda>icmp. icmp\<lparr>icmp_chksum := 0\<rparr>);
     ck \<leftarrow> in_cksum (drop sizeof_ip buffer) (int sizeof_icmp);
     buffer \<leftarrow> upd_at sizeof_icmp dec_icmp enc_icmp buffer sizeof_ip (\<lambda>icmp. icmp\<lparr>icmp_chksum := ck\<rparr>);
     buffer \<leftarrow> upd_at sizeof_ip dec_ip enc_ip buffer 0 (\<lambda>ip. ip\<lparr>
        iph_ver := 4, iph_ihl := 5, iph_ttl := 20,
        iph_sourceip := inet_addr ''1.2.3.4'', iph_destip := inet_addr ''10.9.0.5'',
        iph_protocol := 1, iph_len := htons (of_nat (sizeof_ip + sizeof_icmp))\<rparr>);
     send_raw_ip_packet sock buffer }"

definition spoof_tcp_main :: "int \<Rightarrow> rawcall list option" where
  "spoof_tcp_main sock = do {
     let buffer = replicate 2000 0;
     let msg = char_bytes ''Hello Server!'';
     let data_len = length msg;
     buffer \<leftarrow> blit buffer (sizeof_ip + sizeof_tcp) msg;
     buffer \<leftarrow> upd_at sizeof_tcp dec_tcp enc_tcp buffer sizeof_ip (\<lambda>tcp. tcp\<lparr>
        tcp_sport := htons 42433, tcp_dport := htons 9090, tcp_seq := htonl 3092566627,
        tcp_offx2 := 0x50, tcp_flags := 0x00, tcp_win := htons 20000, tcp_sum := 0\<rparr>);
     buffer \<leftarrow> upd_at sizeof_ip dec_ip enc_ip buffer 0 (\<lambda>ip. ip\<lparr>
        iph_ver := 4, iph_ihl := 5, iph_ttl := 20,
        iph_sourceip := inet_addr ''1.2.3.4'', iph_destip := inet_addr ''10.9.0.5'',
        iph_protocol := 6,
        iph_len := htons (of_nat (sizeof_ip + sizeof_tcp + data_len))\<rparr>);
     ck \<leftarrow> calculate_tcp_checksum buffer;
     buffer \<leftarrow> upd_at sizeof_tcp dec_tcp enc_tcp buffer sizeof_ip (\<lambda>tcp. tcp\<lparr>tcp_sum := ck\<rparr>);
     send_raw_ip_packet sock buffer }"

section \<open>\<open>sniff_spoof_udp.c\<close>\<close>

text \<open>
  \<open>pkt\<close> is the captured packet from its IP header on. The result is the calls made, none for a
  packet to another port.
\<close>

definition reply_payload :: "u8 list" where
  "reply_payload = char_bytes (''This is a spoofed reply!'' @ [CHR 0x0A])"

definition spoof_reply_udp :: "int \<Rightarrow> u8 list \<Rightarrow> rawcall list option" where
  "spoof_reply_udp sock pkt = do {
     ip \<leftarrow> get_at sizeof_ip dec_ip pkt 0;
     let ip_header_len = unat (iph_ihl ip) * 4;
     udp \<leftarrow> get_at sizeof_udp dec_udp pkt ip_header_len;
     if ntohs (udp_dport udp) \<noteq> 9999 then Some []
     else do {
       let buffer = replicate 1500 0;
       let n = unat (ntohs (iph_len ip));
       if length pkt < n then None
       else do {
         buffer \<leftarrow> blit buffer 0 (take n pkt);
         let data_len = length reply_payload;
         buffer \<leftarrow> blit buffer (ip_header_len + sizeof_udp) reply_payload;
         buffer \<leftarrow> upd_at sizeof_udp dec_udp enc_udp buffer ip_header_len (\<lambda>newudp. newudp\<lparr>
            udp_sport := udp_dport udp, udp_dport := udp_sport udp,
            udp_ulen := htons (of_nat (sizeof_udp + data_len)), udp_sum := 0\<rparr>);
         buffer \<leftarrow> upd_at sizeof_ip dec_ip enc_ip buffer 0 (\<lambda>newip. newip\<lparr>
            iph_sourceip := iph_destip ip, iph_destip := iph_sourceip ip, iph_ttl := 50,
            iph_len := htons (of_nat (sizeof_ip + sizeof_udp + data_len))\<rparr>);
         send_raw_ip_packet sock buffer } } }"

datatype protocol = TCP | UDP | ICMP | Others

definition protocol_of :: "ipheader \<Rightarrow> protocol" where
  "protocol_of ip = (if iph_protocol ip = 6 then TCP else if iph_protocol ip = 17 then UDP
     else if iph_protocol ip = 1 then ICMP else Others)"

definition got_packet :: "int \<Rightarrow> u8 list \<Rightarrow> rawcall list option" where
  "got_packet sock packet = do {
     eth \<leftarrow> get_at sizeof_eth dec_eth packet 0;
     if ntohs (ether_type eth) = 0x0800 then do {
       ip \<leftarrow> get_at sizeof_ip dec_ip packet sizeof_eth;
       case protocol_of ip of
         TCP \<Rightarrow> Some []
       | UDP \<Rightarrow> spoof_reply_udp sock (drop sizeof_eth packet)
       | ICMP \<Rightarrow> Some []
       | Others \<Rightarrow> Some [] }
     else Some [] }"

section \<open>Storing the TCP checksum\<close>

lemma pseudo_header_eq:
  "pseudo_header ip l = Some (bytes32 (iph_sourceip ip) @ bytes32 (iph_destip ip) @ [0, 6] @
     bytes16 (htons (word_of_int l)) @ replicate 1520 0)"
  by (simp add: pseudo_header_def blit_def bytes32_def bytes16_def)

definition pseudo_bytes :: "ipheader \<Rightarrow> u8 list" where
  "pseudo_bytes ip = bytes32 (iph_sourceip ip) @ bytes32 (iph_destip ip) @ [0, 6] @
     bytes16 (htons (word_of_int (uint (ntohs (iph_len ip)) - 20)))"

lemma length_pseudo_bytes [simp]: "length (pseudo_bytes ip) = 12"
  by (simp add: pseudo_bytes_def bytes32_def bytes16_def)

lemma tcp_checksum_eq:
  assumes "get_at 20 dec_ip buf 0 = Some ip"
  shows "calculate_tcp_checksum buf =
    (if 20 \<le> unat (ntohs (iph_len ip)) \<and> unat (ntohs (iph_len ip)) \<le> min 1540 (length buf)
     then Some (rfc1071 (pseudo_bytes ip @ take (unat (ntohs (iph_len ip)) - 20) (drop 20 buf)))
     else None)"
proof -
  define n where "n = unat (ntohs (iph_len ip))"
  have u: "uint (ntohs (iph_len ip)) = int n" by (simp add: n_def)
  have ph: "pseudo_header ip (int n - 20) = Some (pseudo_bytes ip @ replicate 1520 0)"
    by (simp add: pseudo_header_eq pseudo_bytes_def flip: u)
  have small: "in_cksum (pseudo_bytes ip @ take (n - 20) (drop 20 buf) @ replicate k 0) (int n - 20 + 12) =
      Some (rfc1071 (pseudo_bytes ip @ take (n - 20) (drop 20 buf)))"
    if "20 \<le> n" "n \<le> length buf" "n \<le> 1540" for k
  proof -
    have "nat (int n - 20 + 12) = n - 8" using that by simp
    then show ?thesis using that by (simp add: in_cksum_eq total_small)
  qed
  let ?p = "pseudo_bytes ip @ replicate 1520 0"
  have calc: "calculate_tcp_checksum buf =
      (if int n - 20 < 0 \<or> int (length buf) < 20 + (int n - 20) then None
       else do { p \<leftarrow> blit ?p 12 (take (nat (int n - 20)) (drop 20 buf)); in_cksum p (int n - 20 + 12) })"
    using assms by (simp only: calculate_tcp_checksum_def u Let_def bind.bind_lunit ph of_nat_numeral)
  show ?thesis
  proof (cases "20 \<le> n \<and> n \<le> length buf")
    case False
    then show ?thesis unfolding calc n_def [symmetric] by auto
  next
    case True
    then have d: "nat (int n - 20) = n - 20" by simp
    have b: "blit ?p 12 (take (n - 20) (drop 20 buf)) =
        (if n \<le> 1540 then Some (pseudo_bytes ip @ take (n - 20) (drop 20 buf) @ replicate (1540 - n) 0) else None)"
      using True by (auto simp: blit_def)
    show ?thesis
      using True small [of "1540 - n"] unfolding calc n_def [symmetric] d b by auto
  qed
qed

lemma enc_tcp_sum:
  assumes "length bs = 20"
  shows "enc_tcp ((dec_tcp bs)\<lparr>tcp_sum := c\<rparr>) = bs[16 := lo8 c, 17 := hi8 c]"
proof -
  from assms obtain a b c' d e f g h i j k l m n p q r s t u where
    "bs = [a, b, c', d, e, f, g, h, i, j, k, l, m, n, p, q, r, s, t, u]"
    by (auto simp: length_Suc_conv numeral_eq_Suc)
  then show ?thesis by (simp add: header_defs bytes16_def)
qed

lemma upd_tcp_sum:
  assumes "upd_at 20 dec_tcp enc_tcp buf 20 (\<lambda>tcp. tcp\<lparr>tcp_sum := c\<rparr>) = Some buf'"
  shows "40 \<le> length buf" and "buf' = buf[36 := lo8 c, 37 := hi8 c]"
proof -
  show l: "40 \<le> length buf" using assms
    by (auto simp: upd_at_def get_at_def split: if_splits bind_splits)
  let ?seg = "take 20 (drop 20 buf)"
  have "enc_tcp ((dec_tcp ?seg)\<lparr>tcp_sum := c\<rparr>) = ?seg[16 := lo8 c, 17 := hi8 c]"
    using l by (intro enc_tcp_sum) simp
  with assms l have "buf' = take 20 buf @ ?seg[16 := lo8 c, 17 := hi8 c] @ drop 40 buf"
    by (simp add: upd_at_def get_at_def blit_def)
  also have "\<dots> = (take 20 buf @ ?seg @ drop 40 buf)[36 := lo8 c, 37 := hi8 c]"
    using l by (simp add: list_update_append)
  also have "drop 40 buf = drop 20 (drop 20 buf)" by simp
  also have "take 20 buf @ ?seg @ drop 20 (drop 20 buf) = buf" by (simp only: append_take_drop_id)
  finally show "buf' = buf[36 := lo8 c, 37 := hi8 c]" .
qed

lemma udp_assigned:
  "r\<lparr>udp_sport := a, udp_dport := b, udp_ulen := c, udp_sum := d\<rparr> =
    \<lparr>udp_sport = a, udp_dport = b, udp_ulen = c, udp_sum = d\<rparr>"
  by (cases r) simp

section \<open>Properties\<close>

text \<open>
  \<open>calculate_tcp_checksum\<close> stays inside its \<open>struct pseudo_tcp\<close> exactly for packets whose
  length field lies between 20 and 1540 and within the buffer; a shorter length makes
  \<open>memcpy\<close>'s size wrap, a longer one writes past \<open>p_tcp\<close>.
\<close>

theorem tcp_checksum_domain:
  assumes "get_at 20 dec_ip buf 0 = Some ip"
  shows "(calculate_tcp_checksum buf \<noteq> None) =
    (20 \<le> unat (ntohs (iph_len ip)) \<and> unat (ntohs (iph_len ip)) \<le> 1540 \<and>
     unat (ntohs (iph_len ip)) \<le> length buf)"
  using tcp_checksum_eq [OF assms] by simp

definition syn_packet :: "u8 list" where
  "syn_packet = [69, 0, 0, 40, 0, 0, 0, 0, 20, 6, 0, 0, 1, 2, 3, 4, 10, 9, 0, 5,
     165, 193, 35, 130, 184, 84, 210, 99, 0, 0, 0, 0, 80, 2, 78, 32, 0, 0, 0, 0]"

theorem tcp_checksum_domain_witness:
  "(calculate_tcp_checksum syn_packet \<noteq> None) =
    (20 \<le> unat (ntohs (iph_len (dec_ip (take 20 syn_packet)))) \<and>
     unat (ntohs (iph_len (dec_ip (take 20 syn_packet)))) \<le> 1540 \<and>
     unat (ntohs (iph_len (dec_ip (take 20 syn_packet)))) \<le> length syn_packet)"
  by (rule tcp_checksum_domain) (simp add: get_at_def syn_packet_def)

text \<open>
  The checksum that \<open>calculate_tcp_checksum\<close> returns for a segment with a zeroed checksum
  field is the right one: stored in the field, it makes the checksum over pseudo header and
  segment 0.
\<close>

theorem tcp_checksum_verifies:
  assumes ip: "get_at 20 dec_ip buf 0 = Some ip" and len: "40 \<le> unat (ntohs (iph_len ip))"
    and tcp: "get_at 20 dec_tcp buf 20 = Some tcp" and zero: "tcp_sum tcp = 0"
    and ck: "calculate_tcp_checksum buf = Some ck"
    and st: "upd_at 20 dec_tcp enc_tcp buf 20 (\<lambda>tcp. tcp\<lparr>tcp_sum := ck\<rparr>) = Some buf'"
  shows "calculate_tcp_checksum buf' = Some 0"
proof -
  define n where "n = unat (ntohs (iph_len ip))"
  let ?bs = "pseudo_bytes ip @ take (n - 20) (drop 20 buf)"
  let ?bs' = "pseudo_bytes ip @ take (n - 20) (drop 20 buf')"
  have buf': "buf' = buf[36 := lo8 ck, 37 := hi8 ck]" by (rule upd_tcp_sum(2) [OF st])
  from ck tcp_checksum_eq [OF ip] have n: "n \<le> length buf" "n \<le> 1540" "ck = rfc1071 ?bs"
    by (auto simp: n_def split: if_splits)
  have n40: "40 \<le> n" using len by (simp add: n_def)
  have ip': "get_at 20 dec_ip buf' 0 = Some ip"
    using ip by (simp add: get_at_def buf' split: if_splits)
  have "le16 (buf ! 36) (buf ! 37) = 0"
    using tcp zero n n40 by (auto simp: get_at_def dec_tcp_def split: if_splits)
  then have ld: "load16 ?bs 28 = Some 0"
    using n n40 by (simp add: load16_def nth_append)
  have "store16 ?bs 28 (rfc1071 ?bs) = Some ?bs'"
    using n n40 by (simp add: store16_def list_update_append drop_update_swap take_update_swap buf')
  from rfc1071_inserted [OF _ ld this] have "rfc1071 ?bs' = 0" by simp
  then show ?thesis
    using tcp_checksum_eq [OF ip'] n n40 by (simp add: buf' n_def)
qed

theorem tcp_checksum_verifies_witness:
  "calculate_tcp_checksum (syn_packet[36 := 255, 37 := 178]) = Some 0"
proof (rule tcp_checksum_verifies)
  show "get_at 20 dec_ip syn_packet 0 = Some (dec_ip syn_packet)" by code_simp
  show "get_at 20 dec_tcp syn_packet 20 = Some (dec_tcp (drop 20 syn_packet))" by code_simp
  show "calculate_tcp_checksum syn_packet = Some 0xb2ff" by code_simp
  show "upd_at 20 dec_tcp enc_tcp syn_packet 20 (\<lambda>tcp. tcp\<lparr>tcp_sum := 0xb2ff\<rparr>) =
      Some (syn_packet[36 := 255, 37 := 178])" by code_simp
  show "40 \<le> unat (ntohs (iph_len (dec_ip syn_packet)))" by code_simp
  show "tcp_sum (dec_tcp (drop 20 syn_packet)) = 0" by code_simp
qed

text \<open>What a well-formed IPv4 packet with a 20-byte header carries.\<close>

definition ip_packet :: "u8 list \<Rightarrow> u32 \<Rightarrow> u32 \<Rightarrow> u8 \<Rightarrow> u8 \<Rightarrow> u8 list \<Rightarrow> bool" where
  "ip_packet pkt src dst ttl proto payload \<longleftrightarrow>
     get_at 20 dec_ip pkt 0 = Some \<lparr>iph_ihl = 5, iph_ver = 4, iph_tos = 0,
       iph_len = htons (of_nat (length pkt)), iph_ident = 0, iph_flag = 0, iph_offset = 0,
       iph_ttl = ttl, iph_protocol = proto, iph_chksum = 0, iph_sourceip = src, iph_destip = dst\<rparr> \<and>
     drop 20 pkt = payload"

definition sends :: "int \<Rightarrow> u32 \<Rightarrow> u8 list \<Rightarrow> rawcall list" where
  "sends sock dst pkt = [RawSocket, HdrIncl sock, SendTo sock dst pkt, CloseSock sock]"

lemmas build_defs = upd_at_def get_at_def blit_def header_defs bytes16_def bytes32_def char_bytes_def

text \<open>
  \<open>spoof_udp\<close> sends one well-formed datagram: version 4, header length 5, the length field
  equal to the bytes sent, addresses and ports as configured, the UDP length 22 that of header
  and message, and the message itself as the payload.
\<close>

theorem spoof_udp_sends:
  "\<exists>pkt. spoof_udp_main sock = Some (sends sock (inet_addr ''10.128.0.2'') pkt) \<and>
     ip_packet pkt (inet_addr ''10.128.0.4'') (inet_addr ''10.128.0.2'') 20 17
       (enc_udp \<lparr>udp_sport = htons 12345, udp_dport = htons 8081, udp_ulen = htons 22, udp_sum = 0\<rparr> @
        char_bytes (''Hello Server!'' @ [CHR 0x0A]))"
  unfolding spoof_udp_main_def send_raw_ip_packet_def sends_def ip_packet_def
  by (simp add: build_defs) code_simp

text \<open>
  \<open>spoof_icmp\<close> sends a well-formed echo request whose ICMP checksum verifies.
\<close>

theorem spoof_icmp_sends:
  "\<exists>pkt ck. spoof_icmp_main sock = Some (sends sock (inet_addr ''10.9.0.5'') pkt) \<and>
     ip_packet pkt (inet_addr ''1.2.3.4'') (inet_addr ''10.9.0.5'') 20 1
       (enc_icmp \<lparr>icmp_type = 8, icmp_code = 0, icmp_chksum = ck, icmp_id = 0, icmp_seq = 0\<rparr>) \<and>
     in_cksum (drop 20 pkt) 8 = Some 0"
proof (intro exI conjI)
  let ?pkt = "[69, 0, 0, 28, 0, 0, 0, 0, 20, 1, 0, 0, 1, 2, 3, 4, 10, 9, 0, 5, 8, 0, 247, 255, 0, 0, 0, 0]"
  show "spoof_icmp_main sock = Some (sends sock (inet_addr ''10.9.0.5'') ?pkt)" by code_simp
  show "ip_packet ?pkt (inet_addr ''1.2.3.4'') (inet_addr ''10.9.0.5'') 20 1
       (enc_icmp \<lparr>icmp_type = 8, icmp_code = 0, icmp_chksum = 65527, icmp_id = 0, icmp_seq = 0\<rparr>)"
    by code_simp
  show "in_cksum (drop 20 ?pkt) 8 = Some 0" by code_simp
qed

text \<open>
  \<open>spoof_tcp\<close> sends a well-formed segment with the configured ports, sequence number and
  data, and its TCP checksum verifies.
\<close>

theorem spoof_tcp_sends:
  "\<exists>pkt ck. spoof_tcp_main sock = Some (sends sock (inet_addr ''10.9.0.5'') pkt) \<and>
     ip_packet pkt (inet_addr ''1.2.3.4'') (inet_addr ''10.9.0.5'') 20 6
       (enc_tcp \<lparr>tcp_sport = htons 42433, tcp_dport = htons 9090, tcp_seq = htonl 3092566627,
          tcp_ack = 0, tcp_offx2 = 0x50, tcp_flags = 0, tcp_win = htons 20000, tcp_sum = ck,
          tcp_urp = 0\<rparr> @ char_bytes ''Hello Server!'') \<and>
     calculate_tcp_checksum pkt = Some 0"
proof (intro exI conjI)
  let ?pkt = "[69, 0, 0, 53, 0, 0, 0, 0, 20, 6, 0, 0, 1, 2, 3, 4, 10, 9, 0, 5, 165,
     193, 35, 130, 184, 84, 210, 99, 0, 0, 0, 0, 80, 0, 78, 32, 143, 103, 0,
     0, 72, 101, 108, 108, 111, 32, 83, 101, 114, 118, 101, 114, 33]"
  show "spoof_tcp_main sock = Some (sends sock (inet_addr ''10.9.0.5'') ?pkt)" by code_simp
  show "ip_packet ?pkt (inet_addr ''1.2.3.4'') (inet_addr ''10.9.0.5'') 20 6
       (enc_tcp \<lparr>tcp_sport = htons 42433, tcp_dport = htons 9090, tcp_seq = htonl 3092566627,
          tcp_ack = 0, tcp_offx2 = 0x50, tcp_flags = 0, tcp_win = htons 20000, tcp_sum = 26511,
          tcp_urp = 0\<rparr> @ char_bytes ''Hello Server!'')"
    by code_simp
  show "calculate_tcp_checksum ?pkt = Some 0" by code_simp
qed

lemma spoof_reply_built:
  assumes ip: "get_at 20 dec_ip pkt 0 = Some ip"
    and udp: "get_at 8 dec_udp pkt (unat (iph_ihl ip) * 4) = Some udp"
    and port: "ntohs (udp_dport udp) = 9999"
    and ihl: "5 \<le> unat (iph_ihl ip)" and n: "unat (iph_ihl ip) * 4 \<le> unat (ntohs (iph_len ip))"
  shows "spoof_reply_udp sock pkt =
    (if unat (ntohs (iph_len ip)) \<le> min 1500 (length pkt)
     then Some (sends sock (iph_sourceip ip) (take 53
       (enc_ip (ip\<lparr>iph_sourceip := iph_destip ip, iph_destip := iph_sourceip ip, iph_ttl := 50,
          iph_len := htons 53\<rparr>) @
        take (unat (iph_ihl ip) * 4 - 20) (drop 20 pkt) @
        enc_udp \<lparr>udp_sport = udp_dport udp, udp_dport = udp_sport udp, udp_ulen = htons 33, udp_sum = 0\<rparr> @
        reply_payload)))
     else None)"
proof -
  define H where "H = unat (iph_ihl ip) * 4"
  define m where "m = unat (ntohs (iph_len ip))"
  let ?u = "\<lparr>udp_sport = udp_dport udp, udp_dport = udp_sport udp, udp_ulen = htons 33, udp_sum = 0\<rparr>"
  let ?i = "ip\<lparr>iph_sourceip := iph_destip ip, iph_destip := iph_sourceip ip, iph_ttl := 50, iph_len := htons 53\<rparr>"
  have "unat (iph_ihl ip) < 16" using unsigned_less [of "iph_ihl ip"] by simp
  with ihl n have H: "20 \<le> H" "H \<le> 60" "H \<le> m" by (simp_all add: H_def m_def)
  have pay: "length reply_payload = 25" by (simp add: reply_payload_def char_bytes_def)
  have pkt: "20 \<le> length pkt" "dec_ip (take 20 pkt) = ip" "H + 8 \<le> length pkt"
    using ip udp by (auto simp: get_at_def H_def split: if_splits)
  show ?thesis
  proof (cases "m \<le> min 1500 (length pkt)")
    case False
    then show ?thesis
      using ip udp port by (auto simp: spoof_reply_udp_def blit_def simp flip: m_def H_def)
  next
    case True
    define b0 where "b0 = take m pkt @ replicate (1500 - m) 0"
    have b0: "blit (replicate 1500 0) 0 (take m pkt) = Some b0" "length b0 = 1500"
      using True by (simp_all add: blit_def b0_def)
    have b0H: "take H b0 = take H pkt" using H True by (simp add: b0_def)
    define rest where "rest = drop (H + 33) b0"
    have restH: "drop (33 + H) b0 = rest" by (simp only: rest_def add.commute)
    define b1 where "b1 = take (H + 8) b0 @ reply_payload @ rest"
    have b1: "blit b0 (H + 8) reply_payload = Some b1"
      using H b0(2) by (simp add: blit_def b1_def restH pay)
    define b2 where "b2 = take H pkt @ enc_udp ?u @ reply_payload @ rest"
    have b2: "upd_at 8 dec_udp enc_udp b1 H (\<lambda>v. v\<lparr>udp_sport := udp_dport udp,
        udp_dport := udp_sport udp, udp_ulen := htons 33, udp_sum := 0\<rparr>) = Some b2"
      using H b0(2) b0H by (simp add: upd_at_def get_at_def blit_def b1_def b2_def pay restH udp_l.length_enc udp_assigned)
    define b3 where "b3 = enc_ip ?i @ drop 20 (take H pkt) @ enc_udp ?u @ reply_payload @ rest"
    have b3: "upd_at 20 dec_ip enc_ip b2 0 (\<lambda>v. v\<lparr>iph_sourceip := iph_destip ip,
        iph_destip := iph_sourceip ip, iph_ttl := 50, iph_len := htons 53\<rparr>) = Some b3"
      using H pkt by (simp add: upd_at_def get_at_def blit_def b2_def b3_def ip_l.length_enc min_absorb1)
    have "spoof_reply_udp sock pkt = send_raw_ip_packet sock b3"
      using ip udp port True b0(1) b1 b2 b3
      by (simp add: spoof_reply_udp_def pay flip: H_def m_def)
    also have "\<dots> = Some (sends sock (iph_sourceip ip) (take 53 b3))"
      using H pkt by (simp add: send_raw_ip_packet_def get_at_def b3_def ip_l.length_enc ip_l.dec_enc
        sends_def udp_l.length_enc pay)
    also have "take 53 b3 = take 53 (enc_ip ?i @ take (H - 20) (drop 20 pkt) @ enc_udp ?u @ reply_payload)"
      using H pkt by (simp add: b3_def ip_l.length_enc udp_l.length_enc pay take_drop min_absorb1)
    finally show ?thesis using True by (simp flip: H_def m_def)
  qed
qed

text \<open>
  C25. The reply to a datagram for port 9999, for every header length: addresses and ports are
  exchanged, the TTL is 50, everything else of the header and its options is kept. It is built
  exactly for packets of at most 1500 bytes, a longer one overruns the buffer; and 53 bytes are
  sent whatever the header length, so options push the end of the message out of the packet.
\<close>

theorem spoofed_reply:
  assumes ip: "get_at 20 dec_ip pkt 0 = Some ip"
    and udp: "get_at 8 dec_udp pkt (unat (iph_ihl ip) * 4) = Some udp"
    and port: "ntohs (udp_dport udp) = 9999"
    and ihl: "5 \<le> unat (iph_ihl ip)" and n: "unat (iph_ihl ip) * 4 \<le> unat (ntohs (iph_len ip))"
  shows "spoof_reply_udp sock pkt =
    (if unat (ntohs (iph_len ip)) \<le> min 1500 (length pkt)
     then Some (sends sock (iph_sourceip ip) (take 53
       (enc_ip (ip\<lparr>iph_sourceip := iph_destip ip, iph_destip := iph_sourceip ip, iph_ttl := 50,
          iph_len := htons 53\<rparr>) @
        take (unat (iph_ihl ip) * 4 - 20) (drop 20 pkt) @
        enc_udp \<lparr>udp_sport = udp_dport udp, udp_dport = udp_sport udp, udp_ulen = htons 33, udp_sum = 0\<rparr> @
        reply_payload)))
     else None)"
  by (rule spoof_reply_built [OF assms])

definition query :: "u8 list" where
  "query = [69, 0, 0, 30, 0, 7, 0, 0, 64, 17, 0, 0, 10, 9, 0, 5, 10, 9, 0, 1,
     0x30, 0x39, 0x27, 0x0F, 0, 10, 0, 0, 104, 105]"

theorem spoofed_reply_witness:
  "spoof_reply_udp 4 query =
    (if unat (ntohs (iph_len (dec_ip query))) \<le> min 1500 (length query)
     then Some (sends 4 (iph_sourceip (dec_ip query)) (take 53
       (enc_ip ((dec_ip query)\<lparr>iph_sourceip := iph_destip (dec_ip query),
          iph_destip := iph_sourceip (dec_ip query), iph_ttl := 50, iph_len := htons 53\<rparr>) @
        take (unat (iph_ihl (dec_ip query)) * 4 - 20) (drop 20 query) @
        enc_udp \<lparr>udp_sport = udp_dport (dec_udp (drop 20 query)),
          udp_dport = udp_sport (dec_udp (drop 20 query)), udp_ulen = htons 33, udp_sum = 0\<rparr> @
        reply_payload)))
     else None)"
proof (rule spoofed_reply)
  show "get_at 20 dec_ip query 0 = Some (dec_ip query)" by code_simp
  show "get_at 8 dec_udp query (unat (iph_ihl (dec_ip query)) * 4) = Some (dec_udp (drop 20 query))"
    by code_simp
  show "ntohs (udp_dport (dec_udp (drop 20 query))) = 9999" by code_simp
  show "5 \<le> unat (iph_ihl (dec_ip query))" by code_simp
  show "unat (iph_ihl (dec_ip query)) * 4 \<le> unat (ntohs (iph_len (dec_ip query)))" by code_simp
qed

text \<open>
  The sniffer's handler sends nothing but for a UDP datagram in an IPv4 frame whose
  destination port is 9999.
\<close>

theorem got_packet_sends_only_replies:
  assumes "got_packet sock packet = Some calls" and "calls \<noteq> []"
  shows "\<exists>eth ip udp. get_at 14 dec_eth packet 0 = Some eth \<and> ntohs (ether_type eth) = 0x0800 \<and>
    get_at 20 dec_ip packet 14 = Some ip \<and> iph_protocol ip = 17 \<and>
    get_at 8 dec_udp packet (14 + unat (iph_ihl ip) * 4) = Some udp \<and> ntohs (udp_dport udp) = 9999"
proof -
  from assms obtain eth ip where eth: "get_at 14 dec_eth packet 0 = Some eth" "ntohs (ether_type eth) = 0x0800"
    and ip: "get_at 20 dec_ip packet 14 = Some ip" "protocol_of ip = UDP"
    and r: "spoof_reply_udp sock (drop 14 packet) = Some calls"
    by (auto simp: got_packet_def split: bind_splits if_splits protocol.splits)
  have "iph_protocol ip = 17" using ip(2) by (simp add: protocol_of_def split: if_splits)
  moreover have shift: "get_at n dec (drop 14 packet) k = get_at n dec packet (14 + k)"
    if "14 \<le> length packet" for n k and dec :: "u8 list \<Rightarrow> 'h"
    using that by (auto simp: get_at_def add.commute)
  have l: "14 \<le> length packet" using eth(1) by (simp add: get_at_def split: if_splits)
  from r ip(1) obtain udp where
    "get_at 8 dec_udp (drop 14 packet) (unat (iph_ihl ip) * 4) = Some udp" "ntohs (udp_dport udp) = 9999"
    using assms(2) shift [OF l, of 20 dec_ip 0]
    by (auto simp: spoof_reply_udp_def Let_def split: bind_splits if_splits)
  ultimately show ?thesis using eth ip(1) shift [OF l, of 8 dec_udp] by auto
qed

theorem got_packet_sends_only_replies_witness:
  "\<exists>eth ip udp. get_at 14 dec_eth (replicate 12 0 @ [8, 0] @ query) 0 = Some eth \<and>
    ntohs (ether_type eth) = 0x0800 \<and>
    get_at 20 dec_ip (replicate 12 0 @ [8, 0] @ query) 14 = Some ip \<and> iph_protocol ip = 17 \<and>
    get_at 8 dec_udp (replicate 12 0 @ [8, 0] @ query) (14 + unat (iph_ihl ip) * 4) = Some udp \<and>
    ntohs (udp_dport udp) = 9999"
proof (rule got_packet_sends_only_replies)
  show "got_packet 4 (replicate 12 0 @ [8, 0] @ query) = Some (the (got_packet 4 (replicate 12 0 @ [8, 0] @ query)))"
    by code_simp
  show "the (got_packet 4 (replicate 12 0 @ [8, 0] @ query)) \<noteq> []" by code_simp
qed

end
