(* ===== verification/BarrierSort.thy ===== *)
theory BarrierSort imports Prelude
begin

text \<open>
  \<open>threads/barrier.c\<close>: worker threads sort their ranges of \<open>nums\<close> with \<open>heapsort\<close> (a library
  routine, a parameter here), meet the main thread at a barrier, and \<open>merge\<close> combines the
  ranges. The number of threads and the length of a range are parameters \<open>n\<close> and \<open>t\<close> of the
  operations; the program runs them at \<open>NTHR\<close> and \<open>TNUM\<close>. A value of \<open>long\<close> is an \<open>int\<close>
  of at most \<open>LONG_MAX\<close>. \<open>None\<close> is an access outside an array or the use of the variable
  \<open>minidx\<close> before it was assigned.
\<close>

section \<open>Definitions\<close>

definition NTHR :: nat where "NTHR = 8"
definition NUMNUM :: nat where "NUMNUM = 8000000"
definition TNUM :: nat where "TNUM = NUMNUM div NTHR"

definition complong :: "int \<Rightarrow> int \<Rightarrow> int" where
  "complong l1 l2 = (if l1 = l2 then 0 else if l1 < l2 then -1 else 1)"

text \<open>What a comparison function must be, and what \<open>heapsort(base, nmemb, size, compar)\<close> does.\<close>

definition comparator :: "(int \<Rightarrow> int \<Rightarrow> int) \<Rightarrow> bool" where
  "comparator cmp \<longleftrightarrow> (\<forall>a b. sgn (cmp a b) = - sgn (cmp b a)) \<and>
     (\<forall>a b c. cmp a b \<le> 0 \<longrightarrow> cmp b c \<le> 0 \<longrightarrow> cmp a c \<le> 0)"

definition sorts :: "((int \<Rightarrow> int \<Rightarrow> int) \<Rightarrow> int list \<Rightarrow> int list) \<Rightarrow> bool" where
  "sorts hsort \<longleftrightarrow> (\<forall>cmp xs. comparator cmp \<longrightarrow>
     mset (hsort cmp xs) = mset xs \<and> sorted_wrt (\<lambda>a b. cmp a b \<le> 0) (hsort cmp xs))"

text \<open>\<open>thr_fn\<close> up to the barrier, with \<open>idx = (long)arg\<close>.\<close>

definition thr_fn ::
  "((int \<Rightarrow> int \<Rightarrow> int) \<Rightarrow> int list \<Rightarrow> int list) \<Rightarrow> nat \<Rightarrow> int list \<Rightarrow> nat \<Rightarrow> int list option" where
  "thr_fn hsort t nums idx =
     (if idx + t \<le> length nums
      then blit nums idx (hsort complong (take t (drop idx nums))) else None)"

text \<open>The inner loop of \<open>merge\<close>, from \<open>i\<close> on, \<open>k\<close> iterations left.\<close>

fun pick :: "nat \<Rightarrow> int list \<Rightarrow> nat list \<Rightarrow> nat \<Rightarrow> nat \<Rightarrow> int \<times> nat option \<Rightarrow> (int \<times> nat option) option" where
  "pick t nums idx i 0 st = Some st"
| "pick t nums idx i (Suc k) (num, minidx) = do {
     p \<leftarrow> load idx i;
     if p < (i + 1) * t then do {
       x \<leftarrow> load nums p;
       pick t nums idx (i + 1) k (if x < num then (x, Some i) else (num, minidx)) }
     else pick t nums idx (i + 1) k (num, minidx) }"

text \<open>The outer loop: \<open>minidx\<close> is not reset between its iterations.\<close>

fun merge_loop :: "nat \<Rightarrow> nat \<Rightarrow> int list \<Rightarrow> nat \<Rightarrow> nat \<Rightarrow> nat list \<times> nat option \<times> int list \<Rightarrow> int list option" where
  "merge_loop n t nums sidx 0 (idx, minidx, snums) = Some snums"
| "merge_loop n t nums sidx (Suc k) (idx, minidx, snums) = do {
     (num, minidx) \<leftarrow> pick t nums idx 0 n (LONG_MAX, minidx);
     m \<leftarrow> minidx;
     p \<leftarrow> load idx m;
     x \<leftarrow> load nums p;
     snums \<leftarrow> store snums sidx x;
     merge_loop n t nums (sidx + 1) k (idx[m := p + 1], Some m, snums) }"

definition merge :: "nat \<Rightarrow> nat \<Rightarrow> int list \<Rightarrow> int list \<Rightarrow> int list option" where
  "merge n t nums snums =
     merge_loop n t nums 0 (n * t) (map (\<lambda>i. i * t) [0..<n], None, snums)"

text \<open>
  The whole program as a machine. A worker has not been created, runs, waits at the barrier
  or has passed it; the main thread is about to create worker \<open>i\<close>, waits, merges, has
  finished, or has left through \<open>err_exit\<close>. The barrier opens when \<open>n + 1\<close> threads wait.
\<close>

datatype tstate = Absent | Running | AtBarrier | Passed

datatype mstate = Creating nat | MainWaits | Merging | Finished | Failed

record sorter =
  s_nums :: "int list"
  s_snums :: "int list"
  threads :: "tstate list"
  main_st :: mstate

definition waiting :: "sorter \<Rightarrow> nat" where
  "waiting s = length (filter (\<lambda>x. x = AtBarrier) (threads s)) + (if main_st s = MainWaits then 1 else 0)"

inductive sort_step ::
  "((int \<Rightarrow> int \<Rightarrow> int) \<Rightarrow> int list \<Rightarrow> int list) \<Rightarrow> nat \<Rightarrow> nat \<Rightarrow> sorter \<Rightarrow> sorter \<Rightarrow> bool"
  for hsort :: "(int \<Rightarrow> int \<Rightarrow> int) \<Rightarrow> int list \<Rightarrow> int list" and n t :: nat where
  create: "main_st s = Creating i \<Longrightarrow> i < n \<Longrightarrow>
    sort_step hsort n t s (s\<lparr>threads := (threads s)[i := Running], main_st := Creating (i + 1)\<rparr>)"
| create_fails: "main_st s = Creating i \<Longrightarrow> i < n \<Longrightarrow> sort_step hsort n t s (s\<lparr>main_st := Failed\<rparr>)"
| main_wait: "main_st s = Creating n \<Longrightarrow> sort_step hsort n t s (s\<lparr>main_st := MainWaits\<rparr>)"
| worker: "i < n \<Longrightarrow> threads s ! i = Running \<Longrightarrow> thr_fn hsort t (s_nums s) (i * t) = Some xs \<Longrightarrow>
    sort_step hsort n t s (s\<lparr>s_nums := xs, threads := (threads s)[i := AtBarrier]\<rparr>)"
| barrier: "waiting s = n + 1 \<Longrightarrow>
    sort_step hsort n t s (s\<lparr>threads := replicate n Passed, main_st := Merging\<rparr>)"
| merging: "main_st s = Merging \<Longrightarrow> merge n t (s_nums s) (s_snums s) = Some ys \<Longrightarrow>
    sort_step hsort n t s (s\<lparr>s_snums := ys, main_st := Finished\<rparr>)"

definition sort_init :: "nat \<Rightarrow> nat \<Rightarrow> int list \<Rightarrow> sorter \<Rightarrow> bool" where
  "sort_init n t xs s \<longleftrightarrow> length xs = n * t \<and>
     s = \<lparr>s_nums = xs, s_snums = replicate (n * t) 0, threads = replicate n Absent, main_st = Creating 0\<rparr>"

section \<open>The inner loop finds a least head\<close>

definition in_range :: "nat \<Rightarrow> nat list \<Rightarrow> nat \<Rightarrow> bool" where
  "in_range t idx i \<longleftrightarrow> idx ! i < (i + 1) * t"

text \<open>\<open>st\<close> describes the ranges below \<open>i\<close>.\<close>

definition best :: "nat \<Rightarrow> int list \<Rightarrow> nat list \<Rightarrow> nat \<Rightarrow> int \<times> nat option \<Rightarrow> bool" where
  "best t nums idx i st \<longleftrightarrow>
     (fst st = LONG_MAX \<and> (\<forall>j < i. \<not> in_range t idx j)) \<or>
     (\<exists>m < i. snd st = Some m \<and> in_range t idx m \<and> fst st = nums ! (idx ! m) \<and>
        (\<forall>j < i. in_range t idx j \<longrightarrow> fst st \<le> nums ! (idx ! j)))"

lemma pick_best:
  assumes "best t nums idx i st" and "i + k = n" and "length idx = n" and "length nums = n * t"
    and "\<forall>x \<in> set nums. x < LONG_MAX"
  shows "\<exists>st'. pick t nums idx i k st = Some st' \<and> best t nums idx n st'"
  using assms
proof (induction k arbitrary: i st)
  case 0
  then show ?case by simp
next
  case (Suc k)
  obtain num minidx where st: "st = (num, minidx)" by (cases st)
  have i: "i < n" "i + 1 + k = n" using Suc.prems by simp_all
  show ?case
  proof (cases "in_range t idx i")
    case False
    then have "best t nums idx (i + 1) st"
      using Suc.prems(1) by (fastforce simp: best_def less_Suc_eq)
    with Suc.IH [OF _ i(2)] Suc.prems False i st show ?thesis by (auto simp: in_range_def)
  next
    case True
    let ?x = "nums ! (idx ! i)"
    have "(i + 1) * t \<le> n * t" using i by (intro mult_le_mono1) simp
    then have p: "idx ! i < length nums" using True Suc.prems(4) by (simp add: in_range_def)
    then have x: "?x < LONG_MAX" using Suc.prems(5) by simp
    have "best t nums idx (i + 1) (if ?x < num then (?x, Some i) else (num, minidx))"
    proof (cases "?x < num")
      case less: True
      with Suc.prems(1) True show ?thesis
        by (fastforce simp: best_def st less_Suc_eq)
    next
      case False
      with Suc.prems(1) True x show ?thesis
        by (fastforce simp: best_def st less_Suc_eq)
    qed
    with Suc.IH [OF _ i(2)] Suc.prems True p i show ?thesis by (auto simp: in_range_def st)
  qed
qed

section \<open>The outer loop\<close>

definition taken :: "nat \<Rightarrow> int list \<Rightarrow> nat list \<Rightarrow> nat \<Rightarrow> int multiset" where
  "taken t nums idx i = mset (map ((!) nums) [i * t..<idx ! i])"

definition ranges_sorted :: "nat \<Rightarrow> nat \<Rightarrow> int list \<Rightarrow> bool" where
  "ranges_sorted n t nums \<longleftrightarrow> length nums = n * t \<and>
     (\<forall>i < n. \<forall>p q. i * t \<le> p \<longrightarrow> p \<le> q \<longrightarrow> q < (i + 1) * t \<longrightarrow> nums ! p \<le> nums ! q)"

definition merged :: "nat \<Rightarrow> nat \<Rightarrow> int list \<Rightarrow> nat \<Rightarrow> nat list \<Rightarrow> int list \<Rightarrow> bool" where
  "merged n t nums sidx idx snums \<longleftrightarrow>
     length idx = n \<and> length snums = n * t \<and> sidx \<le> n * t \<and>
     (\<forall>i < n. i * t \<le> idx ! i \<and> idx ! i \<le> (i + 1) * t) \<and>
     mset (take sidx snums) = (\<Sum>i<n. taken t nums idx i) \<and>
     sorted (take sidx snums) \<and>
     (\<forall>x \<in> set (take sidx snums). \<forall>i < n. \<forall>p. idx ! i \<le> p \<longrightarrow> p < (i + 1) * t \<longrightarrow> x \<le> nums ! p)"

lemma size_taken:
  assumes "merged n t nums sidx idx snums"
  shows "sidx = (\<Sum>i<n. idx ! i - i * t)"
proof -
  have "length (take sidx snums) = sidx" using assms by (simp add: merged_def)
  then have "sidx = size (mset (take sidx snums))" by (simp only: size_mset)
  also have "mset (take sidx snums) = (\<Sum>i<n. taken t nums idx i)"
    using assms by (simp add: merged_def)
  also have "size \<dots> = (\<Sum>i<n. size (taken t nums idx i))"
    by (rule size_multiset_sum)
  finally show ?thesis by (simp add: taken_def)
qed

lemma some_range_left:
  assumes "merged n t nums sidx idx snums" and "sidx < n * t"
  shows "\<exists>i < n. in_range t idx i"
proof (rule ccontr)
  assume "\<not> ?thesis"
  then have "idx ! i - i * t = t" if "i < n" for i
    using assms(1) that by (force simp: merged_def in_range_def)
  with size_taken [OF assms(1)] have "sidx = (\<Sum>i<n. t)" by simp
  with assms(2) show False by simp
qed

lemma taken_upd:
  assumes "m < n" "length idx = n" "m * t \<le> idx ! m"
  shows "(\<Sum>i<n. taken t nums (idx[m := idx ! m + 1]) i) =
    add_mset (nums ! (idx ! m)) (\<Sum>i<n. taken t nums idx i)"
proof -
  have "(\<Sum>i<n. taken t nums (idx[m := idx ! m + 1]) i) =
      taken t nums (idx[m := idx ! m + 1]) m + (\<Sum>i \<in> {..<n} - {m}. taken t nums (idx[m := idx ! m + 1]) i)"
    using assms by (simp add: sum.remove)
  also have "(\<Sum>i \<in> {..<n} - {m}. taken t nums (idx[m := idx ! m + 1]) i) =
      (\<Sum>i \<in> {..<n} - {m}. taken t nums idx i)"
    by (rule sum.cong) (auto simp: taken_def)
  also have "taken t nums (idx[m := idx ! m + 1]) m = add_mset (nums ! (idx ! m)) (taken t nums idx m)"
    using assms by (simp add: taken_def)
  finally show ?thesis
    using assms by (simp add: sum.remove [of _ m])
qed

lemma merged_step:
  assumes inv: "merged n t nums sidx idx snums" and sorted: "ranges_sorted n t nums"
    and m: "m < n" "in_range t idx m" "\<forall>j < n. in_range t idx j \<longrightarrow> nums ! (idx ! m) \<le> nums ! (idx ! j)"
    and s: "sidx < n * t"
  shows "merged n t nums (sidx + 1) (idx[m := idx ! m + 1]) (snums[sidx := nums ! (idx ! m)])"
proof -
  let ?x = "nums ! (idx ! m)" and ?idx = "idx[m := idx ! m + 1]"
  have len: "length idx = n" "sidx < length snums" using inv s by (simp_all add: merged_def)
  have tk: "take (sidx + 1) (snums[sidx := ?x]) = take sidx snums @ [?x]"
    using len by (simp add: take_Suc_conv_app_nth)
  have below: "\<forall>y \<in> set (take sidx snums). y \<le> ?x"
    using inv m by (auto simp: merged_def in_range_def)
  have above: "?x \<le> nums ! p" if "i < n" "?idx ! i \<le> p" "p < (i + 1) * t" for i p
  proof -
    have "idx ! i \<le> p" using that len m by (cases "i = m") auto
    moreover from this that have "in_range t idx i" by (simp add: in_range_def)
    ultimately have "?x \<le> nums ! (idx ! i)" "nums ! (idx ! i) \<le> nums ! p"
      using m sorted inv that by (auto simp: ranges_sorted_def merged_def)
    then show ?thesis by simp
  qed
  have "y \<le> nums ! p" if "y \<in> set (take sidx snums)" "i < n" "?idx ! i \<le> p" "p < (i + 1) * t" for y i p
    using below above that by (meson order_trans)
  with above tk have a: "\<forall>x \<in> set (take (sidx + 1) (snums[sidx := ?x])). \<forall>i < n. \<forall>p. ?idx ! i \<le> p \<longrightarrow>
      p < (i + 1) * t \<longrightarrow> x \<le> nums ! p"
    by auto
  have b: "mset (take (sidx + 1) (snums[sidx := ?x])) = (\<Sum>i<n. taken t nums ?idx i)"
    unfolding tk using inv taken_upd [OF m(1), of idx t nums] m(1) by (simp add: merged_def)
  have c: "sorted (take (sidx + 1) (snums[sidx := ?x]))"
    unfolding tk using inv below by (simp add: sorted_append merged_def)
  have d: "\<forall>i < n. i * t \<le> ?idx ! i \<and> ?idx ! i \<le> (i + 1) * t"
    using inv m len by (auto simp: merged_def in_range_def nth_list_update)
  show ?thesis
    unfolding merged_def using a b c d len s inv by (simp add: merged_def)
qed

lemma merge_loop_sorts:
  assumes "merged n t nums sidx idx snums" and "ranges_sorted n t nums"
    and "\<forall>x \<in> set nums. x < LONG_MAX" and "sidx + k = n * t"
  shows "\<exists>snums' idx'. merge_loop n t nums sidx k (idx, minidx, snums) = Some snums' \<and>
    merged n t nums (n * t) idx' snums'"
  using assms
proof (induction k arbitrary: sidx idx minidx snums)
  case 0
  then show ?case by auto
next
  case (Suc k)
  have len: "length idx = n" "length nums = n * t" "sidx < n * t" "length snums = n * t"
    using Suc.prems by (simp_all add: merged_def ranges_sorted_def)
  obtain num mi where p: "pick t nums idx 0 n (LONG_MAX, minidx) = Some (num, mi)" "best t nums idx n (num, mi)"
    using pick_best [of t nums idx 0 "(LONG_MAX, minidx)" n n] len Suc.prems(3)
    by (auto simp: best_def)
  with some_range_left [OF Suc.prems(1)] len obtain m where m: "mi = Some m" "m < n" "in_range t idx m"
      "\<forall>j < n. in_range t idx j \<longrightarrow> nums ! (idx ! m) \<le> nums ! (idx ! j)"
    by (auto simp: best_def)
  have "(m + 1) * t \<le> n * t" using m by (intro mult_le_mono1) simp
  with m len have "idx ! m < length nums" by (simp add: in_range_def)
  with Suc.IH [OF merged_step [OF Suc.prems(1,2) m(2-4) len(3)] Suc.prems(2,3), of "Some m"] Suc.prems(4)
  show ?case using p m len by simp
qed

lemma taken_all:
  "(\<Sum>i<n. mset (map ((!) xs) [i * t..<(i + 1) * t])) = mset (map ((!) xs) [0..<n * t])"
proof (induction n)
  case (Suc n)
  have "[0..<Suc n * t] = [0..<n * t] @ [n * t..<(n + 1) * t]"
    using upt_add_eq_append [of 0 "n * t" t] by (simp add: add.commute)
  then show ?case using Suc by simp
qed simp

lemma merge_sorts:
  assumes "ranges_sorted n t nums" and "\<forall>x \<in> set nums. x < LONG_MAX" and "length snums = n * t"
  shows "\<exists>ys. merge n t nums snums = Some ys \<and> sorted ys \<and> mset ys = mset nums"
proof -
  let ?idx = "map (\<lambda>i. i * t) [0..<n]"
  have "merged n t nums 0 ?idx snums"
    using assms by (auto simp: merged_def taken_def)
  from merge_loop_sorts [OF this assms(1,2)] obtain ys idx where
    ys: "merge n t nums snums = Some ys" "merged n t nums (n * t) idx ys"
    unfolding merge_def by fastforce
  have "idx ! i = (i + 1) * t" if "i < n" for i
  proof (rule ccontr)
    assume ne: "idx ! i \<noteq> (i + 1) * t"
    have le: "idx ! j - j * t \<le> t" if "j < n" for j
      using ys(2) that by (force simp: merged_def)
    have "idx ! i - i * t < t"
      using ys(2) that ne by (force simp: merged_def)
    then have "(\<Sum>j<n. idx ! j - j * t) < (\<Sum>j<n. t)"
      using le that by (intro sum_strict_mono_ex1) auto
    with size_taken [OF ys(2)] show False by simp
  qed
  then have "(\<Sum>i<n. taken t nums idx i) = mset (map ((!) nums) [0..<n * t])"
    unfolding taken_all [symmetric] by (intro sum.cong) (auto simp: taken_def)
  also have "map ((!) nums) [0..<n * t] = nums"
    using assms(1) map_nth [of nums] by (simp add: ranges_sorted_def)
  finally show ?thesis
    using ys by (auto simp: merged_def)
qed

section \<open>The workers\<close>

lemma complong_comparator: "comparator complong"
  by (auto simp: comparator_def complong_def)

lemma complong_le: "complong a b \<le> 0 \<longleftrightarrow> a \<le> b"
  by (auto simp: complong_def)

definition sorted_range :: "nat \<Rightarrow> int list \<Rightarrow> nat \<Rightarrow> bool" where
  "sorted_range t xs i \<longleftrightarrow> sorted (take t (drop (i * t) xs))"

lemma hsort_sorts:
  "sorts hsort \<Longrightarrow> mset (hsort complong xs) = mset xs \<and> sorted (hsort complong xs)"
  using complong_comparator by (auto simp: sorts_def complong_le)

text \<open>A worker sorts its own range, and changes no other.\<close>

lemma thr_fn_range:
  assumes "sorts hsort" and "length xs = n * t" and "i < n"
  shows "\<exists>ys. thr_fn hsort t xs (i * t) = Some ys \<and> length ys = length xs \<and> mset ys = mset xs \<and>
    sorted_range t ys i \<and> (\<forall>j. j \<noteq> i \<longrightarrow> take t (drop (j * t) ys) = take t (drop (j * t) xs))"
proof -
  let ?k = "i * t" and ?seg = "take t (drop (i * t) xs)"
  let ?h = "hsort complong ?seg"
  have "i * t + t \<le> n * t" using assms(3) mult_le_mono1 [of "i + 1" n t] by simp
  then have k: "?k + t \<le> length xs" using assms(2) by simp
  have h: "mset ?h = mset ?seg" "sorted ?h" using hsort_sorts [OF assms(1)] by simp_all
  have len: "length ?h = t" using k mset_eq_length [OF h(1)] by simp
  let ?ys = "take ?k xs @ ?h @ drop (?k + t) xs"
  have "thr_fn hsort t xs ?k = Some ?ys"
    using k len by (simp add: thr_fn_def blit_def)
  moreover have "mset ?ys = mset xs"
  proof -
    have "xs = take ?k xs @ ?seg @ drop (?k + t) xs"
      by (metis append_take_drop_id drop_drop add.commute)
    then have "mset xs = mset (take ?k xs) + mset ?seg + mset (drop (?k + t) xs)"
      by (metis mset_append union_assoc)
    with h show ?thesis by simp
  qed
  moreover have "sorted_range t ?ys i"
    using h len k by (simp add: sorted_range_def)
  moreover have "take t (drop (j * t) ?ys) = take t (drop (j * t) xs)" if "j \<noteq> i" for j
  proof (cases "j < i")
    case True
    then have "j * t + t \<le> ?k" using mult_le_mono1 [of "j + 1" i t] by simp
    with k show ?thesis by (simp add: take_drop)
  next
    case False
    with that have "?k + t \<le> j * t" using mult_le_mono1 [of "i + 1" j t] by simp
    then obtain e where e: "j * t = ?k + t + e" using le_Suc_ex by blast
    have "drop (?k + t + e) ?ys = drop (?k + t + e) xs"
      using k len by (simp add: add.commute add.left_commute)
    then show ?thesis by (simp only: e)
  qed
  ultimately show ?thesis using k len by (intro exI [of _ ?ys]) simp
qed

lemma ranges_sorted_iff:
  assumes "length xs = n * t"
  shows "(\<forall>i < n. sorted_range t xs i) \<longleftrightarrow> ranges_sorted n t xs"
proof -
  have "sorted_range t xs i \<longleftrightarrow> (\<forall>p q. i * t \<le> p \<longrightarrow> p \<le> q \<longrightarrow> q < (i + 1) * t \<longrightarrow> xs ! p \<le> xs ! q)"
    if "i < n" for i
  proof -
    have k: "i * t + t \<le> length xs" using that assms mult_le_mono1 [of "i + 1" n t] by simp
    have "sorted_range t xs i \<longleftrightarrow> (\<forall>p q. p \<le> q \<longrightarrow> q < t \<longrightarrow> xs ! (i * t + p) \<le> xs ! (i * t + q))"
      using k by (auto simp: sorted_range_def sorted_iff_nth_mono)
    also have "\<dots> \<longleftrightarrow> (\<forall>p q. i * t \<le> p \<longrightarrow> p \<le> q \<longrightarrow> q < (i + 1) * t \<longrightarrow> xs ! p \<le> xs ! q)"
    proof safe
      fix p q
      assume a: "\<forall>p q. p \<le> q \<longrightarrow> q < t \<longrightarrow> xs ! (i * t + p) \<le> xs ! (i * t + q)"
        and "i * t \<le> p" "p \<le> q" "q < (i + 1) * t"
      then show "xs ! p \<le> xs ! q"
        using a [rule_format, of "p - i * t" "q - i * t"] by simp
    next
      fix p q
      assume a: "\<forall>p q. i * t \<le> p \<longrightarrow> p \<le> q \<longrightarrow> q < (i + 1) * t \<longrightarrow> xs ! p \<le> xs ! q"
        and "p \<le> q" "q < t"
      then show "xs ! (i * t + p) \<le> xs ! (i * t + q)"
        using a [rule_format, of "i * t + p" "i * t + q"] by simp
    qed
    finally show ?thesis .
  qed
  then show ?thesis using assms by (auto simp: ranges_sorted_def)
qed

section \<open>The machine\<close>

text \<open>
  The invariant: the numbers are a permutation of the initial ones, every worker at or past the
  barrier has sorted its range, and the main thread is past the barrier only if all workers
  have sorted; once finished, \<open>snums\<close> is the result.
\<close>

definition sorter_inv :: "nat \<Rightarrow> nat \<Rightarrow> int list \<Rightarrow> sorter \<Rightarrow> bool" where
  "sorter_inv n t xs s \<longleftrightarrow>
     length (s_nums s) = n * t \<and> length (s_snums s) = n * t \<and> length (threads s) = n \<and>
     mset (s_nums s) = mset xs \<and>
     (\<forall>i < n. threads s ! i = AtBarrier \<or> threads s ! i = Passed \<longrightarrow> sorted_range t (s_nums s) i) \<and>
     (case main_st s of
        Creating k \<Rightarrow> k \<le> n \<and> (\<forall>i < n. threads s ! i \<noteq> Passed \<and> (k \<le> i \<longrightarrow> threads s ! i = Absent))
      | MainWaits \<Rightarrow> \<forall>i < n. threads s ! i \<noteq> Passed
      | Failed \<Rightarrow> \<forall>i < n. threads s ! i \<noteq> Passed
      | Merging \<Rightarrow> threads s = replicate n Passed
      | Finished \<Rightarrow> threads s = replicate n Passed \<and> sorted (s_snums s) \<and> mset (s_snums s) = mset xs)"

lemma all_waiting:
  assumes "waiting s = n + 1" and "length (threads s) = n"
  shows "main_st s = MainWaits" and "\<forall>i < n. threads s ! i = AtBarrier"
proof -
  have le: "length (filter (\<lambda>x. x = AtBarrier) (threads s)) \<le> n"
    using assms(2) length_filter_le [of "\<lambda>x. x = AtBarrier" "threads s"] by simp
  with assms show "main_st s = MainWaits" by (auto simp: waiting_def split: if_splits)
  with assms have "length (filter (\<lambda>x. x = AtBarrier) (threads s)) = length (threads s)"
    by (simp add: waiting_def)
  then have "\<forall>x \<in> set (threads s). x = AtBarrier"
    using length_filter_less [of _ "threads s" "\<lambda>x. x = AtBarrier"] by force
  with assms(2) show "\<forall>i < n. threads s ! i = AtBarrier" by simp
qed

lemma worker_inv:
  assumes hs: "sorts hsort" and inv: "sorter_inv n t xs s" and i: "i < n" "threads s ! i = Running"
    and ys: "thr_fn hsort t (s_nums s) (i * t) = Some ys"
  shows "sorter_inv n t xs (s\<lparr>s_nums := ys, threads := (threads s)[i := AtBarrier]\<rparr>)"
proof -
  have len: "length (s_nums s) = n * t" "length (threads s) = n" using inv by (simp_all add: sorter_inv_def)
  with thr_fn_range [OF hs len(1) i(1)] ys have w: "length ys = n * t" "mset ys = mset (s_nums s)"
      "sorted_range t ys i" "\<forall>j. j \<noteq> i \<longrightarrow> sorted_range t ys j = sorted_range t (s_nums s) j"
    by (auto simp: sorted_range_def)
  have "threads s \<noteq> replicate n Passed"
  proof
    assume "threads s = replicate n Passed"
    then have "threads s ! i = Passed" using i(1) by (simp only: nth_replicate)
    with i(2) show False by simp
  qed
  then have "main_st s \<noteq> Merging" "main_st s \<noteq> Finished"
    using inv by (auto simp: sorter_inv_def)
  with inv i w len show ?thesis
    by (auto simp: sorter_inv_def nth_list_update split: mstate.splits)
qed

lemma sorter_step_inv:
  assumes "sorts hsort" and "\<forall>x \<in> set xs. x < LONG_MAX"
    and "sorter_inv n t xs s" and "sort_step hsort n t s s'"
  shows "sorter_inv n t xs s'"
  using assms(4)
proof cases
  case (create i)
  with assms(3) show ?thesis
    by (auto simp: sorter_inv_def nth_list_update split: if_splits)
next
  case (create_fails i)
  with assms(3) show ?thesis by (auto simp: sorter_inv_def)
next
  case main_wait
  with assms(3) show ?thesis by (auto simp: sorter_inv_def)
next
  case (worker i ys)
  with worker_inv [OF assms(1,3)] show ?thesis by simp
next
  case barrier
  with assms(3) all_waiting [of s n] show ?thesis by (auto simp: sorter_inv_def)
next
  case (merging ys)
  from merging(2) assms(3) have th: "threads s = replicate n Passed"
    and l: "length (s_nums s) = n * t" "length (s_snums s) = n * t" and m: "mset (s_nums s) = mset xs"
    and r: "\<forall>i < n. sorted_range t (s_nums s) i"
    by (auto simp: sorter_inv_def)
  have "\<forall>x \<in> set (s_nums s). x < LONG_MAX" using assms(2) mset_eq_setD [OF m] by simp
  with merge_sorts [OF _ this l(2)] r merging(3) l(1) have "sorted ys" "mset ys = mset xs"
    using ranges_sorted_iff [OF l(1)] m by auto
  moreover from this l have "length ys = n * t" using m mset_eq_length by metis
  ultimately show ?thesis using merging assms(3) th by (simp add: sorter_inv_def)
qed

lemma sorter_init_inv: "sort_init n t xs s \<Longrightarrow> sorter_inv n t xs s"
  by (auto simp: sort_init_def sorter_inv_def)

interpretation sorter: safe_machine
  "\<lambda>s. sorts hsort \<and> (\<forall>x \<in> set xs. x < LONG_MAX) \<and> sort_init n t xs s"
  "sort_step hsort n t"
  "\<lambda>s. sorts hsort \<and> (\<forall>x \<in> set xs. x < LONG_MAX) \<and> sorter_inv n t xs s"
  for hsort n t xs
  by unfold_locales (blast intro: sorter_init_inv sorter_step_inv)+

section \<open>Properties\<close>

text \<open>
  C4. However the workers are scheduled, if all numbers are below \<open>LONG_MAX\<close> the main thread
  merges only ranges that are sorted, its merge never leaves an array nor uses an unset
  \<open>minidx\<close>, and when it has finished \<open>snums\<close> is a sorted permutation of the numbers.
\<close>

theorem barrier_sort_correct:
  assumes "sorts hsort" and "\<forall>x \<in> set xs. x < LONG_MAX" and "reach (sort_init n t xs) (sort_step hsort n t) s"
  shows "(if main_st s = Merging then \<exists>ys. merge n t (s_nums s) (s_snums s) = Some ys else True) \<and>
    (if main_st s = Finished then sorted (s_snums s) \<and> mset (s_snums s) = mset xs else True)"
proof -
  from assms have "reach (\<lambda>s. sorts hsort \<and> (\<forall>x \<in> set xs. x < LONG_MAX) \<and> sort_init n t xs s) (sort_step hsort n t) s"
    by (blast intro: reach_mono)
  then have inv: "sorter_inv n t xs s" using sorter.reach_inv by blast
  have "\<exists>ys. merge n t (s_nums s) (s_snums s) = Some ys" if "main_st s = Merging"
  proof -
    from inv that have l: "length (s_nums s) = n * t" "length (s_snums s) = n * t" and m: "mset (s_nums s) = mset xs"
      and r: "\<forall>i < n. sorted_range t (s_nums s) i"
      by (auto simp: sorter_inv_def)
    have "\<forall>x \<in> set (s_nums s). x < LONG_MAX" using assms(2) mset_eq_setD [OF m] by simp
    with merge_sorts [OF _ this l(2)] r show ?thesis using ranges_sorted_iff [OF l(1)] by blast
  qed
  with inv show ?thesis by (auto simp: sorter_inv_def)
qed

text \<open>Insertion sort stands for \<open>heapsort\<close>; one worker and two numbers.\<close>

definition ins :: "(int \<Rightarrow> int \<Rightarrow> int) \<Rightarrow> int \<Rightarrow> int list \<Rightarrow> int list" where
  "ins cmp x ys = takeWhile (\<lambda>y. cmp y x \<le> 0) ys @ x # dropWhile (\<lambda>y. cmp y x \<le> 0) ys"

definition ins_sort :: "(int \<Rightarrow> int \<Rightarrow> int) \<Rightarrow> int list \<Rightarrow> int list" where
  "ins_sort cmp xs = foldr (ins cmp) xs []"

lemma ins_sorted:
  assumes "comparator cmp" and "sorted_wrt (\<lambda>a b. cmp a b \<le> 0) ys"
  shows "sorted_wrt (\<lambda>a b. cmp a b \<le> 0) (ins cmp x ys) \<and> mset (ins cmp x ys) = add_mset x (mset ys)"
proof -
  have tr: "cmp a b \<le> 0 \<Longrightarrow> cmp b c \<le> 0 \<Longrightarrow> cmp a c \<le> 0" for a b c
    using assms(1) by (auto simp: comparator_def)
  have tot: "\<not> cmp a b \<le> 0 \<Longrightarrow> cmp b a \<le> 0" for a b
    using assms(1) by (auto simp: comparator_def sgn_if split: if_splits)
      (metis linorder_not_less neg_0_less_iff_less one_neq_neg_one order_less_irrefl zero_less_one)
  have "sorted_wrt (\<lambda>a b. cmp a b \<le> 0) (ins cmp x ys)"
    using assms(2)
  proof (induction ys)
    case Nil
    then show ?case by (simp add: ins_def)
  next
    case (Cons y ys)
    show ?case
    proof (cases "cmp y x \<le> 0")
      case True
      with Cons show ?thesis
        by (auto simp: ins_def dest!: set_takeWhileD set_dropWhileD)
    next
      case False
      with Cons.prems tot [OF False] tr show ?thesis by (auto simp: ins_def)
    qed
  qed
  moreover have "mset ys = mset (takeWhile (\<lambda>y. cmp y x \<le> 0) ys) + mset (dropWhile (\<lambda>y. cmp y x \<le> 0) ys)"
    by (metis mset_append takeWhile_dropWhile_id)
  ultimately show ?thesis by (simp add: ins_def)
qed

lemma ins_sort_sorts: "sorts ins_sort"
proof -
  have "mset (ins_sort cmp xs) = mset xs \<and> sorted_wrt (\<lambda>a b. cmp a b \<le> 0) (ins_sort cmp xs)"
    if "comparator cmp" for cmp xs
    using ins_sorted [OF that] by (induction xs) (auto simp: ins_sort_def)
  then show ?thesis by (simp add: sorts_def)
qed

definition sorted_two :: sorter where
  "sorted_two = \<lparr>s_nums = [3, 5], s_snums = [3, 5], threads = [Passed], main_st = Finished\<rparr>"

lemma sorted_two_reached: "reach (sort_init 1 2 [5, 3]) (sort_step ins_sort 1 2) sorted_two"
proof -
  let ?st = "\<lambda>xs ys th m. \<lparr>s_nums = xs, s_snums = ys, threads = th, main_st = m\<rparr>"
  note steps = reach_step [where init = "sort_init 1 2 [5, 3]" and step = "sort_step ins_sort 1 2"]
  have "reach (sort_init 1 2 [5, 3]) (sort_step ins_sort 1 2) (?st [5, 3] [0, 0] [Absent] (Creating 0))"
    by (rule reach_init) (simp add: sort_init_def numeral_2_eq_2)
  from steps [OF this create [where i = 0]]
  have "reach (sort_init 1 2 [5, 3]) (sort_step ins_sort 1 2) (?st [5, 3] [0, 0] [Running] (Creating 1))" by simp
  from steps [OF this worker [where i = 0 and xs = "[3, 5]"]]
  have "reach (sort_init 1 2 [5, 3]) (sort_step ins_sort 1 2) (?st [3, 5] [0, 0] [AtBarrier] (Creating 1))"
    by (simp add: thr_fn_def blit_def ins_sort_def ins_def complong_def)
  from steps [OF this main_wait]
  have "reach (sort_init 1 2 [5, 3]) (sort_step ins_sort 1 2) (?st [3, 5] [0, 0] [AtBarrier] MainWaits)" by simp
  from steps [OF this barrier]
  have "reach (sort_init 1 2 [5, 3]) (sort_step ins_sort 1 2) (?st [3, 5] [0, 0] [Passed] Merging)"
    by (simp add: waiting_def)
  from steps [OF this merging [where ys = "[3, 5]"]]
  show ?thesis
    by (simp add: sorted_two_def merge_def LONG_MAX_def numeral_eq_Suc)
qed

theorem barrier_sort_correct_witness:
  "(if main_st sorted_two = Merging
    then \<exists>ys. merge 1 2 (s_nums sorted_two) (s_snums sorted_two) = Some ys else True) \<and>
   (if main_st sorted_two = Finished
    then sorted (s_snums sorted_two) \<and> mset (s_snums sorted_two) = mset [5, 3] else True)"
  by (rule barrier_sort_correct [OF ins_sort_sorts _ sorted_two_reached]) (simp add: LONG_MAX_def)

text \<open>
  The bound matters: \<open>num\<close> starts at \<open>LONG_MAX\<close> and the comparison is strict, so ranges
  that hold only \<open>LONG_MAX\<close> leave \<open>minidx\<close> unset, and its use is undefined.
\<close>

theorem merge_needs_smaller_values:
  assumes "0 < n * t"
  shows "merge n t (replicate (n * t) LONG_MAX) snums = None"
proof -
  have stuck: "pick t (replicate (n * t) LONG_MAX) idx i k (LONG_MAX, None) \<in> {None, Some (LONG_MAX, None)}" for idx i k
    by (induction k arbitrary: i) (auto simp: load_def split: bind_splits)
  from assms obtain k where "n * t = Suc k" by (cases "n * t") auto
  then show ?thesis
    using stuck [of "map (\<lambda>i. i * t) [0..<n]" 0 n] by (auto simp: merge_def)
qed

theorem merge_needs_smaller_values_witness:
  "merge 2 3 (replicate (2 * 3) LONG_MAX) (replicate 6 0) = None"
  by (rule merge_needs_smaller_values) simp

end
