(* ===== verification/CondQueue.thy ===== *)
theory CondQueue imports Prelude
begin

text \<open>
  \<open>threads/condvar.c\<close>: a work queue guarded by a mutex and a condition variable. The machine
  interleaves any number of threads at the granularity of the calls and assignments of the
  code. \<open>pthread_cond_wait\<close> gives up the mutex and starts waiting in one step, may wake
  spuriously, and takes the mutex again before it returns; \<open>pthread_cond_signal\<close> wakes one
  waiting thread if there is one. Messages are addresses linked through \<open>m_next\<close>; address 0
  is \<open>NULL\<close>.
\<close>

section \<open>State\<close>

text \<open>Where a thread of \<open>process_msg\<close> (C) or \<open>enqueue_msg\<close> (P) is.\<close>

datatype tpc =
    C_start | C_test | C_wait | C_woken | C_unlock nat
  | P_start | P_lock nat | P_push nat | P_unlock | P_signal

record mqueue =
  m_next :: "nat \<rightharpoonup> nat"
  workq :: nat
  qlock :: "nat option"
  pc :: "nat \<Rightarrow> tpc"
  enqueued :: "nat list"
  processed :: "nat list"

fun holds_lock :: "tpc \<Rightarrow> bool" where
  "holds_lock C_test = True"
| "holds_lock (C_unlock m) = True"
| "holds_lock (P_push m) = True"
| "holds_lock P_unlock = True"
| "holds_lock _ = False"

fun consumer :: "tpc \<Rightarrow> bool" where
  "consumer C_start = True"
| "consumer C_test = True"
| "consumer C_wait = True"
| "consumer C_woken = True"
| "consumer (C_unlock m) = True"
| "consumer _ = False"

text \<open>The message a thread holds outside the queue.\<close>

fun holds_msg :: "tpc \<Rightarrow> nat option" where
  "holds_msg (P_lock m) = Some m"
| "holds_msg (P_push m) = Some m"
| "holds_msg (C_unlock m) = Some m"
| "holds_msg _ = None"

abbreviation goto :: "mqueue \<Rightarrow> nat \<Rightarrow> tpc \<Rightarrow> mqueue" where
  "goto s i p \<equiv> s\<lparr>pc := (pc s)(i := p)\<rparr>"

fun chain :: "(nat \<rightharpoonup> nat) \<Rightarrow> nat \<Rightarrow> nat list \<Rightarrow> bool" where
  "chain nx p [] \<longleftrightarrow> p = 0"
| "chain nx p (m # ms) \<longleftrightarrow> p = m \<and> m \<noteq> 0 \<and> (case nx m of None \<Rightarrow> False | Some q \<Rightarrow> chain nx q ms)"

section \<open>Steps\<close>

inductive mq_step :: "mqueue \<Rightarrow> mqueue \<Rightarrow> bool" where
  c_lock: "pc s i = C_start \<Longrightarrow> qlock s = None \<Longrightarrow> mq_step s (goto (s\<lparr>qlock := Some i\<rparr>) i C_test)"
| c_wait: "pc s i = C_test \<Longrightarrow> workq s = 0 \<Longrightarrow> mq_step s (goto (s\<lparr>qlock := None\<rparr>) i C_wait)"
| c_spurious: "pc s i = C_wait \<Longrightarrow> mq_step s (goto s i C_woken)"
| c_relock: "pc s i = C_woken \<Longrightarrow> qlock s = None \<Longrightarrow> mq_step s (goto (s\<lparr>qlock := Some i\<rparr>) i C_test)"
| c_take: "pc s i = C_test \<Longrightarrow> workq s = m \<Longrightarrow> m \<noteq> 0 \<Longrightarrow> m_next s m = Some q \<Longrightarrow>
    mq_step s (goto (s\<lparr>workq := q\<rparr>) i (C_unlock m))"
| c_unlock: "pc s i = C_unlock m \<Longrightarrow>
    mq_step s (goto (s\<lparr>qlock := None, processed := processed s @ [m]\<rparr>) i C_start)"
| p_call: "pc s i = P_start \<Longrightarrow> m \<noteq> 0 \<Longrightarrow> chain (m_next s) (workq s) ms \<Longrightarrow> m \<notin> set ms \<Longrightarrow>
    (\<forall>j. holds_msg (pc s j) \<noteq> Some m) \<Longrightarrow> mq_step s (goto s i (P_lock m))"
| p_lock: "pc s i = P_lock m \<Longrightarrow> qlock s = None \<Longrightarrow> mq_step s (goto (s\<lparr>qlock := Some i\<rparr>) i (P_push m))"
| p_push: "pc s i = P_push m \<Longrightarrow>
    mq_step s (goto (s\<lparr>m_next := (m_next s)(m \<mapsto> workq s), workq := m, enqueued := enqueued s @ [m]\<rparr>) i P_unlock)"
| p_unlock: "pc s i = P_unlock \<Longrightarrow> mq_step s (goto (s\<lparr>qlock := None\<rparr>) i P_signal)"
| p_signal: "pc s i = P_signal \<Longrightarrow> pc s j = C_wait \<Longrightarrow> mq_step s (goto (goto s j C_woken) i P_start)"
| p_nobody: "pc s i = P_signal \<Longrightarrow> (\<forall>j. pc s j \<noteq> C_wait) \<Longrightarrow> mq_step s (goto s i P_start)"

definition mq_init :: "mqueue \<Rightarrow> bool" where
  "mq_init s \<longleftrightarrow> workq s = 0 \<and> qlock s = None \<and> enqueued s = [] \<and> processed s = [] \<and>
     (\<forall>i. pc s i = C_start \<or> pc s i = P_start)"

section \<open>The invariant\<close>

text \<open>The message a consumer has taken off the queue but not yet returned with.\<close>

definition in_flight :: "mqueue \<Rightarrow> nat multiset" where
  "in_flight s = (case qlock s of None \<Rightarrow> {#}
     | Some i \<Rightarrow> (case pc s i of C_unlock m \<Rightarrow> {#m#} | _ \<Rightarrow> {#}))"

definition lock_inv :: "mqueue \<Rightarrow> bool" where
  "lock_inv s \<longleftrightarrow> (\<forall>i. holds_lock (pc s i) \<longleftrightarrow> qlock s = Some i)"

definition owner_inv :: "mqueue \<Rightarrow> bool" where
  "owner_inv s \<longleftrightarrow> (\<forall>i. holds_msg (pc s i) \<noteq> Some 0) \<and>
     (\<forall>i j m. holds_msg (pc s i) = Some m \<longrightarrow> holds_msg (pc s j) = Some m \<longrightarrow> i = j)"

definition queued :: "mqueue \<Rightarrow> nat list \<Rightarrow> bool" where
  "queued s ms \<longleftrightarrow> chain (m_next s) (workq s) ms \<and> distinct ms \<and>
     (\<forall>i m. holds_msg (pc s i) = Some m \<longrightarrow> m \<notin> set ms) \<and>
     mset (enqueued s) = mset (processed s) + in_flight s + mset ms"

definition wake_inv :: "mqueue \<Rightarrow> bool" where
  "wake_inv s \<longleftrightarrow> workq s = 0 \<or> (\<exists>i. consumer (pc s i) \<and> pc s i \<noteq> C_wait) \<or>
     (\<exists>i. pc s i = P_unlock \<or> pc s i = P_signal) \<or> (\<forall>i. \<not> consumer (pc s i))"

definition mq_inv :: "mqueue \<Rightarrow> bool" where
  "mq_inv s \<longleftrightarrow> lock_inv s \<and> owner_inv s \<and> (\<exists>ms. queued s ms) \<and> wake_inv s"

lemma chain_Cons_iff:
  "chain nx p (m # ms) \<longleftrightarrow> p = m \<and> m \<noteq> 0 \<and> (\<exists>q. nx m = Some q \<and> chain nx q ms)"
  by (auto split: option.splits)

declare chain.simps(2) [simp del]
declare chain_Cons_iff [simp]

lemma chain_0: "chain nx 0 ms \<longleftrightarrow> ms = []"
  by (cases ms) auto

lemma chain_upd: "m \<notin> set ms \<Longrightarrow> chain (nx(m \<mapsto> q)) p ms \<longleftrightarrow> chain nx p ms"
  by (induction ms arbitrary: p) auto

lemma chain_unique: "chain nx p ms \<Longrightarrow> chain nx p ms' \<Longrightarrow> ms = ms'"
proof (induction ms arbitrary: p ms')
  case Nil
  then show ?case by (simp add: chain_0)
next
  case (Cons m ms)
  then show ?case by (cases ms') auto
qed

text \<open>A step moves one thread, which takes the lock, gives it up, or neither.\<close>

lemma lock_taken:
  assumes "lock_inv s" "qlock s = None" "pc t = (pc s)(i := p)" "qlock t = Some i" "holds_lock p"
  shows "lock_inv t"
  using assms by (simp add: lock_inv_def)

lemma lock_released:
  assumes "lock_inv s" "holds_lock (pc s i)" "pc t = (pc s)(i := p)" "qlock t = None" "\<not> holds_lock p"
  shows "lock_inv t"
  using assms by (auto simp: lock_inv_def)

lemma lock_kept:
  assumes "lock_inv s" "pc t = (pc s)(i := p)" "qlock t = qlock s" "holds_lock p = holds_lock (pc s i)"
  shows "lock_inv t"
  using assms by (simp add: lock_inv_def)

lemma lock_step:
  assumes inv: "lock_inv s" and "mq_step s t"
  shows "lock_inv t"
  using assms(2)
proof cases
  case (c_lock i)
  show ?thesis by (rule lock_taken [OF inv, where p = C_test]) (simp_all add: c_lock)
next
  case (c_wait i)
  show ?thesis by (rule lock_released [OF inv, of i, where p = C_wait]) (simp_all add: c_wait)
next
  case (c_spurious i)
  show ?thesis by (rule lock_kept [OF inv, where i = i and p = C_woken]) (simp_all add: c_spurious)
next
  case (c_relock i)
  show ?thesis by (rule lock_taken [OF inv, where p = C_test]) (simp_all add: c_relock)
next
  case (c_take i m q)
  show ?thesis by (rule lock_kept [OF inv, where i = i and p = "C_unlock m"]) (simp_all add: c_take)
next
  case (c_unlock i m)
  show ?thesis by (rule lock_released [OF inv, of i, where p = C_start]) (simp_all add: c_unlock)
next
  case (p_call i m ms)
  show ?thesis by (rule lock_kept [OF inv, where i = i and p = "P_lock m"]) (simp_all add: p_call)
next
  case (p_lock i m)
  show ?thesis by (rule lock_taken [OF inv, where p = "P_push m"]) (simp_all add: p_lock)
next
  case (p_push i m)
  show ?thesis by (rule lock_kept [OF inv, where i = i and p = P_unlock]) (simp_all add: p_push)
next
  case (p_unlock i)
  show ?thesis by (rule lock_released [OF inv, of i, where p = P_signal]) (simp_all add: p_unlock)
next
  case (p_signal i j)
  have "lock_inv (goto s j C_woken)"
    by (rule lock_kept [OF inv, where i = j and p = C_woken]) (simp_all add: p_signal)
  then show ?thesis
    by (rule lock_kept [where i = i and p = P_start]) (auto simp: p_signal)
next
  case (p_nobody i)
  show ?thesis by (rule lock_kept [OF inv, where i = i and p = P_start]) (simp_all add: p_nobody)
qed

text \<open>Who holds a message, and where the queue's messages are.\<close>

lemma owner_moved:
  assumes "owner_inv s" "pc t = (pc s)(i := p)"
    and "holds_msg p = None \<or> holds_msg p = holds_msg (pc s i) \<or>
      (\<exists>m. holds_msg p = Some m \<and> m \<noteq> 0 \<and> (\<forall>j. j \<noteq> i \<longrightarrow> holds_msg (pc s j) \<noteq> Some m))"
  shows "owner_inv t"
proof -
  have uniq: "holds_msg (pc s j) = Some m \<Longrightarrow> holds_msg (pc s k) = Some m \<Longrightarrow> j = k"
    and nz: "holds_msg (pc s j) \<noteq> Some 0" for j k m
    using assms(1) by (auto simp: owner_inv_def)
  have other: "j = i" if "holds_msg p = Some m" "holds_msg (pc s j) = Some m" for j m
    using assms(3) uniq [of j m i] that by auto
  have "holds_msg p \<noteq> Some 0" using assms(3) nz by auto
  with nz uniq other show ?thesis
    unfolding owner_inv_def assms(2) by (simp add: fun_upd_apply split: if_splits)
qed

lemma queued_kept:
  assumes "queued s ms" "pc t = (pc s)(i := p)" "m_next t = m_next s" "workq t = workq s"
    and "enqueued t = enqueued s" "processed t = processed s" "in_flight t = in_flight s"
    and "holds_msg p = None \<or> holds_msg p = holds_msg (pc s i) \<or> (\<exists>m. holds_msg p = Some m \<and> m \<notin> set ms)"
  shows "queued t ms"
  using assms by (auto simp: queued_def)

lemma wake_moved:
  assumes "wake_inv s" "pc t = (pc s)(i := p)" "workq t = workq s" "consumer p = consumer (pc s i)" "p \<noteq> C_wait"
    and "consumer p \<or> p = P_unlock \<or> p = P_signal \<or> (pc s i \<noteq> P_unlock \<and> pc s i \<noteq> P_signal)"
  shows "wake_inv t"
proof (cases "consumer p")
  case True
  with assms show ?thesis by (auto simp: wake_inv_def)
next
  case False
  with assms show ?thesis
    unfolding wake_inv_def by (metis fun_upd_apply)
qed

lemma lock_idle: "lock_inv s \<Longrightarrow> \<not> holds_lock (pc s i) \<Longrightarrow> qlock s \<noteq> Some i"
  by (simp add: lock_inv_def)

lemma lock_held: "lock_inv s \<Longrightarrow> holds_lock (pc s i) \<Longrightarrow> qlock s = Some i"
  by (simp add: lock_inv_def)

lemma owner_step:
  assumes inv: "owner_inv s" "queued s ms" and "mq_step s t"
  shows "owner_inv t"
  using assms(3)
proof cases
  case (c_take i m q)
  with inv(2) have "m \<in> set ms" by (cases ms) (auto simp: queued_def)
  with inv(2) have "\<forall>j. holds_msg (pc s j) \<noteq> Some m" by (auto simp: queued_def)
  then have "holds_msg (C_unlock m) = Some m \<and> m \<noteq> 0 \<and> (\<forall>j. j \<noteq> i \<longrightarrow> holds_msg (pc s j) \<noteq> Some m)"
    using c_take by simp
  then show ?thesis
    by (intro owner_moved [OF inv(1), where i = i and p = "C_unlock m"] disjI2 exI) (simp_all only: c_take(1), simp_all)
next
  case (p_signal i j)
  have "owner_inv (goto s j C_woken)"
    by (rule owner_moved [OF inv(1), where i = j and p = C_woken]) (simp_all add: p_signal)
  then show ?thesis
    by (rule owner_moved [where i = i and p = P_start]) (auto simp: p_signal)
next
  case (c_lock i)
  show ?thesis by (rule owner_moved [OF inv(1), where i = i and p = C_test]) (simp_all add: c_lock)
next
  case (c_wait i)
  show ?thesis by (rule owner_moved [OF inv(1), where i = i and p = C_wait]) (simp_all add: c_wait)
next
  case (c_spurious i)
  show ?thesis by (rule owner_moved [OF inv(1), where i = i and p = C_woken]) (simp_all add: c_spurious)
next
  case (c_relock i)
  show ?thesis by (rule owner_moved [OF inv(1), where i = i and p = C_test]) (simp_all add: c_relock)
next
  case (c_unlock i m)
  show ?thesis by (rule owner_moved [OF inv(1), where i = i and p = C_start]) (simp_all add: c_unlock)
next
  case (p_call i m ms)
  then show ?thesis by (intro owner_moved [OF inv(1), where i = i and p = "P_lock m"]) simp_all
next
  case (p_lock i m)
  show ?thesis by (rule owner_moved [OF inv(1), where i = i and p = "P_push m"]) (simp_all add: p_lock)
next
  case (p_push i m)
  show ?thesis by (rule owner_moved [OF inv(1), where i = i and p = P_unlock]) (simp_all add: p_push)
next
  case (p_unlock i)
  show ?thesis by (rule owner_moved [OF inv(1), where i = i and p = P_signal]) (simp_all add: p_unlock)
next
  case (p_nobody i)
  show ?thesis by (rule owner_moved [OF inv(1), where i = i and p = P_start]) (simp_all add: p_nobody)
qed

lemma flight_idle:
  assumes "lock_inv s" "\<not> holds_lock (pc s i)" "pc t = (pc s)(i := p)" "qlock t = qlock s"
  shows "in_flight t = in_flight s"
  using lock_idle [OF assms(1,2)] assms(3,4) by (auto simp: in_flight_def split: option.splits)

lemma queued_idle:
  assumes "lock_inv s" "queued s ms" "\<not> holds_lock (pc s i)" "pc t = (pc s)(i := p)" "qlock t = qlock s"
    and "m_next t = m_next s" "workq t = workq s" "enqueued t = enqueued s" "processed t = processed s"
    and "holds_msg p = None \<or> holds_msg p = holds_msg (pc s i) \<or> (\<exists>m. holds_msg p = Some m \<and> m \<notin> set ms)"
  shows "queued t ms"
  by (rule queued_kept [OF assms(2,4,6-9) flight_idle [OF assms(1,3-5)] assms(10)])

lemma owner_alone:
  assumes "owner_inv s" "holds_msg (pc s i) = Some m"
  shows "m \<noteq> 0 \<and> (\<forall>j. j \<noteq> i \<longrightarrow> holds_msg (pc s j) \<noteq> Some m)"
proof -
  have "m \<noteq> 0"
  proof
    assume "m = 0"
    with assms show False by (simp add: owner_inv_def)
  qed
  with assms show ?thesis unfolding owner_inv_def by blast
qed

lemma queued_step:
  assumes lock: "lock_inv s" and own: "owner_inv s" and q: "queued s ms" and "mq_step s t"
  shows "\<exists>ms'. queued t ms'"
  using assms(4)
proof cases
  case (c_lock i)
  show ?thesis
    by (rule exI, rule queued_kept [OF q, where i = i and p = C_test]) (simp_all add: c_lock in_flight_def)
next
  case (c_relock i)
  show ?thesis
    by (rule exI, rule queued_kept [OF q, where i = i and p = C_test]) (simp_all add: c_relock in_flight_def)
next
  case (p_lock i m)
  show ?thesis
    by (rule exI, rule queued_kept [OF q, where i = i and p = "P_push m"]) (simp_all add: p_lock in_flight_def)
next
  case (c_wait i)
  have e: "in_flight s = {#}" using lock_held [OF lock, of i] by (simp add: c_wait in_flight_def)
  show ?thesis
    by (rule exI, rule queued_kept [OF q, where i = i and p = C_wait]) (use e in \<open>simp_all add: c_wait in_flight_def\<close>)
next
  case (p_unlock i)
  have e: "in_flight s = {#}" using lock_held [OF lock, of i] by (simp add: p_unlock in_flight_def)
  show ?thesis
    by (rule exI, rule queued_kept [OF q, where i = i and p = P_signal]) (use e in \<open>simp_all add: p_unlock in_flight_def\<close>)
next
  case (c_spurious i)
  show ?thesis by (rule exI, rule queued_idle [OF lock q, where i = i and p = C_woken]) (simp_all add: c_spurious)
next
  case (p_nobody i)
  show ?thesis by (rule exI, rule queued_idle [OF lock q, where i = i and p = P_start]) (simp_all add: p_nobody)
next
  case (p_signal i j)
  let ?u = "goto s j C_woken"
  have lu: "lock_inv ?u" by (rule lock_kept [OF lock, where i = j and p = C_woken]) (simp_all add: p_signal(3))
  have qu: "queued ?u ms" by (rule queued_idle [OF lock q, where i = j and p = C_woken]) (simp_all add: p_signal(3))
  show ?thesis by (rule exI, rule queued_idle [OF lu qu, where i = i and p = P_start]) (auto simp: p_signal)
next
  case (p_call i m ms')
  then have "ms' = ms" using q chain_unique by (auto simp: queued_def)
  with p_call show ?thesis by (intro exI [of _ ms] queued_idle [OF lock q, where i = i and p = "P_lock m"]) simp_all
next
  case (c_unlock i m)
  have "in_flight s = {#m#}" using lock_held [OF lock, of i] by (simp add: c_unlock in_flight_def)
  with q have "queued t ms" by (auto simp: queued_def c_unlock in_flight_def)
  then show ?thesis ..
next
  case (c_take i m n)
  have k: "qlock s = Some i" using lock_held [OF lock, of i] by (simp add: c_take)
  from q c_take obtain ms' where ms: "ms = m # ms'" "chain (m_next s) n ms'"
    by (cases ms) (auto simp: queued_def)
  with q have "queued t ms'" using k by (auto simp: queued_def c_take in_flight_def)
  then show ?thesis ..
next
  case (p_push i m)
  have k: "qlock s = Some i" using lock_held [OF lock, of i] by (simp add: p_push)
  have hm: "holds_msg (pc s i) = Some m" by (simp add: p_push)
  have "m \<notin> set ms" using q hm unfolding queued_def by blast
  moreover have "m \<noteq> 0 \<and> (\<forall>j. j \<noteq> i \<longrightarrow> holds_msg (pc s j) \<noteq> Some m)" using owner_alone [OF own hm] .
  ultimately have "queued t (m # ms)"
    using q k by (auto simp: queued_def p_push in_flight_def chain_upd)
  then show ?thesis ..
qed

lemma wake_step:
  assumes w: "wake_inv s" and "mq_step s t"
  shows "wake_inv t"
  using assms(2)
proof cases
  case (c_wait i)
  then show ?thesis by (simp add: wake_inv_def)
next
  case (p_push i m)
  then show ?thesis unfolding wake_inv_def by (intro disjI2 disjI1 exI [of _ i]) simp
next
  case (p_unlock i)
  then show ?thesis unfolding wake_inv_def by (intro disjI2 disjI1 exI [of _ i]) simp
next
  case (p_signal i j)
  then have "i \<noteq> j" by auto
  with p_signal show ?thesis unfolding wake_inv_def by (intro disjI2 disjI1 exI [of _ j]) simp
next
  case (p_nobody i)
  then show ?thesis unfolding wake_inv_def by (metis consumer.simps(6) fun_upd_apply mqueue.select_convs(4) mqueue.surjective mqueue.update_convs(4))
next
  case (c_take i m q)
  then show ?thesis unfolding wake_inv_def by (intro disjI2 disjI1 exI [of _ i]) simp
next
  case (c_lock i)
  show ?thesis by (rule wake_moved [OF w, where i = i and p = C_test]) (simp_all add: c_lock)
next
  case (c_spurious i)
  show ?thesis by (rule wake_moved [OF w, where i = i and p = C_woken]) (simp_all add: c_spurious)
next
  case (c_relock i)
  show ?thesis by (rule wake_moved [OF w, where i = i and p = C_test]) (simp_all add: c_relock)
next
  case (c_unlock i m)
  show ?thesis by (rule wake_moved [OF w, where i = i and p = C_start]) (simp_all add: c_unlock)
next
  case (p_call i m ms)
  show ?thesis by (rule wake_moved [OF w, where i = i and p = "P_lock m"]) (simp_all add: p_call(1,2))
next
  case (p_lock i m)
  show ?thesis by (rule wake_moved [OF w, where i = i and p = "P_push m"]) (simp_all add: p_lock)
qed

lemma mq_init_inv: "mq_init s \<Longrightarrow> mq_inv s"
proof -
  assume init: "mq_init s"
  then have pcs: "holds_lock (pc s i) = False" "holds_msg (pc s i) = None" for i
    by (metis (full_types) holds_lock.simps holds_msg.simps mq_init_def)+
  with init have "queued s []" by (simp add: queued_def in_flight_def mq_init_def)
  then show ?thesis
    using init pcs by (auto simp: mq_inv_def lock_inv_def owner_inv_def wake_inv_def mq_init_def)
qed

interpretation mq: safe_machine mq_init mq_step mq_inv
proof unfold_locales
  show "mq_inv s" if "mq_init s" for s using that by (rule mq_init_inv)
  show "mq_inv t" if "mq_inv s" "mq_step s t" for s t
    using that lock_step owner_step queued_step wake_step unfolding mq_inv_def by metis
qed

section \<open>Properties\<close>

text \<open>
  C5. In every interleaving the mutex excludes: no two threads are between taking and giving up
  \<open>qlock\<close>. The queue is a well-formed acyclic chain, and no message is lost or handed out twice:
  what was enqueued is what was processed, what a consumer is carrying off, and what is queued.
\<close>

theorem work_queue_conserves:
  assumes "reach mq_init mq_step s"
  shows "(\<exists>ms. chain (m_next s) (workq s) ms \<and> distinct ms \<and>
      mset (enqueued s) = mset (processed s) + in_flight s + mset ms) \<and>
    {i. holds_lock (pc s i)} = set_option (qlock s)"
proof -
  have "mq_inv s" using assms by (rule mq.reach_inv)
  then show ?thesis by (auto simp: mq_inv_def queued_def lock_inv_def)
qed

text \<open>
  C6. No wakeup is lost although \<open>enqueue_msg\<close> signals after it has unlocked: whenever messages
  are queued and every consumer waits, some producer has still to signal.
\<close>

theorem no_lost_wakeup:
  assumes "reach mq_init mq_step s" and "workq s \<noteq> 0"
    and "\<forall>i. consumer (pc s i) \<longrightarrow> pc s i = C_wait" and "consumer (pc s c)"
  shows "\<exists>i. pc s i = P_unlock \<or> pc s i = P_signal"
proof -
  have "mq_inv s" using assms(1) by (rule mq.reach_inv)
  with assms show ?thesis by (auto simp: mq_inv_def wake_inv_def)
qed

text \<open>A run: thread 0 waits, thread 2 enqueues message 7 and is about to signal.\<close>

definition waiting_run :: mqueue where
  "waiting_run = \<lparr>m_next = [7 \<mapsto> 0], workq = 7, qlock = None,
     pc = (\<lambda>i. if i = 0 then C_wait else if i = 2 then P_signal else P_start),
     enqueued = [7], processed = []\<rparr>"

lemma waiting_run_reached: "reach mq_init mq_step waiting_run"
proof -
  let ?st = "\<lambda>nx w l p q e. \<lparr>m_next = nx, workq = w, qlock = l,
     pc = (\<lambda>i. if i = 0 then p else if i = 2 then q else P_start), enqueued = e, processed = []\<rparr>"
  let ?R = "reach mq_init mq_step"
  note step = reach_step [where init = mq_init and step = mq_step]
  have upd: "(\<lambda>i::nat. if i = 0 then a else if i = 2 then b else P_start)(0 := a') =
      (\<lambda>i. if i = 0 then a' else if i = 2 then b else P_start)"
    "(\<lambda>i::nat. if i = 0 then a else if i = 2 then b else P_start)(2 := b') =
      (\<lambda>i. if i = 0 then a else if i = 2 then b' else P_start)" for a b a' b' :: tpc
    by (rule ext; simp)+
  have "?R (?st Map.empty 0 None C_start P_start [])"
    by (rule reach_init) (simp add: mq_init_def)
  from step [OF this c_lock [where i = 0]]
  have "?R (?st Map.empty 0 (Some 0) C_test P_start [])" by (simp add: upd)
  from step [OF this c_wait [where i = 0]]
  have "?R (?st Map.empty 0 None C_wait P_start [])" by (simp add: upd)
  have free: "\<forall>j :: nat. holds_msg (if j = 0 then C_wait else if j = 2 then P_start else P_start) \<noteq> Some 7"
    by simp
  from step [OF \<open>?R (?st Map.empty 0 None C_wait P_start [])\<close> p_call [where i = 2 and m = 7 and ms = "[]"]]
  have "?R (?st Map.empty 0 None C_wait (P_lock 7) [])" using free by (simp add: upd)
  from step [OF this p_lock [where i = 2 and m = 7]]
  have "?R (?st Map.empty 0 (Some 2) C_wait (P_push 7) [])" by (simp add: upd)
  from step [OF this p_push [where i = 2 and m = 7]]
  have "?R (?st [7 \<mapsto> 0] 7 (Some 2) C_wait P_unlock [7])" by (simp add: upd)
  from step [OF this p_unlock [where i = 2]]
  have "?R (?st [7 \<mapsto> 0] 7 None C_wait P_signal [7])" by (simp add: upd)
  then show ?thesis by (simp add: waiting_run_def)
qed

theorem work_queue_conserves_witness:
  "(\<exists>ms. chain (m_next waiting_run) (workq waiting_run) ms \<and> distinct ms \<and>
      mset (enqueued waiting_run) = mset (processed waiting_run) + in_flight waiting_run + mset ms) \<and>
    {i. holds_lock (pc waiting_run i)} = set_option (qlock waiting_run)"
  by (rule work_queue_conserves [OF waiting_run_reached])

theorem no_lost_wakeup_witness: "\<exists>i. pc waiting_run i = P_unlock \<or> pc waiting_run i = P_signal"
  by (rule no_lost_wakeup [OF waiting_run_reached, where c = 0]) (auto simp: waiting_run_def)

end
