(* ===== verification/CString.thy ===== *)
theory CString imports Prelude
begin

text \<open>
  The string routines of the C library that \<open>lib\<close> calls, on bounded buffers. A buffer is the
  list of its bytes; a routine that would read or write past its end is \<open>None\<close>.
\<close>

section \<open>Routines\<close>

definition strlen :: "char list \<Rightarrow> nat option" where
  "strlen buf = (if NUL \<in> set buf then Some (length (c_str buf)) else None)"

text \<open>\<open>strcpy(buf + off, s)\<close>, \<open>strcat(buf, s)\<close>, and \<open>strncpy\<close> with its padding.\<close>

definition strcpy_at :: "char list \<Rightarrow> nat \<Rightarrow> string \<Rightarrow> char list option" where
  "strcpy_at buf off s = blit buf off (s @ [NUL])"

definition strcat :: "char list \<Rightarrow> string \<Rightarrow> char list option" where
  "strcat buf s = do { n \<leftarrow> strlen buf; strcpy_at buf n s }"

definition strncpy :: "char list \<Rightarrow> nat \<Rightarrow> string \<Rightarrow> nat \<Rightarrow> char list option" where
  "strncpy buf off s n = blit buf off (take n s @ replicate (n - length s) NUL)"

text \<open>\<open>snprintf(buf + off, size, ...)\<close> whose formatted text is \<open>s\<close>.\<close>

definition snprintf_at :: "char list \<Rightarrow> nat \<Rightarrow> nat \<Rightarrow> string \<Rightarrow> char list option" where
  "snprintf_at buf off sz s =
     (if sz = 0 then Some buf else strcpy_at buf off (take (sz - 1) s))"

text \<open>Decimal output of an \<open>int\<close>, as \<open>%d\<close> prints it.\<close>

definition digit :: "nat \<Rightarrow> char" where
  "digit d = char_of (48 + d)"

fun udec :: "nat \<Rightarrow> string" where
  "udec n = (if n < 10 then [digit n] else udec (n div 10) @ [digit (n mod 10)])"

declare udec.simps [simp del]

definition dec :: "int \<Rightarrow> string" where
  "dec i = (if i < 0 then CHR ''-'' # udec (nat (- i)) else udec (nat i))"

section \<open>Their effect\<close>

lemma strlen_holds: "nul_free s \<Longrightarrow> strlen (s @ NUL # rest) = Some (length s)"
  by (simp add: strlen_def)

text \<open>\<open>holds buf s\<close>: the buffer contains the C string \<open>s\<close>.\<close>

definition holds :: "char list \<Rightarrow> string \<Rightarrow> bool" where
  "holds buf s \<longleftrightarrow> nul_free s \<and> (\<exists>rest. buf = s @ NUL # rest)"

lemma holds_strlen: "holds buf s \<Longrightarrow> strlen buf = Some (length s)"
  by (auto simp: holds_def strlen_holds)

lemma holds_c_str: "holds buf s \<Longrightarrow> c_str buf = s"
  by (auto simp: holds_def)

lemma holds_length: "holds buf s \<Longrightarrow> length s < length buf"
  by (auto simp: holds_def)

lemma strcpy_at_0:
  assumes "nul_free s" "length s < length buf"
  shows "\<exists>buf'. strcpy_at buf 0 s = Some buf' \<and> holds buf' s \<and> length buf' = length buf"
  using assms by (auto simp: strcpy_at_def blit_def holds_def)

lemma strcpy_at_end:
  assumes "holds buf s" "nul_free t" "length s + length t < length buf"
  shows "\<exists>buf'. strcpy_at buf (length s) t = Some buf' \<and> holds buf' (s @ t) \<and> length buf' = length buf"
  using assms by (auto simp: strcpy_at_def blit_def holds_def)

lemma strcat_holds:
  assumes "holds buf s" "nul_free t" "length s + length t < length buf"
  shows "\<exists>buf'. strcat buf t = Some buf' \<and> holds buf' (s @ t) \<and> length buf' = length buf"
  using strcpy_at_end [OF assms] holds_strlen [OF assms(1)] by (simp add: strcat_def)

lemma strcpy_overflows: "length buf \<le> off + length s \<Longrightarrow> strcpy_at buf off s = None"
  by (simp add: strcpy_at_def blit_def)

lemma length_udec: "n < 10 ^ Suc k \<Longrightarrow> length (udec n) \<le> Suc k"
proof (induction k arbitrary: n)
  case 0
  then show ?case by (subst udec.simps) simp
next
  case (Suc k)
  then have "n div 10 < 10 ^ Suc k" by (simp add: less_mult_imp_div_less)
  from Suc.IH [OF this] show ?case by (subst udec.simps) simp
qed

lemma digit_not_NUL: "d < 10 \<Longrightarrow> digit d \<noteq> NUL"
proof
  assume "d < 10" and "digit d = NUL"
  then have "(of_char (char_of (48 + d)) :: nat) = of_char NUL" by (simp add: digit_def)
  then have "(48 + d) mod 256 = of_char NUL" by (simp only: of_char_of)
  with \<open>d < 10\<close> show False by (simp add: NUL_def)
qed

lemma nul_free_udec [simp]: "nul_free (udec n)"
proof (induction n rule: udec.induct)
  case (1 n)
  have "digit (n mod 10) \<noteq> NUL" by (simp add: digit_not_NUL)
  with 1 show ?case by (subst udec.simps) (simp add: digit_not_NUL)
qed

lemma nul_free_dec [simp]: "nul_free (dec i)"
  by (simp add: dec_def NUL_def)

lemma length_dec:
  assumes "- INT_MAX - 1 \<le> i" "i \<le> INT_MAX"
  shows "length (dec i) \<le> 11"
proof -
  have "nat (abs i) < 10 ^ Suc 9" using assms by (auto simp: INT_MAX_def)
  from length_udec [OF this] show ?thesis by (auto simp: dec_def split: abs_split)
qed

end
