(* ===== verification/ErrorLog.thy ===== *)
theory ErrorLog imports CString
begin

text \<open>
  The error routines of \<open>lib/error.c\<close> and the daemon's of \<open>lib/errorlog.c\<close>, and
  \<open>lib/strerror.c\<close>. A routine gets the text its format and arguments expand to; it returns the
  calls it made on the output streams and how it ended. \<open>strerr\<close> is the C library's
  \<open>strerror\<close>; \<open>buf\<close> is the uninitialised buffer on the stack.
\<close>

section \<open>Definitions\<close>

definition MAXLINE :: nat where "MAXLINE = 4096"

datatype io =
    FlushStdout | FlushStderr | FlushAll
  | Stderr string
  | Openlog string int int
  | Syslog int string

definition LOG_ERR :: int where "LOG_ERR = 3"

text \<open>The common part of \<open>err_doit\<close> and \<open>log_doit\<close>: the line in the buffer.\<close>

definition format_line :: "(int \<Rightarrow> string) \<Rightarrow> char list \<Rightarrow> bool \<Rightarrow> int \<Rightarrow> string \<Rightarrow> string option" where
  "format_line strerr buf errnoflag error msg = do {
     buf \<leftarrow> snprintf_at buf 0 (MAXLINE - 1) msg;
     buf \<leftarrow> (if errnoflag then do {
         n \<leftarrow> strlen buf;
         snprintf_at buf n (MAXLINE - n - 1) ('': '' @ strerr error) }
       else Some buf);
     buf \<leftarrow> strcat buf [CHR 0x0A];
     Some (c_str buf) }"

definition err_doit :: "(int \<Rightarrow> string) \<Rightarrow> char list \<Rightarrow> bool \<Rightarrow> int \<Rightarrow> string \<Rightarrow> io list option" where
  "err_doit strerr buf errnoflag error msg = do {
     line \<leftarrow> format_line strerr buf errnoflag error msg;
     Some [FlushStdout, Stderr line, FlushAll] }"

definition log_doit ::
  "(int \<Rightarrow> string) \<Rightarrow> char list \<Rightarrow> bool \<Rightarrow> bool \<Rightarrow> int \<Rightarrow> int \<Rightarrow> string \<Rightarrow> io list option" where
  "log_doit strerr buf log_to_stderr errnoflag error priority msg = do {
     line \<leftarrow> format_line strerr buf errnoflag error msg;
     Some (if log_to_stderr then [FlushStdout, Stderr line, FlushStderr] else [Syslog priority line]) }"

text \<open>What a routine does after printing.\<close>

definition print_then :: "io list option \<Rightarrow> unit outcome \<Rightarrow> io list \<times> unit outcome" where
  "print_then out next = (case out of None \<Rightarrow> ([], Undef) | Some ios \<Rightarrow> (ios, next))"

datatype err_routine = Err_ret | Err_sys | Err_cont int | Err_exit int | Err_dump | Err_msg | Err_quit

datatype log_routine = Log_ret | Log_sys | Log_msg | Log_quit | Log_exit int

fun err_call :: "(int \<Rightarrow> string) \<Rightarrow> char list \<Rightarrow> int \<Rightarrow> err_routine \<Rightarrow> string \<Rightarrow> io list \<times> unit outcome" where
  "err_call se buf errno Err_ret msg = print_then (err_doit se buf True errno msg) (Ret ())"
| "err_call se buf errno Err_sys msg = print_then (err_doit se buf True errno msg) (Exits 1)"
| "err_call se buf errno (Err_cont error) msg = print_then (err_doit se buf True error msg) (Ret ())"
| "err_call se buf errno (Err_exit error) msg = print_then (err_doit se buf True error msg) (Exits 1)"
| "err_call se buf errno Err_dump msg = print_then (err_doit se buf True errno msg) Aborts"
| "err_call se buf errno Err_msg msg = print_then (err_doit se buf False 0 msg) (Ret ())"
| "err_call se buf errno Err_quit msg = print_then (err_doit se buf False 0 msg) (Exits 1)"

fun log_call ::
  "(int \<Rightarrow> string) \<Rightarrow> char list \<Rightarrow> bool \<Rightarrow> int \<Rightarrow> log_routine \<Rightarrow> string \<Rightarrow> io list \<times> unit outcome"
where
  "log_call se buf lts errno Log_ret msg = print_then (log_doit se buf lts True errno LOG_ERR msg) (Ret ())"
| "log_call se buf lts errno Log_sys msg = print_then (log_doit se buf lts True errno LOG_ERR msg) (Exits 2)"
| "log_call se buf lts errno Log_msg msg = print_then (log_doit se buf lts False 0 LOG_ERR msg) (Ret ())"
| "log_call se buf lts errno Log_quit msg = print_then (log_doit se buf lts False 0 LOG_ERR msg) (Exits 2)"
| "log_call se buf lts errno (Log_exit error) msg =
     print_then (log_doit se buf lts True error LOG_ERR msg) (Exits 2)"

definition log_open :: "bool \<Rightarrow> string \<Rightarrow> int \<Rightarrow> int \<Rightarrow> io list" where
  "log_open log_to_stderr ident option facility =
     (if \<not> log_to_stderr then [Openlog ident option facility] else [])"

text \<open>\<open>lib/strerror.c\<close>, given the system's table; \<open>mesg\<close> has 30 bytes.\<close>

definition strerror :: "string list \<Rightarrow> char list \<Rightarrow> int \<Rightarrow> string option" where
  "strerror sys_errlist mesg error =
     (if error \<ge> 0 \<and> error \<le> int (length sys_errlist) then load sys_errlist (nat error)
      else do {
        mesg \<leftarrow> strcpy_at mesg 0 (''Unknown error ('' @ dec error @ '')'');
        Some (c_str mesg) })"

section \<open>The line always fits\<close>

text \<open>What is printed: the message and the error text, cut to 4094 bytes, and a newline.\<close>

definition error_line :: "(int \<Rightarrow> string) \<Rightarrow> bool \<Rightarrow> int \<Rightarrow> string \<Rightarrow> string" where
  "error_line strerr errnoflag error msg =
     take 4094 (msg @ (if errnoflag then '': '' @ strerr error else [])) @ [CHR 0x0A]"

lemma format_line_eq:
  assumes "length buf = MAXLINE" and "nul_free msg" and "nul_free (strerr error)"
  shows "format_line strerr buf errnoflag error msg = Some (error_line strerr errnoflag error msg)"
proof -
  let ?m = "take 4094 msg" and ?e = "'': '' @ strerr error"
  from assms obtain b1 where b1: "strcpy_at buf 0 ?m = Some b1" "holds b1 ?m" "length b1 = 4096"
    using strcpy_at_0 [of ?m buf] by (auto simp: MAXLINE_def min_less_iff_disj)
  have nf: "nul_free ?e" using assms by (simp add: NUL_def)
  have nl: "nul_free [CHR 0x0A]" by (simp add: NUL_def)
  let ?x = "if errnoflag then take (4094 - length ?m) ?e else []"
  have "\<exists>b2. (if errnoflag then do { n \<leftarrow> strlen b1; snprintf_at b1 n (MAXLINE - n - 1) ?e } else Some b1) = Some b2 \<and>
      holds b2 (?m @ ?x) \<and> length b2 = 4096"
  proof (cases errnoflag)
    case False
    with b1 show ?thesis by simp
  next
    case True
    have "\<exists>b2. strcpy_at b1 (length ?m) (take (4094 - length ?m) ?e) = Some b2 \<and>
        holds b2 (?m @ take (4094 - length ?m) ?e) \<and> length b2 = length b1"
      using b1 nf by (intro strcpy_at_end) (auto simp: min_def)
    with True b1 holds_strlen [OF b1(2)] show ?thesis
      by (simp add: snprintf_at_def MAXLINE_def)
  qed
  then obtain b2 where b2: "(if errnoflag then do { n \<leftarrow> strlen b1; snprintf_at b1 n (MAXLINE - n - 1) ?e } else Some b1) = Some b2"
      "holds b2 (?m @ ?x)" "length b2 = 4096" by blast
  have "length (?m @ ?x) \<le> 4094" by (auto simp: min_def)
  with b2 strcat_holds [OF b2(2) nl] obtain b3 where "strcat b2 [CHR 0x0A] = Some b3" "holds b3 ((?m @ ?x) @ [CHR 0x0A])"
    by auto
  moreover have "?m @ ?x = take 4094 (msg @ (if errnoflag then ?e else []))" by (simp add: min_def)
  ultimately show ?thesis
    using b1 b2 by (simp add: format_line_def snprintf_at_def MAXLINE_def error_line_def holds_c_str)
qed

section \<open>What the routines promise\<close>

text \<open>The error whose text is appended, if any, and how the routine ends.\<close>

definition err_reported :: "int \<Rightarrow> err_routine \<Rightarrow> int option" where
  "err_reported errno r = (case r of
       Err_msg \<Rightarrow> None | Err_quit \<Rightarrow> None | Err_cont e \<Rightarrow> Some e | Err_exit e \<Rightarrow> Some e | _ \<Rightarrow> Some errno)"

definition log_reported :: "int \<Rightarrow> log_routine \<Rightarrow> int option" where
  "log_reported errno r = (case r of
       Log_msg \<Rightarrow> None | Log_quit \<Rightarrow> None | Log_exit e \<Rightarrow> Some e | _ \<Rightarrow> Some errno)"

definition err_ending :: "err_routine \<Rightarrow> unit outcome" where
  "err_ending r = (if r = Err_dump then Aborts
     else if r = Err_ret \<or> r = Err_msg \<or> (\<exists>e. r = Err_cont e) then Ret () else Exits 1)"

definition log_ending :: "log_routine \<Rightarrow> unit outcome" where
  "log_ending r = (if r = Log_ret \<or> r = Log_msg then Ret () else Exits 2)"

definition report :: "(int \<Rightarrow> string) \<Rightarrow> int option \<Rightarrow> string \<Rightarrow> string" where
  "report se e msg = (case e of None \<Rightarrow> error_line se False 0 msg | Some e \<Rightarrow> error_line se True e msg)"

section \<open>Properties\<close>

text \<open>
  C23. The error routines never overrun their line buffer, whatever the message and the error
  text, and print the message followed by the error text, cut to 4094 bytes, on one line: on
  standard error, or in the system log for a daemon. \<open>err_ret\<close>, \<open>err_cont\<close>, \<open>err_msg\<close>,
  \<open>log_ret\<close> and \<open>log_msg\<close> return; the fatal routines of \<open>error.c\<close> exit with 1, those of
  \<open>errorlog.c\<close> with 2, and \<open>err_dump\<close> aborts.
\<close>

theorem error_routines:
  assumes "length buf = MAXLINE" and "nul_free msg" and "\<forall>e. nul_free (se e)"
  shows "err_call se buf errno r msg =
      ([FlushStdout, Stderr (report se (err_reported errno r) msg), FlushAll], err_ending r) \<and>
    log_call se buf lts errno q msg =
      (if lts then [FlushStdout, Stderr (report se (log_reported errno q) msg), FlushStderr]
       else [Syslog LOG_ERR (report se (log_reported errno q) msg)], log_ending q)"
  using assms
  by (cases r; cases q) (simp_all add: print_then_def err_doit_def log_doit_def format_line_eq
    report_def err_reported_def log_reported_def err_ending_def log_ending_def)

theorem error_routines_witness:
  "err_call (\<lambda>e. ''No such file'') (replicate MAXLINE NUL) 2 Err_sys ''open'' =
      ([FlushStdout, Stderr (report (\<lambda>e. ''No such file'') (err_reported 2 Err_sys) ''open''), FlushAll],
       err_ending Err_sys) \<and>
    log_call (\<lambda>e. ''No such file'') (replicate MAXLINE NUL) False 2 Log_quit ''open'' =
      (if False then [FlushStdout, Stderr (report (\<lambda>e. ''No such file'') (log_reported 2 Log_quit) ''open''), FlushStderr]
       else [Syslog LOG_ERR (report (\<lambda>e. ''No such file'') (log_reported 2 Log_quit) ''open'')], log_ending Log_quit)"
  by (rule error_routines) (simp_all add: NUL_def)

text \<open>
  \<open>strerror\<close> finds the message of every listed error and formats any other \<open>int\<close> within
  its 30-byte buffer, except for the one value its range test lets through too far:
  \<open>error == sys_nerr\<close> reads past the end of \<open>sys_errlist\<close>.
\<close>

theorem strerror_total_but_one:
  assumes "length mesg = 30" and "- INT_MAX - 1 \<le> error" and "error \<le> INT_MAX"
  shows "strerror sys_errlist mesg error =
    (if error = int (length sys_errlist) then None
     else if 0 \<le> error \<and> error < int (length sys_errlist) then Some (sys_errlist ! nat error)
     else Some (''Unknown error ('' @ dec error @ '')''))"
proof -
  let ?s = "''Unknown error ('' @ dec error @ '')''"
  have "length (dec error) \<le> 11" by (rule length_dec) fact+
  then have "length ?s < length mesg" using assms(1) by simp
  moreover have "nul_free ?s" by (simp add: NUL_def)
  ultimately obtain b where "strcpy_at mesg 0 ?s = Some b" "holds b ?s"
    using strcpy_at_0 by blast
  then show ?thesis by (auto simp: strerror_def holds_c_str load_def)
qed

theorem strerror_total_but_one_witness:
  "strerror [''Success'', ''Not owner''] (replicate 30 NUL) (- 7) =
    (if (- 7 :: int) = int (length [''Success'', ''Not owner'']) then None
     else if 0 \<le> (- 7 :: int) \<and> (- 7) < int (length [''Success'', ''Not owner''])
       then Some ([''Success'', ''Not owner''] ! nat (- 7))
     else Some (''Unknown error ('' @ dec (- 7) @ '')''))"
  by (rule strerror_total_but_one) (simp_all add: INT_MAX_def)

end
