(* ===== verification/ReadWriteN.thy ===== *)
theory ReadWriteN imports Prelude
begin

text \<open>
  \<open>lib/readn.c\<close> and \<open>lib/writen.c\<close>: loops around \<open>read\<close> and \<open>write\<close>, which may transfer fewer
  bytes than asked. The two calls are parameters; their documented behaviour is stated as the
  interfaces \<open>byte_sink\<close> and \<open>byte_source\<close>, and a channel with an arbitrary schedule of
  transfer sizes and errors provides both.
\<close>

section \<open>The loops\<close>

text \<open>
  \<open>wr w buf\<close> is the call's result on the bytes still to be sent. A call that claims to have
  written more than it was given breaks its contract: \<open>None\<close>.
\<close>

function writen_loop ::
  "('w \<Rightarrow> u8 list \<Rightarrow> int \<times> 'w) \<Rightarrow> nat \<Rightarrow> 'w \<Rightarrow> u8 list \<Rightarrow> (int \<times> 'w) option" where
  "writen_loop wr n w buf =
     (if 0 < length buf then
        (case wr w buf of (nwritten, w) \<Rightarrow>
           if nwritten < 0 then
             (if length buf = n then Some (-1, w) else Some (int n - int (length buf), w))
           else if nwritten = 0 then Some (int n - int (length buf), w)
           else if nwritten \<le> int (length buf) then writen_loop wr n w (drop (nat nwritten) buf)
           else None)
      else Some (int n - int (length buf), w))"
  by pat_completeness auto
termination by (relation "measure (\<lambda>(wr, n, w, buf). length buf)") auto

definition writen :: "('w \<Rightarrow> u8 list \<Rightarrow> int \<times> 'w) \<Rightarrow> 'w \<Rightarrow> u8 list \<Rightarrow> (int \<times> 'w) option" where
  "writen wr w buf = writen_loop wr (length buf) w buf"

text \<open>\<open>rd w n\<close> gives the result, the bytes stored and the new world.\<close>

function readn_loop ::
  "('w \<Rightarrow> nat \<Rightarrow> int \<times> u8 list \<times> 'w) \<Rightarrow> nat \<Rightarrow> 'w \<Rightarrow> nat \<Rightarrow> u8 list \<Rightarrow> (int \<times> u8 list \<times> 'w) option" where
  "readn_loop rd n w nleft got =
     (if 0 < nleft then
        (case rd w nleft of (nread, bs, w) \<Rightarrow>
           if nread < 0 then
             (if nleft = n then Some (-1, got, w) else Some (int n - int nleft, got, w))
           else if nread = 0 then Some (int n - int nleft, got, w)
           else if nread \<le> int nleft \<and> length bs = nat nread
             then readn_loop rd n w (nleft - nat nread) (got @ bs)
           else None)
      else Some (int n - int nleft, got, w))"
  by pat_completeness auto
termination by (relation "measure (\<lambda>(rd, n, w, nleft, got). nleft)") auto

definition readn :: "('w \<Rightarrow> nat \<Rightarrow> int \<times> u8 list \<times> 'w) \<Rightarrow> 'w \<Rightarrow> nat \<Rightarrow> (int \<times> u8 list \<times> 'w) option" where
  "readn rd w n = readn_loop rd n w n []"

declare writen_loop.simps [simp del] readn_loop.simps [simp del]

section \<open>What the system calls promise\<close>

locale byte_sink =
  fixes wr :: "'w \<Rightarrow> u8 list \<Rightarrow> int \<times> 'w"
    and sent :: "'w \<Rightarrow> u8 list"
  assumes write_ok: "wr w buf = (k, w') \<Longrightarrow> 0 \<le> k \<Longrightarrow>
      k \<le> int (length buf) \<and> sent w' = sent w @ take (nat k) buf"
    and write_error: "wr w buf = (k, w') \<Longrightarrow> k < 0 \<Longrightarrow> sent w' = sent w"
begin

lemma writen_loop_sends:
  "length buf \<le> n \<Longrightarrow> \<exists>r w'. writen_loop wr n w buf = Some (r, w') \<and>
    (if r = -1 then length buf = n \<and> sent w' = sent w
     else int (n - length buf) \<le> r \<and> r \<le> int n \<and>
       sent w' = sent w @ take (nat r - (n - length buf)) buf)"
proof (induction "length buf" arbitrary: w buf rule: less_induct)
  case less
  obtain k w1 where k: "wr w buf = (k, w1)" by (cases "wr w buf")
  consider "buf = []" | "buf \<noteq> []" "k < 0" | "buf \<noteq> []" "k = 0" | "buf \<noteq> []" "0 < k" by linarith
  then show ?case
  proof cases
    case 1
    then show ?thesis by (subst writen_loop.simps) simp
  next
    case 2
    with k write_error [OF k] less(2) show ?thesis
      by (subst writen_loop.simps) (auto simp: of_nat_diff)
  next
    case 3
    with k write_ok [OF k] less(2) show ?thesis
      by (subst writen_loop.simps) (auto simp: of_nat_diff)
  next
    case 4
    then have w1: "k \<le> int (length buf)" "sent w1 = sent w @ take (nat k) buf" using write_ok [OF k] by simp_all
    let ?rest = "drop (nat k) buf"
    have len: "length ?rest < length buf" "length ?rest \<le> n" using 4 less(2) by auto
    from less(1) [OF len] obtain r w' where r: "writen_loop wr n w1 ?rest = Some (r, w')"
      and s: "if r = -1 then length ?rest = n \<and> sent w' = sent w1
        else int (n - length ?rest) \<le> r \<and> r \<le> int n \<and>
          sent w' = sent w1 @ take (nat r - (n - length ?rest)) ?rest"
      by blast
    have "writen_loop wr n w buf = Some (r, w')"
      using 4 k w1 r by (subst writen_loop.simps) simp
    moreover have "r \<noteq> -1" using s len less(2) by auto
    moreover have "int (n - length buf) \<le> r"
      using s \<open>r \<noteq> -1\<close> by (auto simp: of_nat_diff)
    moreover have "sent w' = sent w @ take (nat r - (n - length buf)) buf"
    proof -
      obtain e where e: "nat r - (n - length ?rest) = e" "nat r - (n - length buf) = nat k + e"
        using s \<open>r \<noteq> -1\<close> w1 4 less(2) by (simp add: of_nat_diff) linarith
      then show ?thesis using s \<open>r \<noteq> -1\<close> w1 by (simp add: take_add)
    qed
    ultimately show ?thesis using s by auto
  qed
qed

lemma writen_sends:
  "\<exists>r w'. writen wr w buf = Some (r, w') \<and>
    ((r = -1 \<and> sent w' = sent w) \<or> (0 \<le> r \<and> r \<le> int (length buf) \<and> sent w' = sent w @ take (nat r) buf))"
  using writen_loop_sends [of buf "length buf" w] by (fastforce simp: writen_def split: if_splits)

text \<open>Only an error or a call that transfers nothing ends the loop early.\<close>

lemma writen_complete:
  assumes "\<And>w buf k w'. good w \<Longrightarrow> wr w buf = (k, w') \<Longrightarrow> buf \<noteq> [] \<Longrightarrow> 0 < k \<and> good w'" and "good w"
  shows "\<exists>w'. writen wr w buf = Some (int (length buf), w') \<and> sent w' = sent w @ buf \<and> good w'"
proof -
  have "\<exists>w'. writen_loop wr n w buf = Some (int n, w') \<and> sent w' = sent w @ buf \<and> good w'"
    if "good w" "length buf \<le> n" for n w buf
    using that
  proof (induction "length buf" arbitrary: w buf rule: less_induct)
    case less
    show ?case
    proof (cases "buf = []")
      case True
      with less show ?thesis by (subst writen_loop.simps) simp
    next
      case False
      obtain k w1 where k: "wr w buf = (k, w1)" by (cases "wr w buf")
      with assms(1) [OF less(2) k False] write_ok [OF k]
      have w1: "0 < k" "good w1" "k \<le> int (length buf)" "sent w1 = sent w @ take (nat k) buf" by simp_all
      have "length (drop (nat k) buf) < length buf" using w1 False by simp
      moreover have "length (drop (nat k) buf) \<le> n" using less(3) by simp
      ultimately obtain w' where
        "writen_loop wr n w1 (drop (nat k) buf) = Some (int n, w')" "sent w' = sent w1 @ drop (nat k) buf" "good w'"
        using less(1) w1(2) by blast
      with w1 k False show ?thesis by (subst writen_loop.simps) simp
    qed
  qed
  from this [OF assms(2)] show ?thesis by (simp add: writen_def)
qed

end

locale byte_source =
  fixes rd :: "'w \<Rightarrow> nat \<Rightarrow> int \<times> u8 list \<times> 'w"
    and pending :: "'w \<Rightarrow> u8 list"
  assumes read_ok: "rd w n = (k, bs, w') \<Longrightarrow> 0 \<le> k \<Longrightarrow>
      k \<le> int n \<and> length bs = nat k \<and> pending w = bs @ pending w'"
    and read_eof: "rd w n = (0, bs, w') \<Longrightarrow> 0 < n \<Longrightarrow> pending w = []"
    and read_error: "rd w n = (k, bs, w') \<Longrightarrow> k < 0 \<Longrightarrow> pending w' = pending w"
begin

lemma readn_loop_gets:
  assumes "nleft \<le> n"
  shows "\<exists>r bs w'. readn_loop rd n w nleft got = Some (r, got @ bs, w') \<and> pending w = bs @ pending w' \<and>
    (if r = -1 then nleft = n \<and> bs = [] else r = int (n - nleft) + int (length bs) \<and> length bs \<le> nleft)"
  using assms
proof (induction nleft arbitrary: w got rule: less_induct)
  case (less nleft)
  obtain k bs w1 where k: "rd w nleft = (k, bs, w1)" by (cases "rd w nleft")
  consider "nleft = 0" | "0 < nleft" "k < 0" | "0 < nleft" "k = 0" | "0 < nleft" "0 < k" by linarith
  then show ?case
  proof cases
    case 1
    with less(2) show ?thesis by (subst readn_loop.simps) simp
  next
    case 2
    with k read_error [OF k] less(2) show ?thesis
      by (subst readn_loop.simps) (auto simp: of_nat_diff)
  next
    case 3
    with k read_ok [OF k] less(2) show ?thesis
      by (subst readn_loop.simps) (auto simp: of_nat_diff)
  next
    case 4
    then have b: "k \<le> int nleft" "length bs = nat k" "pending w = bs @ pending w1" using read_ok [OF k] by simp_all
    have lt: "nleft - nat k < nleft" "nleft - nat k \<le> n" using 4 less(2) by auto
    from less(1) [OF lt, of w1 "got @ bs"] obtain r cs w' where
      r: "readn_loop rd n w1 (nleft - nat k) (got @ bs) = Some (r, (got @ bs) @ cs, w')" "pending w1 = cs @ pending w'"
      and c: "if r = -1 then nleft - nat k = n \<and> cs = []
        else r = int (n - (nleft - nat k)) + int (length cs) \<and> length cs \<le> nleft - nat k"
      by blast
    have "r \<noteq> -1" using c lt less(2) by auto
    have "readn_loop rd n w nleft got = Some (r, got @ (bs @ cs), w')"
      using 4 k b r by (subst readn_loop.simps) simp
    moreover have "r = int (n - nleft) + int (length (bs @ cs)) \<and> length (bs @ cs) \<le> nleft"
      using c \<open>r \<noteq> -1\<close> b 4 less(2) by (auto simp: of_nat_diff)
    ultimately show ?thesis using b r \<open>r \<noteq> -1\<close> by (metis append.assoc)
  qed
qed

lemma readn_gets:
  "\<exists>r bs w'. readn rd w n = Some (r, bs, w') \<and> pending w = bs @ pending w' \<and>
    ((r = -1 \<and> bs = []) \<or> (r = int (length bs) \<and> length bs \<le> n))"
  using readn_loop_gets [of n n w "[]"] by (fastforce simp: readn_def split: if_splits)

lemma readn_complete:
  assumes good: "\<And>w n k bs w'. good w \<Longrightarrow> rd w n = (k, bs, w') \<Longrightarrow> 0 \<le> k \<and> good w'" and "good w"
  shows "\<exists>w'. readn rd w n = Some (int (min n (length (pending w))), take n (pending w), w') \<and>
    pending w' = drop n (pending w) \<and> good w'"
proof -
  have "\<exists>w'. readn_loop rd n w nleft got =
      Some (int (n - nleft + min nleft (length (pending w))), got @ take nleft (pending w), w') \<and>
      pending w' = drop nleft (pending w) \<and> good w'"
    if "good w" "nleft \<le> n" for nleft w got
    using that
  proof (induction nleft arbitrary: w got rule: less_induct)
    case (less nleft)
    obtain k bs w1 where k: "rd w nleft = (k, bs, w1)" by (cases "rd w nleft")
    from good [OF less(2) k] read_ok [OF k] have g: "0 \<le> k" "good w1" "k \<le> int nleft"
        "length bs = nat k" "pending w = bs @ pending w1" by simp_all
    consider "nleft = 0" | "0 < nleft" "k = 0" | "0 < nleft" "0 < k" using g by linarith
    then show ?case
    proof cases
      case 1
      with less(2,3) show ?thesis by (subst readn_loop.simps) simp
    next
      case 2
      with k read_eof [of w nleft bs w1] g less(2,3) show ?thesis
        by (subst readn_loop.simps) (simp add: of_nat_diff)
    next
      case 3
      have "nleft - nat k < nleft" "nleft - nat k \<le> n" using 3 less(3) by auto
      from less(1) [OF this(1) g(2) this(2), of "got @ bs"] obtain w' where
        "readn_loop rd n w1 (nleft - nat k) (got @ bs) =
          Some (int (n - (nleft - nat k) + min (nleft - nat k) (length (pending w1))),
            (got @ bs) @ take (nleft - nat k) (pending w1), w')"
        "pending w' = drop (nleft - nat k) (pending w1)" "good w'" by blast
      moreover have "int (n - (nleft - nat k) + min (nleft - nat k) (length (pending w1))) =
          int (n - nleft + min nleft (length (pending w)))"
        using g 3 less(3) by (auto simp: min_def)
      moreover have "(got @ bs) @ take (nleft - nat k) (pending w1) = got @ take nleft (pending w)"
        using g by simp
      moreover have "drop (nleft - nat k) (pending w1) = drop nleft (pending w)"
        using g by simp
      moreover have "readn_loop rd n w nleft got = readn_loop rd n w1 (nleft - nat k) (got @ bs)"
        using 3 k g by (subst readn_loop.simps) simp
      ultimately show ?thesis by (simp only:) blast
    qed
  qed
  from this [OF assms(2), of n "[]"] show ?thesis by (simp add: readn_def)
qed

end

section \<open>A channel\<close>

text \<open>
  A byte channel whose kernel transfers on each call what its schedule says: a negative entry
  is an error, any other bounds the bytes moved (a reader is given at least one byte when there
  is one: 0 means end of file). An exhausted schedule moves everything.
\<close>

record chan =
  c_bytes :: "u8 list"
  c_wsched :: "int list"
  c_rsched :: "int list"

definition chan_write :: "chan \<Rightarrow> u8 list \<Rightarrow> int \<times> chan" where
  "chan_write c buf = (case c_wsched c of
       [] \<Rightarrow> (int (length buf), c\<lparr>c_bytes := c_bytes c @ buf\<rparr>)
     | k # ks \<Rightarrow>
         if k < 0 then (-1, c\<lparr>c_wsched := ks\<rparr>)
         else (int (min (nat k) (length buf)),
           c\<lparr>c_wsched := ks, c_bytes := c_bytes c @ take (nat k) buf\<rparr>))"

definition chan_read :: "chan \<Rightarrow> nat \<Rightarrow> int \<times> u8 list \<times> chan" where
  "chan_read c n = (case c_rsched c of
       [] \<Rightarrow> (int (min n (length (c_bytes c))), take n (c_bytes c), c\<lparr>c_bytes := drop n (c_bytes c)\<rparr>)
     | k # ks \<Rightarrow>
         if k < 0 then (-1, [], c\<lparr>c_rsched := ks\<rparr>)
         else (let m = min n (max 1 (nat k)) in
           (int (min m (length (c_bytes c))), take m (c_bytes c),
             c\<lparr>c_rsched := ks, c_bytes := drop m (c_bytes c)\<rparr>)))"

interpretation chan_out: byte_sink chan_write c_bytes
  by unfold_locales (auto simp: chan_write_def min_def split: list.splits if_splits)

interpretation chan_in: byte_source chan_read c_bytes
  by unfold_locales (auto simp: chan_read_def Let_def min_def split: list.splits if_splits)

section \<open>Properties\<close>

text \<open>
  However the kernel splits or fails the transfers, \<open>writen\<close> ends and its result is exact:
  \<open>-1\<close> only if nothing was written, otherwise the number of leading bytes of the buffer that
  were appended to the stream, in order and without gaps.
\<close>

theorem writen_exact:
  "\<exists>r c'. writen chan_write c buf = Some (r, c') \<and>
    ((r = -1 \<and> c_bytes c' = c_bytes c) \<or>
     (0 \<le> r \<and> r \<le> int (length buf) \<and> c_bytes c' = c_bytes c @ take (nat r) buf))"
  by (rule chan_out.writen_sends)

text \<open>
  \<open>readn\<close> ends, and returns the next bytes of the stream in order: \<open>-1\<close> only with nothing
  consumed, otherwise the number it stored, at most \<open>n\<close>.
\<close>

theorem readn_exact:
  "\<exists>r bs c'. readn chan_read c n = Some (r, bs, c') \<and> c_bytes c = bs @ c_bytes c' \<and>
    ((r = -1 \<and> bs = []) \<or> (r = int (length bs) \<and> length bs \<le> n))"
  by (rule chan_in.readn_gets)

text \<open>
  C10. Over a kernel that keeps accepting and delivering at least one byte per call, in pieces
  of any size, what \<open>writen\<close> sends \<open>readn\<close> receives whole.
\<close>

theorem writen_readn_roundtrip:
  assumes "c_bytes c = []" and "\<forall>k \<in> set (c_wsched c). 0 < k" and "\<forall>k \<in> set (c_rsched c). 0 \<le> k"
  shows "\<exists>c' c''. writen chan_write c buf = Some (int (length buf), c') \<and>
    readn chan_read c' (length buf) = Some (int (length buf), buf, c'') \<and> c_bytes c'' = []"
proof -
  have "\<exists>c'. writen chan_write c buf = Some (int (length buf), c') \<and> c_bytes c' = c_bytes c @ buf \<and>
      ((\<forall>k \<in> set (c_wsched c'). 0 < k) \<and> (\<forall>k \<in> set (c_rsched c'). 0 \<le> k))"
    using assms(2,3)
    by (intro chan_out.writen_complete) (auto simp: chan_write_def min_def split: list.splits if_splits)
  then obtain c' where c': "writen chan_write c buf = Some (int (length buf), c')" "c_bytes c' = buf"
      "\<forall>k \<in> set (c_rsched c'). 0 \<le> k"
    using assms(1) by auto
  have "\<exists>c''. readn chan_read c' (length buf) =
      Some (int (min (length buf) (length (c_bytes c'))), take (length buf) (c_bytes c'), c'') \<and>
      c_bytes c'' = drop (length buf) (c_bytes c') \<and> (\<forall>k \<in> set (c_rsched c''). 0 \<le> k)"
    using c'(3)
    by (intro chan_in.readn_complete) (auto simp: chan_read_def Let_def split: list.splits if_splits)
  with c' show ?thesis by auto
qed

theorem writen_readn_roundtrip_witness:
  "\<exists>c' c''. writen chan_write \<lparr>c_bytes = [], c_wsched = [2, 1], c_rsched = [1, 0, 5]\<rparr> [7, 8, 9, 10] = Some (int (length [7, 8, 9, 10 :: u8]), c') \<and>
    readn chan_read c' (length [7, 8, 9, 10 :: u8]) = Some (int (length [7, 8, 9, 10 :: u8]), [7, 8, 9, 10], c'') \<and> c_bytes c'' = []"
  by (rule writen_readn_roundtrip) simp_all

end
