(* ===== verification/FdPass.thy ===== *)
theory FdPass imports ReadWriteN CString
begin

text \<open>
  Passing descriptors over a stream pipe: \<open>lib/sendfd.c\<close>, \<open>lib/recvfd.c\<close> (and
  \<open>lib/Orecvfd.c\<close>), and \<open>lib/senderr.c\<close>. The sender's end is
  the list of segments it has put on the stream, each with the descriptor that travels with it;
  the receiver gets them as a list of \<open>recvmsg\<close> results, cut as the kernel likes. \<open>cm\<close> says
  whether the static \<open>cmptr\<close> has been allocated, \<open>malloc_ok\<close> whether \<open>malloc\<close> succeeds.
\<close>

section \<open>The stream pipe\<close>

type_synonym segment = "u8 list \<times> int option"

text \<open>\<open>u_sched\<close> is what the kernel does with the next calls, as for a channel.\<close>

record usock =
  u_segs :: "segment list"
  u_sched :: "int list"

definition sock_write :: "usock \<Rightarrow> u8 list \<Rightarrow> int \<times> usock" where
  "sock_write u buf = (case u_sched u of
       [] \<Rightarrow> (int (length buf), u\<lparr>u_segs := u_segs u @ [(buf, None)]\<rparr>)
     | k # ks \<Rightarrow>
         if k < 0 then (-1, u\<lparr>u_sched := ks\<rparr>)
         else (int (min (nat k) (length buf)),
           u\<lparr>u_sched := ks, u_segs := u_segs u @ [(take (nat k) buf, None)]\<rparr>))"

text \<open>A 2-byte \<open>sendmsg\<close> on a stream socket is done whole or fails.\<close>

definition sock_sendmsg :: "usock \<Rightarrow> segment \<Rightarrow> int \<times> usock" where
  "sock_sendmsg u seg = (case u_sched u of
       [] \<Rightarrow> (int (length (fst seg)), u\<lparr>u_segs := u_segs u @ [seg]\<rparr>)
     | k # ks \<Rightarrow>
         if k < 0 then (-1, u\<lparr>u_sched := ks\<rparr>)
         else (int (length (fst seg)), u\<lparr>u_sched := ks, u_segs := u_segs u @ [seg]\<rparr>))"

definition stream :: "usock \<Rightarrow> u8 list" where
  "stream u = concat (map fst (u_segs u))"

interpretation sock_out: byte_sink sock_write stream
  by unfold_locales (auto simp: sock_write_def stream_def min_def split: list.splits if_splits)

section \<open>\<open>send_fd\<close> and \<open>send_err\<close>\<close>

text \<open>
  The second byte of the protocol message: \<open>buf[1] = -fd_to_send\<close> keeps the low 8 bits. The
  result pairs the new \<open>cm\<close> with the return value; negating \<open>INT_MIN\<close> has no result.
\<close>

definition status_byte :: "int \<Rightarrow> u8" where
  "status_byte fd_to_send =
     (if fd_to_send < 0 then
        (let b = word_of_int (- fd_to_send) :: u8 in if b = 0 then 1 else b)
      else 0)"

definition send_fd :: "bool \<Rightarrow> bool \<Rightarrow> usock \<Rightarrow> int \<Rightarrow> (int \<times> bool \<times> usock) option" where
  "send_fd cm malloc_ok u fd_to_send =
     (if fd_to_send = - INT_MAX - 1 then None
      else if fd_to_send \<ge> 0 \<and> \<not> cm \<and> \<not> malloc_ok then Some (-1, cm, u)
      else
        let seg = ([0, status_byte fd_to_send], if fd_to_send < 0 then None else Some fd_to_send);
            cm = (if fd_to_send \<ge> 0 then True else cm)
        in (case sock_sendmsg u seg of (k, u) \<Rightarrow> Some (if k \<noteq> 2 then -1 else 0, cm, u)))"

definition send_err :: "bool \<Rightarrow> bool \<Rightarrow> usock \<Rightarrow> int \<Rightarrow> u8 list \<Rightarrow> (int \<times> bool \<times> usock) option" where
  "send_err cm malloc_ok u errcode msg = do {
     (r, u) \<leftarrow> (if length msg > 0 then writen sock_write u msg else Some (0, u));
     if length msg > 0 \<and> r \<noteq> int (length msg) then Some (-1, cm, u)
     else do {
       let errcode = (if errcode \<ge> 0 then -1 else errcode);
       (r, cm, u) \<leftarrow> send_fd cm malloc_ok u errcode;
       Some (if r < 0 then -1 else 0, cm, u) } }"

section \<open>\<open>recv_fd\<close>\<close>

text \<open>
  A \<open>recvmsg\<close> result: an error, or bytes and the descriptor received with them if
  \<open>msg_controllen\<close> reached \<open>CONTROLLEN\<close>. No bytes means the peer closed.
\<close>

datatype rcv = RErr | RData "u8 list" "int option"

text \<open>
  The scan of the buffer: from position \<open>ptr\<close>, with \<open>nr\<close>, \<open>status\<close> and \<open>newfd\<close> as they are.
\<close>

function scan_msg ::
  "u8 list \<Rightarrow> int option \<Rightarrow> nat \<Rightarrow> nat \<times> int \<times> int option \<Rightarrow> (nat \<times> int \<times> int option) outcome" where
  "scan_msg buf ctl ptr (nr, status, newfd) =
     (if ptr < nr then
        (if buf ! ptr = 0 then
           (if int (ptr + 1) \<noteq> int nr - 1 then Aborts
            else
              let status = uint (buf ! (ptr + 1)) in
              if status = 0 then
                (case ctl of None \<Rightarrow> Aborts | Some fd \<Rightarrow> scan_msg buf ctl (ptr + 1) (nr - 2, status, Some fd))
              else scan_msg buf ctl (ptr + 1) (nr - 2, status, Some (- status)))
         else scan_msg buf ctl (ptr + 1) (nr, status, newfd))
      else Ret (nr, status, newfd))"
  by pat_completeness auto
termination by (relation "measure (\<lambda>(buf, ctl, ptr, nr, st). nr - ptr)") auto

declare scan_msg.simps [simp del]

text \<open>
  The outer loop. \<open>uf\<close> is what \<open>userfunc\<close> returns on the bytes it is given; the second
  component of the result lists those bytes. An exhausted list of arrivals blocks.
\<close>

fun recv_loop ::
  "bool \<Rightarrow> (u8 list \<Rightarrow> int) \<Rightarrow> rcv list \<Rightarrow> int \<times> int option \<Rightarrow> u8 list \<Rightarrow> int outcome \<times> u8 list" where
  "recv_loop mem uf [] st out = (if mem then (Blocks, out) else (Ret (-1), out))"
| "recv_loop mem uf (r # rs) (status, newfd) out =
     (if \<not> mem then (Ret (-1), out)
      else case r of
        RErr \<Rightarrow> (Ret (-1), out)
      | RData buf ctl \<Rightarrow>
          if length buf = 0 then (Ret (-1), out)
          else (case scan_msg buf ctl 0 (length buf, status, newfd) of
              Ret (nr, status, newfd) \<Rightarrow>
                let data = take nr buf; out = (if nr > 0 then out @ data else out) in
                if nr > 0 \<and> uf data \<noteq> int nr then (Ret (-1), out)
                else if status \<ge> 0 then
                  (case newfd of None \<Rightarrow> (Undef, out) | Some fd \<Rightarrow> (Ret fd, out))
                else recv_loop mem uf rs (status, newfd) out
            | Aborts \<Rightarrow> (Aborts, out)
            | _ \<Rightarrow> (Undef, out)))"

definition recv_fd :: "bool \<Rightarrow> bool \<Rightarrow> (u8 list \<Rightarrow> int) \<Rightarrow> rcv list \<Rightarrow> int outcome \<times> u8 list" where
  "recv_fd cm malloc_ok uf rs = recv_loop (cm \<or> malloc_ok) uf rs (-1, None) []"

section \<open>Scanning\<close>

lemma scan_text:
  assumes "0 \<notin> set (drop ptr (take nr buf))" "nr \<le> length buf"
  shows "scan_msg buf ctl ptr (nr, st) = Ret (nr, st)"
  using assms
proof (induction "nr - ptr" arbitrary: ptr)
  case 0
  then show ?case by (cases st) (simp add: scan_msg.simps)
next
  case (Suc k)
  obtain s f where st: "st = (s, f)" by (cases st)
  have "ptr < nr" "nr - Suc ptr = k" using Suc.hyps(2) by linarith+
  moreover have "drop ptr (take nr buf) = buf ! ptr # drop (Suc ptr) (take nr buf)"
    using \<open>ptr < nr\<close> Suc.prems(2) by (subst Cons_nth_drop_Suc [symmetric]) simp_all
  ultimately show ?case
    using Suc.hyps(1) [of "Suc ptr"] Suc.prems by (subst st, subst scan_msg.simps) (auto simp: st)
qed

lemma scan_final:
  assumes "0 \<notin> set text"
  shows "scan_msg (text @ [0, b]) ctl 0 (length (text @ [0, b]), st) =
    (if b \<noteq> 0 then Ret (length text, uint b, Some (- uint b))
     else case ctl of None \<Rightarrow> Aborts | Some fd \<Rightarrow> Ret (length text, 0, Some fd))"
proof -
  let ?buf = "text @ [0, b]"
  have skip: "scan_msg ?buf ctl 0 (length ?buf, st) = scan_msg ?buf ctl p (length ?buf, st)"
    if "p \<le> length text" for p
    using that
  proof (induction p)
    case (Suc p)
    then have "?buf ! p \<noteq> 0" using assms by (auto simp: nth_append in_set_conv_nth)
    with Suc show ?case by (cases st) (simp add: scan_msg.simps [of _ _ p])
  qed simp
  have end_: "scan_msg ?buf ctl (length text + 1) (length text, st') = Ret (length text, st')" for st'
    by (cases st') (simp add: scan_msg.simps)
  obtain s f where st: "st = (s, f)" by (cases st)
  show ?thesis
    unfolding skip [OF order_refl] unfolding st
    by (subst scan_msg.simps) (use end_ in \<open>auto simp: nth_append Let_def unsigned_eq_0_iff split: option.splits\<close>)
qed

declare recv_loop.simps(2) [simp del]

section \<open>Deliveries\<close>

text \<open>
  How a text followed by one protocol message arrives: any number of non-empty pieces of the
  text, and a last piece that ends with the two protocol bytes and carries the descriptor, if
  there is one.
\<close>

definition delivery :: "u8 list \<Rightarrow> u8 \<Rightarrow> int option \<Rightarrow> rcv list \<Rightarrow> bool" where
  "delivery text b ctl rs \<longleftrightarrow>
     (\<exists>pieces lst. rs = map (\<lambda>p. RData p None) pieces @ [RData (lst @ [0, b]) ctl] \<and>
        concat pieces @ lst = text \<and> [] \<notin> set pieces)"

lemma recv_loop_text:
  assumes "0 \<notin> set p" "p \<noteq> []" "uf p = int (length p)"
  shows "recv_loop True uf (RData p None # rs) (-1, None) out = recv_loop True uf rs (-1, None) (out @ p)"
  using scan_text [of 0 "length p" p None "(-1, None)"] assms by (simp add: recv_loop.simps)

lemma recv_loop_final:
  assumes "0 \<notin> set p" "uf p = int (length p)" "b \<noteq> 0 \<or> ctl \<noteq> None"
  shows "recv_loop True uf (RData (p @ [0, b]) ctl # rs) (-1, None) out =
    (Ret (if b \<noteq> 0 then - uint b else the ctl), out @ p)"
  using scan_final [OF assms(1), of b ctl "(-1, None)"] assms(2,3)
  by (auto simp: Let_def recv_loop.simps split: option.splits)

lemma recv_delivery:
  assumes "delivery text b ctl rs" and "0 \<notin> set text" and "\<forall>p. uf p = int (length p)"
    and "b \<noteq> 0 \<or> ctl \<noteq> None"
  shows "recv_loop True uf rs (-1, None) out = (Ret (if b \<noteq> 0 then - uint b else the ctl), out @ text)"
proof -
  from assms(1) obtain pieces lst where
    rs: "rs = map (\<lambda>p. RData p None) pieces @ [RData (lst @ [0, b]) ctl]"
      "concat pieces @ lst = text" "[] \<notin> set pieces"
    by (auto simp: delivery_def)
  have "0 \<notin> set (concat pieces)" "0 \<notin> set lst" using assms(2) rs(2) by auto
  from this(1) rs(3) have "recv_loop True uf (map (\<lambda>p. RData p None) pieces @ rest) (-1, None) out =
      recv_loop True uf rest (-1, None) (out @ concat pieces)" for rest
  proof (induction pieces arbitrary: out)
    case (Cons p ps)
    have "0 \<notin> set p" "p \<noteq> []" "uf p = int (length p)" using Cons.prems assms(3) by auto
    from recv_loop_text [where uf = uf, OF this] Cons show ?case by simp
  qed simp
  with recv_loop_final [OF \<open>0 \<notin> set lst\<close>] rs assms(3,4) show ?thesis by simp
qed

section \<open>Properties\<close>

text \<open>What arrives for what was asked to be sent: the descriptor, or the error status.\<close>

definition received :: "int \<Rightarrow> int \<Rightarrow> int" where
  "received fd_to_send newfd =
     (if fd_to_send \<ge> 0 then newfd
      else if (- fd_to_send) mod 256 = 0 then -1 else - ((- fd_to_send) mod 256))"

lemma uint_status_byte: "fd < 0 \<Longrightarrow> status_byte fd \<noteq> 0 \<and> - uint (status_byte fd) = received fd newfd"
proof -
  assume "fd < 0"
  have u: "uint (word_of_int (- fd) :: u8) = (- fd) mod 256"
    by (simp add: uint_word_of_int del: of_int_minus)
  have "(word_of_int (- fd) :: u8) = 0 \<longleftrightarrow> (- fd) mod 256 = 0"
    by (metis u unsigned_eq_0_iff)
  with u \<open>fd < 0\<close> show ?thesis by (auto simp: status_byte_def received_def Let_def)
qed

text \<open>
  C8. What \<open>send_err\<close> or \<open>send_fd\<close> sent after any text is what \<open>recv_fd\<close> returns, however the
  stream is cut into pieces as long as the last two bytes arrive together: the descriptor that
  arrived, or the error status, exact from -255 to -1 and reduced modulo 256 beyond, never 0;
  and the text goes to the user function, all of it and nothing else.
\<close>

theorem send_recv_fd:
  assumes "send_fd cm True u fd_to_send = Some (0, cm', u')" and "0 \<notin> set text"
    and "delivery text (status_byte fd_to_send) (if fd_to_send < 0 then None else Some newfd) rs"
    and "\<forall>p. uf p = int (length p)"
  shows "recv_fd rcm True uf rs = (Ret (received fd_to_send newfd), text) \<and>
    u_segs u' = u_segs u @ [([0, status_byte fd_to_send], if fd_to_send < 0 then None else Some fd_to_send)]"
proof -
  have "recv_fd rcm True uf rs = (Ret (received fd_to_send newfd), text)"
  proof (cases "fd_to_send < 0")
    case True
    then show ?thesis
      using recv_delivery [OF assms(3,2,4), of "[]"] uint_status_byte [OF True, of newfd]
      by (simp add: recv_fd_def)
  next
    case False
    then show ?thesis
      using recv_delivery [OF assms(3,2,4), of "[]"]
      by (simp add: recv_fd_def status_byte_def received_def)
  qed
  moreover have "u_segs u' = u_segs u @ [([0, status_byte fd_to_send], if fd_to_send < 0 then None else Some fd_to_send)]"
    using assms(1) by (auto simp: send_fd_def sock_sendmsg_def Let_def split: list.splits if_splits)
  ultimately show ?thesis ..
qed

theorem send_recv_fd_witness:
  "recv_fd False True (\<lambda>p. int (length p)) [RData [72, 105] None, RData [33, 0, 44] None] =
      (Ret (received (- 300) 9), [72, 105, 33]) \<and>
    u_segs \<lparr>u_segs = [([0, status_byte (- 300)], None)], u_sched = []\<rparr> =
      u_segs \<lparr>u_segs = [], u_sched = []\<rparr> @ [([0, status_byte (- 300)], if (- 300 :: int) < 0 then None else Some (- 300))]"
proof (rule send_recv_fd)
  show "send_fd False True \<lparr>u_segs = [], u_sched = []\<rparr> (- 300) =
      Some (0, False, \<lparr>u_segs = [([0, status_byte (- 300)], None)], u_sched = []\<rparr>)"
    by (simp add: send_fd_def sock_sendmsg_def INT_MAX_def)
  show "delivery [72, 105, 33] (status_byte (- 300)) (if (- 300 :: int) < 0 then None else Some 9)
      [RData [72, 105] None, RData [33, 0, 44] None]"
    unfolding delivery_def
    by (rule exI [of _ "[[72, 105]]"], rule exI [of _ "[33]"]) (simp add: status_byte_def)
qed simp_all

text \<open>
  \<open>send_err\<close> puts the whole message and then one protocol message with a negative code on
  the stream when it returns 0; a non-negative code becomes -1.
\<close>

theorem send_err_sends:
  assumes "send_err cm mok u errcode msg = Some (0, cm', u')"
  shows "stream u' = stream u @ msg @ [0, status_byte (if errcode \<ge> 0 then -1 else errcode)] \<and>
    last (u_segs u') = ([0, status_byte (if errcode \<ge> 0 then -1 else errcode)], None)"
proof -
  let ?e = "if errcode \<ge> 0 then -1 else errcode"
  from assms obtain u1 where u1: "stream u1 = stream u @ msg" and s: "send_fd cm mok u1 ?e = Some (0, cm', u')"
  proof (cases "msg = []")
    case True
    with assms show thesis
      by (intro that [of u]) (auto simp: send_err_def send_fd_def Let_def split: bind_splits if_splits prod.splits)
  next
    case False
    obtain r u1 where r: "writen sock_write u msg = Some (r, u1)"
        "(r = -1 \<and> stream u1 = stream u) \<or> (0 \<le> r \<and> r \<le> int (length msg) \<and> stream u1 = stream u @ take (nat r) msg)"
      using sock_out.writen_sends [of u msg] by blast
    with assms False have "r = int (length msg)"
      by (auto simp: send_err_def split: if_splits)
    with r assms False show thesis
      by (intro that [of u1]) (auto simp: send_err_def send_fd_def Let_def split: bind_splits if_splits prod.splits)
  qed
  from s have "u_segs u' = u_segs u1 @ [([0, status_byte ?e], None)]"
    by (auto simp: send_fd_def sock_sendmsg_def Let_def split: list.splits if_splits)
  with u1 show ?thesis by (simp add: stream_def)
qed

theorem send_err_sends_witness:
  "stream \<lparr>u_segs = [([104], None), ([105], None), ([0, 1], None)], u_sched = []\<rparr> =
      stream \<lparr>u_segs = [], u_sched = [1, 5]\<rparr> @ [104, 105] @ [0, status_byte (if (7 :: int) \<ge> 0 then -1 else 7)] \<and>
    last (u_segs \<lparr>u_segs = [([104], None), ([105], None), ([0, 1], None)], u_sched = []\<rparr>) =
      ([0, status_byte (if (7 :: int) \<ge> 0 then -1 else 7)], None)"
proof (rule send_err_sends)
  show "send_err False True \<lparr>u_segs = [], u_sched = [1, 5]\<rparr> 7 [104, 105] =
      Some (0, False, \<lparr>u_segs = [([104], None), ([105], None), ([0, 1], None)], u_sched = []\<rparr>)"
    by code_simp
qed

text \<open>
  The two protocol bytes must arrive together: when the text leaves room for only one of
  them in the buffer (4095 bytes with \<open>MAXLINE\<close> 4096) and both are queued, \<open>recv_fd\<close> finds the
  null byte at the end of the buffer and aborts the process with "message format error".
\<close>

theorem split_protocol_aborts:
  assumes "0 \<notin> set text"
  shows "recv_fd cm True uf (RData (text @ [0]) ctl # rs) = (Aborts, [])"
proof -
  have skip: "scan_msg (text @ [0]) ctl 0 (length text + 1, st) = scan_msg (text @ [0]) ctl p (length text + 1, st)"
    if "p \<le> length text" for p st
    using that
  proof (induction p)
    case (Suc p)
    then have "(text @ [0]) ! p \<noteq> 0" using assms by (auto simp: nth_append in_set_conv_nth)
    with Suc show ?case by (cases st) (simp add: scan_msg.simps [of _ _ p])
  qed simp
  have "scan_msg (text @ [0]) ctl (length text) (length text + 1, -1, None) = Aborts"
    by (subst scan_msg.simps) simp
  then have "scan_msg (text @ [0]) ctl 0 (length text + 1, -1, None) = Aborts"
    using skip [of "length text"] by simp
  then show ?thesis by (simp add: recv_fd_def recv_loop.simps)
qed

theorem split_protocol_aborts_witness:
  "recv_fd True True (\<lambda>p. 0) (RData (replicate 4095 65 @ [0]) None # [RData [1] None]) = (Aborts, [])"
  by (rule split_protocol_aborts) simp

end
