(* ===== verification/BufArgs.thy ===== *)
theory BufArgs imports CString
begin

text \<open>
  \<open>lib/bufargs.c\<close>: splitting a buffer into an argument vector with \<open>strtok\<close>. Pointers into the
  buffer are offsets; \<open>None\<close> is an access outside it. The reference is the list of the words
  of the string.
\<close>

section \<open>The code\<close>

definition MAXARGC :: nat where "MAXARGC = 50"

definition WHITE :: string where "WHITE = [CHR '' '', CHR 0x09, CHR 0x0A]"

abbreviation (input) white :: "char \<Rightarrow> bool" where "white c \<equiv> c \<in> set WHITE"

text \<open>
  \<open>strtok\<close>, from its saved position: the token's offset if there is one, the buffer with the
  token terminated, and the new saved position.
\<close>

definition strtok :: "char list \<Rightarrow> nat \<Rightarrow> (nat option \<times> char list \<times> nat) option" where
  "strtok buf p = do {
     let q = p + length (takeWhile (\<lambda>c. white c) (drop p buf));
     c \<leftarrow> load buf q;
     if c = NUL then Some (None, buf, q)
     else do {
       let e = q + length (takeWhile (\<lambda>c. \<not> white c \<and> c \<noteq> NUL) (drop q buf));
       c \<leftarrow> load buf e;
       if c = NUL then Some (Some q, buf, e)
       else do { buf \<leftarrow> store buf e NUL; Some (Some q, buf, e + 1) } } }"

text \<open>The loop, at most \<open>k\<close> more calls of \<open>strtok\<close>; \<open>Inl ()\<close> is the return of -1.\<close>

fun arg_loop :: "nat \<Rightarrow> char list \<Rightarrow> nat \<Rightarrow> nat \<Rightarrow> nat list \<Rightarrow> (char list \<times> (unit + nat list)) option" where
  "arg_loop 0 buf save argc argv = None"
| "arg_loop (Suc k) buf save argc argv = do {
     (ptr, buf, save) \<leftarrow> strtok buf save;
     case ptr of
       None \<Rightarrow> Some (buf, Inr argv)
     | Some p \<Rightarrow>
         if argc + 1 \<ge> MAXARGC - 1 then Some (buf, Inl ())
         else arg_loop k buf save (argc + 1) (argv @ [p]) }"

text \<open>\<open>optfunc\<close> gets the argument count and the strings the vector points at.\<close>

definition buf_args :: "char list \<Rightarrow> (nat \<Rightarrow> string list \<Rightarrow> int) \<Rightarrow> (char list \<times> int) option" where
  "buf_args buf optfunc = do {
     (ptr, buf, save) \<leftarrow> strtok buf 0;
     case ptr of
       None \<Rightarrow> Some (buf, -1)
     | Some p \<Rightarrow> do {
         (buf, r) \<leftarrow> arg_loop MAXARGC buf save 0 [0];
         case r of
           Inl u \<Rightarrow> Some (buf, -1)
         | Inr argv \<Rightarrow> Some (buf, optfunc (length argv) (map (\<lambda>p. c_str (drop p buf)) argv)) } }"

section \<open>Words\<close>

function tokens :: "string \<Rightarrow> string list" where
  "tokens s = (let t = dropWhile (\<lambda>c. white c) s in
     if t = [] then [] else takeWhile (\<lambda>c. \<not> white c) t # tokens (dropWhile (\<lambda>c. \<not> white c) t))"
  by pat_completeness auto
termination
proof (relation "measure length", simp)
  fix s t :: string
  assume t: "t = dropWhile (\<lambda>c. white c) s" "t \<noteq> []"
  then have "\<not> white (hd t)" using hd_dropWhile [of "\<lambda>c. white c" s] by simp
  with t(2) have "length (dropWhile (\<lambda>c. \<not> white c) t) < length t"
    by (cases t) (simp_all add: length_dropWhile_le le_imp_less_Suc)
  also have "length t \<le> length s" unfolding t by (rule length_dropWhile_le)
  finally show "(dropWhile (\<lambda>c. \<not> white c) t, s) \<in> measure length" by simp
qed

declare tokens.simps [simp del]

lemma tokens_white: "\<forall>c \<in> set w. white c \<Longrightarrow> tokens (w @ s) = tokens s"
  by (subst (1 2) tokens.simps) simp

lemma tokens_word:
  assumes "t \<noteq> []" "\<forall>c \<in> set t. \<not> white c" "r = [] \<or> white (hd r)"
  shows "tokens (t @ r) = t # tokens r"
proof -
  have "dropWhile (\<lambda>c. white c) (t @ r) = t @ r" using assms by (cases t) auto
  moreover have "takeWhile (\<lambda>c. \<not> white c) (t @ r) = t" "dropWhile (\<lambda>c. \<not> white c) (t @ r) = r"
    using assms by (cases r; simp)+
  ultimately show ?thesis using assms(1) by (subst tokens.simps) simp
qed

lemma tokens_Nil [simp]: "tokens [] = []"
  by (subst tokens.simps) simp

text \<open>A string is all white, or starts with white space, a word and the rest.\<close>

lemma first_word:
  obtains "\<forall>c \<in> set s. white c"
  | w t r where "s = w @ t @ r" "\<forall>c \<in> set w. white c" "t \<noteq> []" "\<forall>c \<in> set t. \<not> white c"
      "r = [] \<or> white (hd r)"
proof (cases "\<forall>c \<in> set s. white c")
  case True
  with that show thesis by blast
next
  case False
  let ?w = "takeWhile (\<lambda>c. white c) s" and ?x = "dropWhile (\<lambda>c. white c) s"
  let ?t = "takeWhile (\<lambda>c. \<not> white c) ?x" and ?r = "dropWhile (\<lambda>c. \<not> white c) ?x"
  have x: "?x \<noteq> []" using False by (simp add: dropWhile_eq_Nil_conv)
  then have "\<not> white (hd ?x)" using hd_dropWhile [of "\<lambda>c. white c" s] by simp
  then have "?t \<noteq> []" using x by (cases ?x) auto
  moreover have "?r = [] \<or> white (hd ?r)" using hd_dropWhile [of "\<lambda>c. \<not> white c" ?x] by blast
  moreover have "s = ?w @ ?t @ ?r" by simp
  moreover have "\<forall>c \<in> set ?w. white c" "\<forall>c \<in> set ?t. \<not> white c"
    by (auto dest: set_takeWhileD)
  ultimately show thesis using that(2) by blast
qed

section \<open>What \<open>strtok\<close> finds\<close>

lemma NUL_not_white [simp]: "\<not> white NUL"
  by (simp add: WHITE_def NUL_def)

lemma strtok_none:
  assumes "\<forall>c \<in> set s. white c"
  shows "strtok (pre @ s @ NUL # post) (length pre) =
    Some (None, pre @ s @ NUL # post, length pre + length s)"
proof -
  have "takeWhile (\<lambda>c. white c) (s @ NUL # post) = s" using assms by (simp add: takeWhile_append2)
  then show ?thesis by (simp add: strtok_def Let_def nth_append)
qed

lemma strtok_some:
  assumes w: "\<forall>c \<in> set w. white c" and t: "t \<noteq> []" "\<forall>c \<in> set t. \<not> white c" and nf: "nul_free t"
    and r: "r = [] \<or> white (hd r)"
  shows "strtok (pre @ w @ t @ r @ NUL # post) (length pre) =
    Some (Some (length pre + length w),
      (if r = [] then pre @ w @ t @ NUL # post else pre @ w @ t @ NUL # tl r @ NUL # post),
      length pre + length w + length t + (if r = [] then 0 else 1))"
proof -
  have "takeWhile (\<lambda>c. white c) (w @ t @ r @ NUL # post) = w"
    using w t by (cases t) (simp_all add: takeWhile_append2)
  moreover have "takeWhile (\<lambda>c. \<not> white c \<and> c \<noteq> NUL) (t @ r @ NUL # post) = t"
  proof -
    have "\<forall>c \<in> set t. \<not> white c \<and> c \<noteq> NUL" using t nf by (auto simp: nul_free_def)
    moreover have "takeWhile (\<lambda>c. \<not> white c \<and> c \<noteq> NUL) (r @ NUL # post) = []"
      using r by (cases r) auto
    ultimately show ?thesis by (simp add: takeWhile_append2)
  qed
  moreover have "hd t \<noteq> NUL" "(t @ r @ NUL # post) ! 0 = hd t" using t nf by (cases t; auto)+
  moreover have "r \<noteq> [] \<Longrightarrow> hd r \<noteq> NUL" using r by (cases r) auto
  ultimately show ?thesis
    using t(1) by (cases t; cases r)
      (simp_all add: strtok_def Let_def nth_append list_update_append)
qed

section \<open>The vector\<close>

definition strings_at :: "char list \<Rightarrow> nat list \<Rightarrow> string list" where
  "strings_at buf ps = map (\<lambda>p. c_str (drop p buf)) ps"

text \<open>A string that ends before the position is not changed by what is written after it.\<close>

lemma c_str_terminated:
  "NUL \<in> set (drop p pre) \<Longrightarrow> c_str (drop p (pre @ x)) = c_str (drop p pre)"
proof -
  assume n: "NUL \<in> set (drop p pre)"
  then have "p < length pre" by (cases "p < length pre") auto
  then show ?thesis using n by (simp add: c_str_def takeWhile_append1 [of NUL])
qed

definition terminated :: "char list \<Rightarrow> nat list \<Rightarrow> bool" where
  "terminated pre ps \<longleftrightarrow> (\<forall>p \<in> set ps. NUL \<in> set (drop p pre))"

lemma strings_terminated:
  "terminated pre ps \<Longrightarrow> strings_at (pre @ x) ps = strings_at (pre @ y) ps"
  unfolding strings_at_def terminated_def
  by (rule map_cong [OF refl]) (metis c_str_terminated)

lemma terminated_append: "terminated pre ps \<Longrightarrow> terminated (pre @ x) ps"
  by (fastforce simp: terminated_def)

lemma arg_loop_tokens:
  assumes "nul_free s" and "MAXARGC - 1 \<le> argc + k" and "argc < MAXARGC - 1"
    and "s = [] \<or> terminated pre argv"
  shows "\<exists>buf' ps. arg_loop k (pre @ s @ NUL # post) (length pre) argc argv =
      Some (buf', if MAXARGC - 1 \<le> argc + length (tokens s) then Inl () else Inr (argv @ ps)) \<and>
    (MAXARGC - 1 \<le> argc + length (tokens s) \<or>
      strings_at buf' ps = tokens s \<and> strings_at buf' argv = strings_at (pre @ s @ NUL # post) argv)"
  using assms
proof (induction k arbitrary: pre s argc argv)
  case 0
  then show ?case by simp
next
  case (Suc k)
  let ?buf = "pre @ s @ NUL # post"
  show ?case
  proof (cases rule: first_word [of s])
    case 1
    then have "tokens s = []" using tokens_white [of s "[]"] by simp
    with Suc.prems(3) strtok_none [OF 1, of pre post] show ?thesis
      by (auto simp: strings_at_def)
  next
    case (2 w t r)
    let ?p = "length pre + length w"
    have nf: "nul_free t" "nul_free r" using Suc.prems(1) 2(1) by simp_all
    have trm: "terminated pre argv" using Suc.prems(4) 2(1,3) by auto
    have tok: "tokens s = t # tokens r"
      using 2 by (simp add: tokens_white tokens_word)
    note st = strtok_some [OF 2(2-4) nf(1) 2(5), of pre post]
    show ?thesis
    proof (cases "argc + 1 \<ge> MAXARGC - 1")
      case True
      with st 2(1) tok show ?thesis by auto
    next
      case False
      define pre' where "pre' = pre @ w @ t @ (if r = [] then [] else [NUL])"
      define s' where "s' = tl r"
      have buf1: "(if r = [] then pre @ w @ t @ NUL # post else pre @ w @ t @ NUL # tl r @ NUL # post) =
          pre' @ s' @ NUL # post"
        by (simp add: pre'_def s'_def)
      have save1: "length pre + length w + length t + (if r = [] then 0 else 1) = length pre'"
        by (simp add: pre'_def)
      have tok': "tokens r = tokens s'"
        using tokens_white [of "[hd r]" "tl r"] 2(5) by (cases r) (simp_all add: s'_def)
      have nf': "nul_free s'" using nf(2) by (cases r) (simp_all add: s'_def)
      have "terminated pre' (argv @ [?p])" if "r \<noteq> []"
        using terminated_append [OF trm, of "w @ t @ [NUL]"] that by (simp add: terminated_def pre'_def)
      then have "s' = [] \<or> terminated pre' (argv @ [?p])" by (cases "r = []") (simp_all add: s'_def)
      from Suc.IH [OF nf' _ _ this, of "argc + 1"] Suc.prems(2) False obtain buf' ps where
        ih: "arg_loop k (pre' @ s' @ NUL # post) (length pre') (argc + 1) (argv @ [?p]) =
            Some (buf', if MAXARGC - 1 \<le> argc + 1 + length (tokens s') then Inl () else Inr ((argv @ [?p]) @ ps))"
          "MAXARGC - 1 \<le> argc + 1 + length (tokens s') \<or> strings_at buf' ps = tokens s' \<and>
            strings_at buf' (argv @ [?p]) = strings_at (pre' @ s' @ NUL # post) (argv @ [?p])"
        by auto
      have "arg_loop (Suc k) ?buf (length pre) argc argv =
          arg_loop k (pre' @ s' @ NUL # post) (length pre') (argc + 1) (argv @ [?p])"
        using st False by (simp add: 2(1) buf1 save1)
      moreover have "strings_at (pre' @ s' @ NUL # post) argv = strings_at ?buf argv"
        using strings_terminated [OF trm, of "w @ t @ (if r = [] then [] else [NUL]) @ s' @ NUL # post"
          "s @ NUL # post"] by (simp add: pre'_def)
      moreover have "strings_at (pre' @ s' @ NUL # post) [?p] = [t]"
        using nf(1) by (simp add: strings_at_def pre'_def s'_def)
      ultimately show ?thesis
        using ih tok tok' by (intro exI [of _ buf'] exI [of _ "?p # ps"]) (auto simp: strings_at_def)
    qed
  qed
qed

section \<open>Properties\<close>

text \<open>
  C24. \<open>buf_args\<close> on a buffer that holds a string: it returns -1 when there is no word or more
  than 49, and otherwise calls the function once with all the words in order, except that
  \<open>argv[0]\<close> is the start of the buffer and so keeps the white space before the first word.
\<close>

theorem buf_args_words:
  assumes "holds buf s"
  shows "map_option snd (buf_args buf optfunc) =
    Some (if tokens s = [] \<or> 49 < length (tokens s) then -1
      else optfunc (length (tokens s))
        ((takeWhile (\<lambda>c. c \<in> set WHITE) s @ hd (tokens s)) # tl (tokens s)))"
proof -
  from assms obtain post where buf: "buf = s @ NUL # post" and nf: "nul_free s"
    by (auto simp: holds_def)
  show ?thesis
  proof (cases rule: first_word [of s])
    case 1
    then have "tokens s = []" using tokens_white [of s "[]"] by simp
    with strtok_none [OF 1, of "[]" post] show ?thesis by (simp add: buf_args_def buf)
  next
    case (2 w t r)
    have nft: "nul_free t" "nul_free r" "nul_free w" using nf 2(1) by simp_all
    have tok: "tokens s = t # tokens r" using 2 by (simp add: tokens_white tokens_word)
    have w: "takeWhile (\<lambda>c. c \<in> set WHITE) s = w"
      using 2 by (cases t) (simp_all add: takeWhile_append2)
    define pre where "pre = w @ t @ (if r = [] then [] else [NUL])"
    define s' where "s' = tl r"
    have st: "strtok buf 0 = Some (Some (length w), pre @ s' @ NUL # post, length pre)"
      using strtok_some [OF 2(2-4) nft(1) 2(5), of "[]" post] by (simp add: buf 2(1) pre_def s'_def)
    have tok': "tokens r = tokens s'"
      using tokens_white [of "[hd r]" "tl r"] 2(5) by (cases r) (simp_all add: s'_def)
    have "nul_free s'" using nft(2) by (cases r) (simp_all add: s'_def)
    moreover have "s' = [] \<or> terminated pre [0]"
      by (cases "r = []") (simp_all add: s'_def pre_def terminated_def)
    ultimately obtain buf' ps where
      lp: "arg_loop MAXARGC (pre @ s' @ NUL # post) (length pre) 0 [0] =
          Some (buf', if MAXARGC - 1 \<le> length (tokens s') then Inl () else Inr ([0] @ ps))"
        "MAXARGC - 1 \<le> length (tokens s') \<or> strings_at buf' ps = tokens s' \<and>
          strings_at buf' [0] = strings_at (pre @ s' @ NUL # post) [0]"
      using arg_loop_tokens [of s' 0 MAXARGC pre "[0]" post] by (auto simp: MAXARGC_def)
    have "strings_at (pre @ s' @ NUL # post) [0] = [w @ t]"
      using nft by (cases "r = []") (auto simp: strings_at_def pre_def c_str_append_NUL [of "w @ t", simplified] s'_def)
    with st lp tok tok' w show ?thesis
      by (auto simp: buf_args_def MAXARGC_def strings_at_def)
        (metis length_map)+
  qed
qed

theorem buf_args_words_witness:
  "map_option snd (buf_args ('' ls -l'' @ [NUL, NUL]) (\<lambda>n argv. if argv = ['' ls'', ''-l''] then 7 else 8)) =
    Some (if tokens '' ls -l'' = [] \<or> 49 < length (tokens '' ls -l'') then -1
      else (\<lambda>n argv. if argv = ['' ls'', ''-l''] then 7 else (8 :: int)) (length (tokens '' ls -l''))
        ((takeWhile (\<lambda>c. c \<in> set WHITE) '' ls -l'' @ hd (tokens '' ls -l'')) # tl (tokens '' ls -l'')))"
  by (rule buf_args_words) (simp add: holds_def NUL_def)

end
