(* ===== verification/TtyModes.thy ===== *)
theory TtyModes imports Prelude
begin

text \<open>
  \<open>lib/ttymodes.c\<close>: putting a terminal into cbreak or raw mode and back. The driver's
  \<open>tcgetattr\<close> and \<open>tcsetattr\<close> are parameters; what POSIX says of them is the interface
  \<open>terminal\<close>, in which \<open>tcsetattr\<close> may return success after a part of the changes only. Flag
  values are those of Linux.
\<close>

section \<open>Attributes\<close>

record termios =
  c_iflag :: u32
  c_oflag :: u32
  c_cflag :: u32
  c_lflag :: u32
  c_cc :: "nat \<Rightarrow> u8"

definition ECHO :: u32 where "ECHO = 0x8"
definition ICANON :: u32 where "ICANON = 0x2"
definition IEXTEN :: u32 where "IEXTEN = 0x8000"
definition ISIG :: u32 where "ISIG = 0x1"
definition BRKINT :: u32 where "BRKINT = 0x2"
definition ICRNL :: u32 where "ICRNL = 0x100"
definition INPCK :: u32 where "INPCK = 0x10"
definition ISTRIP :: u32 where "ISTRIP = 0x20"
definition IXON :: u32 where "IXON = 0x400"
definition CSIZE :: u32 where "CSIZE = 0x30"
definition PARENB :: u32 where "PARENB = 0x100"
definition CS8 :: u32 where "CS8 = 0x30"
definition OPOST :: u32 where "OPOST = 0x1"
definition VMIN :: nat where "VMIN = 6"
definition VTIME :: nat where "VTIME = 5"

lemmas flag_defs = ECHO_def ICANON_def IEXTEN_def ISIG_def BRKINT_def ICRNL_def INPCK_def
  ISTRIP_def IXON_def CSIZE_def PARENB_def CS8_def OPOST_def VMIN_def VTIME_def

section \<open>The module's state and operations\<close>

datatype ttymode = RESET | RAW | CBREAK

record 'w ttys =
  save_termios :: termios
  ttysavefd :: int
  ttystate :: ttymode
  errno :: int
  tty :: 'w

text \<open>
  \<open>tcget w fd\<close> is an errno or the attributes, \<open>tcset w fd b\<close> an errno or nothing; both with the
  driver's new state. The two wrappers also set \<open>errno\<close>.
\<close>

type_synonym 'w tcget = "'w \<Rightarrow> int \<Rightarrow> (int + termios) \<times> 'w"
type_synonym 'w tcset = "'w \<Rightarrow> int \<Rightarrow> termios \<Rightarrow> int option \<times> 'w"

definition tcgetattr :: "'w tcget \<Rightarrow> 'w ttys \<Rightarrow> int \<Rightarrow> termios option \<times> 'w ttys" where
  "tcgetattr tcget s fd = (case tcget (tty s) fd of
     (Inl e, w) \<Rightarrow> (None, s\<lparr>errno := e, tty := w\<rparr>) | (Inr b, w) \<Rightarrow> (Some b, s\<lparr>tty := w\<rparr>))"

definition tcsetattr :: "'w tcset \<Rightarrow> 'w ttys \<Rightarrow> int \<Rightarrow> termios \<Rightarrow> int \<times> 'w ttys" where
  "tcsetattr tcset s fd b = (case tcset (tty s) fd b of
     (Some e, w) \<Rightarrow> (-1, s\<lparr>errno := e, tty := w\<rparr>) | (None, w) \<Rightarrow> (0, s\<lparr>tty := w\<rparr>))"

definition cbreak_changes :: "termios \<Rightarrow> termios" where
  "cbreak_changes buf = buf\<lparr>c_lflag := c_lflag buf AND NOT (ECHO OR ICANON),
     c_cc := (c_cc buf)(VMIN := 1, VTIME := 0)\<rparr>"

definition cbreak_wrong :: "termios \<Rightarrow> bool" where
  "cbreak_wrong buf \<longleftrightarrow> c_lflag buf AND (ECHO OR ICANON) \<noteq> 0 \<or> c_cc buf VMIN \<noteq> 1 \<or> c_cc buf VTIME \<noteq> 0"

definition raw_changes :: "termios \<Rightarrow> termios" where
  "raw_changes buf = buf\<lparr>
     c_lflag := c_lflag buf AND NOT (ECHO OR ICANON OR IEXTEN OR ISIG),
     c_iflag := c_iflag buf AND NOT (BRKINT OR ICRNL OR INPCK OR ISTRIP OR IXON),
     c_cflag := (c_cflag buf AND NOT (CSIZE OR PARENB)) OR CS8,
     c_oflag := c_oflag buf AND NOT OPOST,
     c_cc := (c_cc buf)(VMIN := 1, VTIME := 0)\<rparr>"

definition raw_wrong :: "termios \<Rightarrow> bool" where
  "raw_wrong buf \<longleftrightarrow>
     c_lflag buf AND (ECHO OR ICANON OR IEXTEN OR ISIG) \<noteq> 0 \<or>
     c_iflag buf AND (BRKINT OR ICRNL OR INPCK OR ISTRIP OR IXON) \<noteq> 0 \<or>
     c_cflag buf AND (CSIZE OR PARENB OR CS8) \<noteq> CS8 \<or>
     c_oflag buf AND OPOST \<noteq> 0 \<or> c_cc buf VMIN \<noteq> 1 \<or> c_cc buf VTIME \<noteq> 0"

text \<open>The text \<open>tty_cbreak\<close> and \<open>tty_raw\<close> share, around their changes and their check.\<close>

definition tty_enter ::
  "'w tcget \<Rightarrow> 'w tcset \<Rightarrow> (termios \<Rightarrow> termios) \<Rightarrow> (termios \<Rightarrow> bool) \<Rightarrow> ttymode \<Rightarrow> 'w ttys \<Rightarrow> int \<Rightarrow> int \<times> 'w ttys"
where
  "tty_enter tcget tcset changes wrong mode s fd =
     (if ttystate s \<noteq> RESET then (-1, s\<lparr>errno := EINVAL\<rparr>)
      else case tcgetattr tcget s fd of
        (None, s) \<Rightarrow> (-1, s)
      | (Some buf, s) \<Rightarrow>
          let s = s\<lparr>save_termios := buf\<rparr> in
          (case tcsetattr tcset s fd (changes buf) of (r, s) \<Rightarrow>
            if r < 0 then (-1, s)
            else case tcgetattr tcget s fd of
              (None, s) \<Rightarrow>
                let err = errno s in
                (case tcsetattr tcset s fd (save_termios s) of (r, s) \<Rightarrow> (-1, s\<lparr>errno := err\<rparr>))
            | (Some buf, s) \<Rightarrow>
                if wrong buf then
                  (case tcsetattr tcset s fd (save_termios s) of (r, s) \<Rightarrow> (-1, s\<lparr>errno := EINVAL\<rparr>))
                else (0, s\<lparr>ttystate := mode, ttysavefd := fd\<rparr>)))"

definition tty_cbreak :: "'w tcget \<Rightarrow> 'w tcset \<Rightarrow> 'w ttys \<Rightarrow> int \<Rightarrow> int \<times> 'w ttys" where
  "tty_cbreak tcget tcset = tty_enter tcget tcset cbreak_changes cbreak_wrong CBREAK"

definition tty_raw :: "'w tcget \<Rightarrow> 'w tcset \<Rightarrow> 'w ttys \<Rightarrow> int \<Rightarrow> int \<times> 'w ttys" where
  "tty_raw tcget tcset = tty_enter tcget tcset raw_changes raw_wrong RAW"

definition tty_reset :: "'w tcset \<Rightarrow> 'w ttys \<Rightarrow> int \<Rightarrow> int \<times> 'w ttys" where
  "tty_reset tcset s fd =
     (if ttystate s = RESET then (0, s)
      else case tcsetattr tcset s fd (save_termios s) of (r, s) \<Rightarrow>
        if r < 0 then (-1, s) else (0, s\<lparr>ttystate := RESET\<rparr>))"

definition tty_atexit :: "'w tcset \<Rightarrow> 'w ttys \<Rightarrow> 'w ttys" where
  "tty_atexit tcset s = (if ttysavefd s \<ge> 0 then snd (tty_reset tcset s (ttysavefd s)) else s)"


section \<open>What the driver promises\<close>

locale terminal =
  fixes tcget :: "'w \<Rightarrow> int \<Rightarrow> (int + termios) \<times> 'w"
    and tcset :: "'w \<Rightarrow> int \<Rightarrow> termios \<Rightarrow> int option \<times> 'w"
    and attr :: "'w \<Rightarrow> int \<Rightarrow> termios"
  assumes get_ok: "tcget w fd = (Inr b, w') \<Longrightarrow> b = attr w fd \<and> attr w' = attr w"
    and get_error: "tcget w fd = (Inl e, w') \<Longrightarrow> attr w' = attr w"
    and set_error: "tcset w fd b = (Some e, w') \<Longrightarrow> attr w' = attr w"
    and set_other: "tcset w fd b = (r, w') \<Longrightarrow> fd' \<noteq> fd \<Longrightarrow> attr w' fd' = attr w fd'"
begin

lemma tcgetattr_attr:
  "tcgetattr tcget s fd = (r, s') \<Longrightarrow> attr (tty s') = attr (tty s) \<and> ttystate s' = ttystate s \<and>
     ttysavefd s' = ttysavefd s \<and> save_termios s' = save_termios s \<and>
     (case r of None \<Rightarrow> True | Some b \<Rightarrow> b = attr (tty s) fd)"
  unfolding tcgetattr_def
  by (auto split: prod.splits sum.splits dest: get_ok get_error)

lemma tcsetattr_attr:
  "tcsetattr tcset s fd b = (r, s') \<Longrightarrow> ttystate s' = ttystate s \<and> ttysavefd s' = ttysavefd s \<and>
     save_termios s' = save_termios s \<and> (r < 0 \<longrightarrow> attr (tty s') = attr (tty s)) \<and>
     (\<forall>fd'. fd' \<noteq> fd \<longrightarrow> attr (tty s') fd' = attr (tty s) fd')"
  unfolding tcsetattr_def
  by (auto split: prod.splits option.splits dest: set_error set_other)

text \<open>Success means that the mode has stuck, and that the old attributes are saved.\<close>

lemma enter_ok:
  assumes "tty_enter tcget tcset changes wrong mode s fd = (0, s')"
  shows "ttystate s = RESET \<and> ttystate s' = mode \<and> ttysavefd s' = fd \<and>
    save_termios s' = attr (tty s) fd \<and> \<not> wrong (attr (tty s') fd) \<and>
    (\<forall>fd'. fd' \<noteq> fd \<longrightarrow> attr (tty s') fd' = attr (tty s) fd')"
proof -
  from assms have reset: "ttystate s = RESET" by (auto simp: tty_enter_def split: if_splits)
  obtain g1 s1 where g1: "tcgetattr tcget s fd = (g1, s1)" by (cases "tcgetattr tcget s fd")
  with assms reset obtain b where b: "g1 = Some b" by (cases g1) (auto simp: tty_enter_def)
  let ?s1 = "s1\<lparr>save_termios := b\<rparr>"
  obtain r2 s2 where t2: "tcsetattr tcset ?s1 fd (changes b) = (r2, s2)" by (cases "tcsetattr tcset ?s1 fd (changes b)")
  with assms reset g1 b have r2: "\<not> r2 < 0" by (auto simp: tty_enter_def split: if_splits)
  obtain g3 s3 where g3: "tcgetattr tcget s2 fd = (g3, s3)" by (cases "tcgetattr tcget s2 fd")
  with assms reset g1 b t2 r2 obtain b3 where b3: "g3 = Some b3"
    by (cases g3) (auto simp: tty_enter_def Let_def split: prod.splits)
  with assms reset g1 b t2 r2 g3 have "\<not> wrong b3" "s' = s3\<lparr>ttystate := mode, ttysavefd := fd\<rparr>"
    by (auto simp: tty_enter_def Let_def split: prod.splits if_splits)
  with reset tcgetattr_attr [OF g1] tcsetattr_attr [OF t2] tcgetattr_attr [OF g3] b b3
  show ?thesis by auto
qed

lemma enter_fails:
  assumes "tty_enter tcget tcset changes wrong mode s fd = (r, s')" and "r \<noteq> 0"
  shows "r = -1 \<and> ttystate s' = ttystate s \<and> ttysavefd s' = ttysavefd s \<and>
    (ttystate s \<noteq> RESET \<longrightarrow> tty s' = tty s \<and> save_termios s' = save_termios s \<and> errno s' = EINVAL)"
  using assms unfolding tty_enter_def Let_def
  by (auto split: if_splits prod.splits option.splits dest!: tcgetattr_attr tcsetattr_attr)

end

section \<open>A driver\<close>

text \<open>
  A driver that does what its script says: a \<open>tcgetattr\<close> fails with a non-zero errno or
  succeeds; a \<open>tcsetattr\<close> fails, makes all changes, or some function of old and new
  attributes. An exhausted script succeeds in full.
\<close>

datatype sres = SFail int | SFull | SPart "termios \<Rightarrow> termios \<Rightarrow> termios"

record tdrv =
  t_attr :: "int \<Rightarrow> termios"
  t_gets :: "int list"
  t_sets :: "sres list"

definition drv_get :: "tdrv tcget" where
  "drv_get w fd = (case t_gets w of [] \<Rightarrow> (Inr (t_attr w fd), w)
     | e # es \<Rightarrow> (if e \<noteq> 0 then Inl e else Inr (t_attr w fd), w\<lparr>t_gets := es\<rparr>))"

definition drv_set :: "tdrv tcset" where
  "drv_set w fd b = (case t_sets w of
       [] \<Rightarrow> (None, w\<lparr>t_attr := (t_attr w)(fd := b)\<rparr>)
     | SFail e # rs \<Rightarrow> (Some e, w\<lparr>t_sets := rs\<rparr>)
     | SFull # rs \<Rightarrow> (None, w\<lparr>t_sets := rs, t_attr := (t_attr w)(fd := b)\<rparr>)
     | SPart f # rs \<Rightarrow> (None, w\<lparr>t_sets := rs, t_attr := (t_attr w)(fd := f (t_attr w fd) b)\<rparr>))"

interpretation dt: terminal drv_get drv_set t_attr
  by unfold_locales
    (auto simp: drv_get_def drv_set_def split: list.splits sres.splits if_splits)

lemma cbreak_not_wrong [simp]: "\<not> cbreak_wrong (cbreak_changes b)"
  by (simp add: cbreak_wrong_def cbreak_changes_def VMIN_def VTIME_def)
    (auto simp: bit_eq_iff bit_simps)

lemma raw_not_wrong [simp]: "\<not> raw_wrong (raw_changes b)"
  by (simp add: raw_wrong_def raw_changes_def VMIN_def VTIME_def)
    (auto simp: bit_eq_iff bit_simps)

section \<open>Properties\<close>


definition cooked :: termios where
  "cooked = \<lparr>c_iflag = 0x500, c_oflag = 5, c_cflag = 0xBF, c_lflag = 0x8A3B, c_cc = (\<lambda>i. 4)\<rparr>"

definition fresh_tty :: "sres list \<Rightarrow> tdrv ttys" where
  "fresh_tty rs = \<lparr>save_termios = cooked, ttysavefd = -1, ttystate = RESET, errno = 0,
     tty = \<lparr>t_attr = (\<lambda>fd. cooked), t_gets = [], t_sets = rs\<rparr>\<rparr>"

lemma fresh_cbreak:
  "tty_cbreak drv_get drv_set (fresh_tty []) 0 =
    (0, \<lparr>save_termios = cooked, ttysavefd = 0, ttystate = CBREAK, errno = 0,
      tty = \<lparr>t_attr = (\<lambda>fd. cooked)(0 := cbreak_changes cooked), t_gets = [], t_sets = []\<rparr>\<rparr>)"
  by (simp add: tty_cbreak_def tty_enter_def fresh_tty_def tcgetattr_def tcsetattr_def drv_get_def drv_set_def)


text \<open>
  When they fail the module's state is as before, and the terminal is as before too if the
  calls after the first \<open>tcsetattr\<close> work, whatever that one did: a change that did not fully
  stick, or could not be verified, is undone.
\<close>

theorem tty_failure_restores:
  assumes "(if raw then tty_raw drv_get drv_set s fd else tty_cbreak drv_get drv_set s fd) = (r, s')"
    and "r \<noteq> 0" and "t_sets (tty s) = [x]"
  shows "r = -1 \<and> ttystate s' = ttystate s \<and> ttysavefd s' = ttysavefd s \<and>
    t_attr (tty s') = t_attr (tty s)"
proof -
  have "t_attr (tty s') = t_attr (tty s)"
    if "tty_enter drv_get drv_set changes wrong mode s fd = (r, s')" for changes wrong mode
    using that assms(2,3)
    by (cases x) (auto simp: tty_enter_def tcgetattr_def tcsetattr_def drv_get_def drv_set_def Let_def
        fun_upd_idem split: if_splits list.splits prod.splits option.splits sum.splits)
  then show ?thesis
    using assms(1,2) dt.enter_fails [of raw_changes raw_wrong RAW s fd r s']
      dt.enter_fails [of cbreak_changes cbreak_wrong CBREAK s fd r s']
    by (auto simp: tty_raw_def tty_cbreak_def split: if_splits)
qed

text \<open>A driver that changes the modes but ignores \<open>VMIN\<close>.\<close>

definition ignores_cc :: sres where
  "ignores_cc = SPart (\<lambda>old new. new\<lparr>c_cc := c_cc old\<rparr>)"

lemma partial_cbreak:
  "tty_cbreak drv_get drv_set (fresh_tty [ignores_cc]) 0 =
    (-1, \<lparr>save_termios = cooked, ttysavefd = -1, ttystate = RESET, errno = EINVAL,
      tty = \<lparr>t_attr = (\<lambda>fd. cooked), t_gets = [], t_sets = []\<rparr>\<rparr>)"
  by (simp add: tty_cbreak_def tty_enter_def fresh_tty_def tcgetattr_def tcsetattr_def drv_get_def
      drv_set_def ignores_cc_def cbreak_wrong_def cbreak_changes_def cooked_def fun_upd_idem)

theorem tty_failure_restores_witness:
  "(-1 :: int) = -1 \<and>
   ttystate (snd (tty_cbreak drv_get drv_set (fresh_tty [ignores_cc]) 0)) = ttystate (fresh_tty [ignores_cc]) \<and>
   ttysavefd (snd (tty_cbreak drv_get drv_set (fresh_tty [ignores_cc]) 0)) = ttysavefd (fresh_tty [ignores_cc]) \<and>
   t_attr (tty (snd (tty_cbreak drv_get drv_set (fresh_tty [ignores_cc]) 0))) = t_attr (tty (fresh_tty [ignores_cc]))"
  by (rule tty_failure_restores [where raw = False and fd = 0 and x = ignores_cc])
    (simp_all add: partial_cbreak, simp add: fresh_tty_def)

text \<open>
  \<open>tty_reset\<close>, or \<open>tty_atexit\<close> without knowing the descriptor, brings back exactly the
  attributes the terminal had before the mode was entered, and the modes can be entered again.
\<close>

theorem tty_reset_roundtrip:
  assumes "(if raw then tty_raw drv_get drv_set s fd else tty_cbreak drv_get drv_set s fd) = (0, s')"
    and "t_sets (tty s') = []" and "0 \<le> fd"
  shows "\<exists>s''. tty_reset drv_set s' fd = (0, s'') \<and> tty_atexit drv_set s' = s'' \<and>
    ttystate s'' = RESET \<and> t_attr (tty s'') = t_attr (tty s)"
proof -
  let ?old = "t_attr (tty s)"
  from assms(1) have st: "ttystate s' \<noteq> RESET" "ttysavefd s' = fd" "save_termios s' = ?old fd"
      "\<forall>fd'. fd' \<noteq> fd \<longrightarrow> t_attr (tty s') fd' = ?old fd'"
    using dt.enter_ok [of raw_changes raw_wrong RAW s fd s']
      dt.enter_ok [of cbreak_changes cbreak_wrong CBREAK s fd s']
    by (auto simp: tty_raw_def tty_cbreak_def split: if_splits)
  then have "(t_attr (tty s'))(fd := ?old fd) = ?old" by (auto simp: fun_eq_iff)
  with st assms(2,3) show ?thesis
    by (simp add: tty_reset_def tty_atexit_def tcsetattr_def drv_set_def)
qed

theorem tty_reset_roundtrip_witness:
  "\<exists>s''. tty_reset drv_set (snd (tty_cbreak drv_get drv_set (fresh_tty []) 0)) 0 = (0, s'') \<and>
     tty_atexit drv_set (snd (tty_cbreak drv_get drv_set (fresh_tty []) 0)) = s'' \<and>
     ttystate s'' = RESET \<and> t_attr (tty s'') = t_attr (tty (fresh_tty []))"
  by (rule tty_reset_roundtrip [where raw = False]) (simp_all add: fresh_cbreak)

text \<open>
  Over a driver that does what it is told the modes are entered at once, changing only the
  flags the mode names; a second mode is refused with \<open>EINVAL\<close> until the first is reset.
\<close>

theorem tty_mode_entered:
  assumes "ttystate s = RESET" and "t_gets (tty s) = []" and "t_sets (tty s) = []"
  shows "\<exists>s'. (if raw then tty_raw drv_get drv_set s fd else tty_cbreak drv_get drv_set s fd) = (0, s') \<and>
    t_attr (tty s') = (t_attr (tty s))(fd := (if raw then raw_changes else cbreak_changes) (t_attr (tty s) fd)) \<and>
    tty_raw drv_get drv_set s' fd = (-1, s'\<lparr>errno := EINVAL\<rparr>) \<and>
    tty_cbreak drv_get drv_set s' fd = (-1, s'\<lparr>errno := EINVAL\<rparr>)"
  using assms
  by (cases raw) (simp_all add: tty_raw_def tty_cbreak_def tty_enter_def tcgetattr_def tcsetattr_def
      drv_get_def drv_set_def)

theorem tty_mode_entered_witness:
  "\<exists>s'. (if True then tty_raw drv_get drv_set (fresh_tty []) 3 else tty_cbreak drv_get drv_set (fresh_tty []) 3) = (0, s') \<and>
    t_attr (tty s') = (t_attr (tty (fresh_tty [])))(3 := (if True then raw_changes else cbreak_changes) (t_attr (tty (fresh_tty [])) 3)) \<and>
    tty_raw drv_get drv_set s' 3 = (-1, s'\<lparr>errno := EINVAL\<rparr>) \<and>
    tty_cbreak drv_get drv_set s' 3 = (-1, s'\<lparr>errno := EINVAL\<rparr>)"
  by (rule tty_mode_entered) (simp_all add: fresh_tty_def)

end
