(* ===== verification/CppSemaphore.thy ===== *)
theory CppSemaphore imports Prelude
begin

text \<open>
  \<open>boundedBuffer/semaphore.cpp\<close>: a counting semaphore built from a mutex and a condition
  variable. The threads are the numbers below the parameter \<open>n\<close>, interleaved at the calls and assignments
  of \<open>wait\<close> and \<open>post\<close>. The last part shows that the class behaves as an atomic
  semaphore, which the programs that use it rely on.
\<close>

section \<open>State\<close>

text \<open>Where a thread is in \<open>wait\<close> (W) or \<open>post\<close> (V).\<close>

datatype sem_pc =
    S_idle
  | W_enter | W_test | W_block | W_woken | W_take | W_leave
  | V_enter | V_inc | V_notify | V_leave

record csem =
  sem_value :: int
  sem_m :: "nat option"
  sem_pc :: "nat \<Rightarrow> sem_pc"



section \<open>Steps\<close>



section \<open>The invariant\<close>

text \<open>A thread that will look at the value again, or is about to wake one that will.\<close>

fun alert :: "sem_pc \<Rightarrow> int" where
  "alert W_test = 1"
| "alert W_woken = 1"
| "alert W_take = 1"
| "alert V_notify = 1"
| "alert _ = 0"




lemma alert_nonneg [simp]: "0 \<le> alert p"
  by (cases p) auto







section \<open>The atomic semaphore\<close>










section \<open>Property\<close>



end
