(* ===== verification/Primes.thy ===== *)
theory Primes imports Prelude
begin

text \<open>
  \<open>boundedBuffer/primes.cpp\<close> (and its copies in \<open>semaphore\<close> and
  \<open>producerConsumer\<close>): the class \<open>Primes\<close>. The values are C++ \<open>int\<close>s; the
  product \<open>i * i\<close> of the loop condition and the increment of the argument are the two
  places where the arithmetic can leave the type, and both are \<open>Undef\<close> there.
\<close>

section \<open>The class\<close>

lemma le_square: "(i :: int) \<le> i * i"
proof (cases "i \<le> 0")
  case True
  then have "0 \<le> i * i" by (simp add: mult_nonpos_nonpos)
  with True show ?thesis by linarith
next
  case False
  then show ?thesis by (simp add: mult_le_cancel_left1)
qed

text \<open>The loop of \<open>isPrime\<close>, from a given \<open>i\<close>.\<close>

function prime_loop :: "int \<Rightarrow> int \<Rightarrow> bool outcome" where
  "prime_loop num i =
     (if INT_MAX < i * i then Undef
      else if \<not> i * i \<le> num then Ret True
      else if num mod i = 0 \<or> num mod (i + 2) = 0 then Ret False
      else prime_loop num (i + 6))"
  by auto

termination
proof (relation "measure (\<lambda>(num, i). nat (INT_MAX + 1 - i))")
  fix num i :: int
  assume "\<not> INT_MAX < i * i"
  with le_square [of i] have "i \<le> INT_MAX" by linarith
  then show "((num, i + 6), (num, i)) \<in> measure (\<lambda>(num, i). nat (INT_MAX + 1 - i))"
    by simp
qed simp

declare prime_loop.simps [simp del]

definition isPrime :: "int \<Rightarrow> bool outcome" where
  "isPrime num =
     (if num \<le> 1 then Ret False
      else if num \<le> 3 then Ret True
      else if num mod 2 = 0 \<or> num mod 3 = 0 then Ret False
      else prime_loop num 5)"

function getNextPrime :: "int \<Rightarrow> int outcome" where
  "getNextPrime p =
     (if INT_MAX \<le> p then Undef
      else case isPrime (p + 1) of
          Ret b \<Rightarrow> if b then Ret (p + 1) else getNextPrime (p + 1)
        | _ \<Rightarrow> Undef)"
  by auto
termination
  by (relation "measure (\<lambda>p. nat (INT_MAX - p))") auto

declare getNextPrime.simps [simp del]

section \<open>Primes\<close>

definition is_prime :: "int \<Rightarrow> bool" where
  "is_prime n \<longleftrightarrow> 1 < n \<and> (\<forall>d. 1 < d \<longrightarrow> d < n \<longrightarrow> \<not> d dvd n)"

text \<open>The first candidate divisor whose square is no \<open>int\<close> any more is 46343, so the last
  square the loop can compare with is that of 46337.\<close>

definition square_limit :: int where "square_limit = 46337 * 46337"

text \<open>What the loop has established when it comes to \<open>i\<close>.\<close>

definition no_divisor_below :: "int \<Rightarrow> int \<Rightarrow> bool" where
  "no_divisor_below num i \<longleftrightarrow> (\<forall>d. 1 < d \<longrightarrow> d < i \<longrightarrow> \<not> d dvd num)"

lemma no_divisor_below_start:
  assumes "num mod 2 \<noteq> 0" "num mod 3 \<noteq> 0"
  shows "no_divisor_below num 5"
proof -
  { fix d :: int
    assume "1 < d" "d < 5" "d dvd num"
    then consider "d = 2" | "d = 3" | "d = 4" by linarith
    then have False
    proof cases
      case 3
      with \<open>d dvd num\<close> have "2 dvd num" by (auto elim: dvdE)
      with assms show False by (simp add: dvd_eq_mod_eq_0)
    qed (use assms \<open>d dvd num\<close> in \<open>simp_all add: dvd_eq_mod_eq_0\<close>) }
  then show ?thesis by (auto simp: no_divisor_below_def)
qed

lemma multiple_of_2_or_3:
  assumes "num mod 2 \<noteq> 0" "num mod 3 \<noteq> 0" "(d :: int) dvd num"
  shows "d mod 6 = 1 \<or> d mod 6 = 5"
proof -
  have "\<not> 2 dvd num" "\<not> 3 dvd num"
    using assms(1,2) by (simp_all only: dvd_eq_mod_eq_0 not_False_eq_True)
  then have "\<not> 2 dvd d" "\<not> 3 dvd d"
    using dvd_trans [OF _ assms(3)] by blast+
  then show ?thesis by presburger
qed

text \<open>Of six numbers in a row from \<open>i\<close>, only \<open>i\<close> and \<open>i + 2\<close> can be divisors.\<close>

lemma candidates:
  assumes "i mod 6 = 5" "i \<le> d" "d < i + 6" "d mod 6 = 1 \<or> d mod 6 = (5 :: int)"
  shows "d = i \<or> d = i + 2"
proof -
  consider "d = i" | "d = i + 1" | "d = i + 2" | "d = i + 3" | "d = i + 4" | "d = i + 5"
    using assms(2,3) by linarith
  then show ?thesis
    by cases (use assms(1,4) in \<open>simp_all add: mod_add_left_eq [of i 6, symmetric]\<close>)
qed

lemma no_divisor_below_step:
  assumes "num mod 2 \<noteq> 0" "num mod 3 \<noteq> 0" "i mod 6 = 5"
    and "no_divisor_below num i" "num mod i \<noteq> 0" "num mod (i + 2) \<noteq> 0"
  shows "no_divisor_below num (i + 6)"
proof -
  { fix d :: int
    assume d: "1 < d" "d < i + 6" "d dvd num"
    then have "d mod 6 = 1 \<or> d mod 6 = 5" using multiple_of_2_or_3 assms by blast
    moreover have "\<not> d < i" using d assms(4) unfolding no_divisor_below_def by blast
    then have "i \<le> d" by simp
    ultimately have "d = i \<or> d = i + 2" using candidates assms(3) d(2) by blast
    with d(3) assms(5,6) have False by (auto simp only: dvd_eq_mod_eq_0) }
  then show ?thesis by (auto simp: no_divisor_below_def)
qed

lemma prime_by_root:
  assumes "1 < num" "0 < i" "num < i * i" "no_divisor_below num i"
  shows "is_prime num"
proof -
  { fix d :: int
    assume d: "1 < d" "d < num" "d dvd num"
    then obtain k where k: "num = d * k" by (auto elim: dvdE)
    have "1 < k"
    proof (rule ccontr)
      assume "\<not> 1 < k"
      then have "d * k \<le> d * 1" using d(1) by (intro mult_left_mono) auto
      with k d(2) show False by simp
    qed
    have "\<not> d < i" "\<not> k < i"
      using d k \<open>1 < k\<close> assms(4) unfolding no_divisor_below_def by auto
    then have "i \<le> d" "i \<le> k" by simp_all
    then have "i * i \<le> d * k" using assms(2) by (intro mult_mono) auto
    with assms(3) k have False by simp }
  with assms(1) show ?thesis by (auto simp: is_prime_def)
qed


section \<open>The loop\<close>

lemma int_square_bound:
  assumes "0 \<le> i" "i mod 6 = (5 :: int)"
  shows "INT_MAX < i * i \<longleftrightarrow> 46343 \<le> i"
proof
  assume "INT_MAX < i * i"
  show "46343 \<le> i"
  proof (rule ccontr)
    assume "\<not> 46343 \<le> i"
    with assms have "i \<le> 46337" by presburger
    with assms(1) have "i * i \<le> 46337 * 46337" by (intro mult_mono) auto
    with \<open>INT_MAX < i * i\<close> show False by (simp add: INT_MAX_def)
  qed
next
  assume "46343 \<le> i"
  then have "46343 * 46343 \<le> i * i" by (intro mult_mono) auto
  then show "INT_MAX < i * i" by (simp add: INT_MAX_def)
qed

definition loop_inv :: "int \<Rightarrow> int \<Rightarrow> bool" where
  "loop_inv num i \<longleftrightarrow> i mod 6 = 5 \<and> 5 \<le> i \<and> i \<le> 46343 \<and> no_divisor_below num i \<and>
     (i = 5 \<or> (i - 6) * (i - 6) \<le> num)"

lemma loop_inv_step:
  assumes "num mod 2 \<noteq> 0" "num mod 3 \<noteq> 0" "loop_inv num i" "i * i \<le> INT_MAX" "i * i \<le> num"
    "num mod i \<noteq> 0" "num mod (i + 2) \<noteq> 0"
  shows "loop_inv num (i + 6)"
proof -
  have "i < 46343" "i mod 6 = 5"
    using assms(3,4) int_square_bound [of i] by (auto simp: loop_inv_def)
  then have "i + 6 \<le> 46343" "(i + 6) mod 6 = 5" by presburger+
  with assms show ?thesis using no_divisor_below_step [of num i] by (auto simp: loop_inv_def)
qed

text \<open>What the loop is to return for a number without the divisors 2 and 3.\<close>

definition verdict :: "int \<Rightarrow> bool outcome" where
  "verdict num = (if is_prime num \<and> square_limit \<le> num then Undef else Ret (is_prime num))"

lemma divisor_not_prime: "1 < d \<Longrightarrow> d < num \<Longrightarrow> num mod d = 0 \<Longrightarrow> verdict num = Ret False"
  by (auto simp: verdict_def is_prime_def dvd_eq_mod_eq_0)

lemma prime_loop_correct:
  assumes "num mod 2 \<noteq> 0" "num mod 3 \<noteq> 0" "3 < num" "num \<le> INT_MAX" "loop_inv num i"
  shows "prime_loop num i = verdict num"
  using assms
proof (induction num i rule: prime_loop.induct)
  case (1 num i)
  have i: "5 \<le> i" "i mod 6 = 5" and below: "no_divisor_below num i"
    using \<open>loop_inv num i\<close> by (auto simp: loop_inv_def)
  have big: "i + 2 < i * i"
  proof -
    have "5 * i \<le> i * i" using i by (intro mult_right_mono) auto
    with i show ?thesis by linarith
  qed
  consider (overflow) "INT_MAX < i * i" | (root) "i * i \<le> INT_MAX" "num < i * i"
    | (divides) "i * i \<le> INT_MAX" "i * i \<le> num" "num mod i = 0 \<or> num mod (i + 2) = 0"
    | (next_i) "i * i \<le> INT_MAX" "i * i \<le> num" "num mod i \<noteq> 0" "num mod (i + 2) \<noteq> 0"
    by linarith
  then show ?case
  proof cases
    case overflow
    with int_square_bound [of i] i \<open>loop_inv num i\<close> have "i = 46343" by (auto simp: loop_inv_def)
    moreover from this \<open>loop_inv num i\<close> have "square_limit \<le> num"
      by (simp add: loop_inv_def square_limit_def)
    moreover have "is_prime num"
      using prime_by_root [of num i] overflow below i 1 by linarith
    ultimately show ?thesis
      using overflow by (subst prime_loop.simps) (simp add: verdict_def)
  next
    case root
    then have "i < 46343" using int_square_bound [of i] i by linarith
    with i have "i \<le> 46337" by presburger
    with i have "i * i \<le> square_limit" unfolding square_limit_def by (intro mult_mono) auto
    moreover have "is_prime num"
      using prime_by_root [of num i] root below i 1 by linarith
    ultimately show ?thesis using root by (simp add: prime_loop.simps [of num i] verdict_def)
  next
    case divides
    then have "verdict num = Ret False"
      using big i divisor_not_prime [of i num] divisor_not_prime [of "i + 2" num] by auto
    with divides show ?thesis by (simp add: prime_loop.simps [of num i])
  next
    case next_i
    with loop_inv_step [of num i] 1 have "loop_inv num (i + 6)" by blast
    with 1 next_i have "prime_loop num (i + 6) = verdict num" by force
    with next_i show ?thesis by (simp add: prime_loop.simps [of num i])
  qed
qed

lemma small_is_prime: "num \<le> 1 \<Longrightarrow> \<not> is_prime num" "is_prime 2" "is_prime 3"
proof -
  have "d = 2" if "1 < d" "d < 3" for d :: int using that by linarith
  then have "\<not> d dvd 3" if "1 < d" "d < 3" for d :: int using that by fastforce
  then show "num \<le> 1 \<Longrightarrow> \<not> is_prime num" "is_prime 2" "is_prime 3"
    by (auto simp: is_prime_def)
qed

lemma isPrime_verdict:
  assumes "num \<le> INT_MAX"
  shows "isPrime num = verdict num"
proof -
  consider "num \<le> 1" | "num = 2 \<or> num = 3" | (even) "3 < num" "num mod 2 = 0 \<or> num mod 3 = 0"
    | (odd) "3 < num" "num mod 2 \<noteq> 0" "num mod 3 \<noteq> 0" by linarith
  then show ?thesis
  proof cases
    case even
    then show ?thesis
      using divisor_not_prime [of 2 num] divisor_not_prime [of 3 num] by (auto simp: isPrime_def)
  next
    case odd
    then have "loop_inv num 5" using no_divisor_below_start by (simp add: loop_inv_def)
    with odd assms show ?thesis by (simp add: isPrime_def prime_loop_correct)
  qed (auto simp: isPrime_def verdict_def small_is_prime square_limit_def)
qed


section \<open>The search\<close>

text \<open>The prime after a number, if the search can decide about it.\<close>

definition next_prime :: "int \<Rightarrow> int \<Rightarrow> bool" where
  "next_prime p q \<longleftrightarrow> is_prime q \<and> p < q \<and> (\<forall>r. p < r \<longrightarrow> r < q \<longrightarrow> \<not> is_prime r)"

lemma next_prime_unique: "next_prime p q \<Longrightarrow> next_prime p q' \<Longrightarrow> q = q'"
  unfolding next_prime_def by (meson linorder_neqE_linordered_idom)

lemma next_prime_Suc:
  "next_prime p q \<longleftrightarrow> (if is_prime (p + 1) then q = p + 1 else next_prime (p + 1) q)"
proof -
  have step: "p < r \<longleftrightarrow> r = p + 1 \<or> p + 1 < r" for r by linarith
  show ?thesis
    by (cases "is_prime (p + 1)") (auto simp: next_prime_def step)
qed

lemma least_prime_above:
  assumes "is_prime r" "p < r"
  shows "\<exists>q \<le> r. next_prime p q"
  using assms
proof (induction "nat (r - p)" arbitrary: p)
  case (Suc n)
  show ?case
  proof (cases "is_prime (p + 1)")
    case True
    with Suc.prems show ?thesis by (intro exI [of _ "p + 1"]) (simp add: next_prime_Suc [of p])
  next
    case False
    with Suc.prems have "p + 1 < r" by (cases "r = p + 1") auto
    moreover from this Suc.hyps(2) have "n = nat (r - (p + 1))" by linarith
    ultimately show ?thesis using Suc.hyps(1) Suc.prems(1) False by (simp add: next_prime_Suc [of p])
  qed
qed simp

lemma getNextPrime_search:
  "p \<le> INT_MAX \<Longrightarrow> getNextPrime p = Undef \<and> (\<forall>q. next_prime p q \<longrightarrow> square_limit \<le> q) \<or>
     (\<exists>q. getNextPrime p = Ret q \<and> next_prime p q \<and> q < square_limit)"
proof (induction p rule: getNextPrime.induct)
  case (1 p)
  consider (top) "p = INT_MAX" | (hit) "p < INT_MAX" "is_prime (p + 1)" "p + 1 < square_limit"
    | (overflow) "p < INT_MAX" "is_prime (p + 1)" "square_limit \<le> p + 1"
    | (miss) "p < INT_MAX" "\<not> is_prime (p + 1)" using \<open>p \<le> INT_MAX\<close> by linarith
  then show ?case
  proof cases
    case top
    then show ?thesis
      by (subst (1 2) getNextPrime.simps) (auto simp: next_prime_def square_limit_def INT_MAX_def)
  next
    case hit
    then show ?thesis
      by (subst (1 2) getNextPrime.simps)
        (simp add: isPrime_verdict verdict_def next_prime_Suc [of p])
  next
    case overflow
    then show ?thesis
      by (subst (1 2) getNextPrime.simps)
        (simp add: isPrime_verdict verdict_def next_prime_Suc [of p])
  next
    case miss
    then have "getNextPrime p = getNextPrime (p + 1)"
      by (subst getNextPrime.simps) (simp add: isPrime_verdict verdict_def)
    moreover have "isPrime (p + 1) = Ret False"
      using miss by (simp add: isPrime_verdict verdict_def)
    ultimately show ?thesis
      using 1(1) [of False] miss by (auto simp: next_prime_Suc [of p])
  qed
qed

lemma is_prime_1000003: "is_prime 1000003"
proof -
  have "isPrime 1000003 = Ret True" by (simp add: isPrime_def prime_loop.simps INT_MAX_def)
  then show ?thesis by (simp add: isPrime_verdict INT_MAX_def verdict_def split: if_splits)
qed

section \<open>Properties\<close>

text \<open>
  \<open>isPrime\<close> decides primality: for every \<open>int\<close> it returns whether the number is a
  prime, except for the primes from 46337 squared on, where the product \<open>i * i\<close> of the
  loop condition overflows before the loop ends.
\<close>
theorem isPrime_decides:
  "num \<le> INT_MAX \<Longrightarrow>
     isPrime num = (if is_prime num \<and> square_limit \<le> num then Undef else Ret (is_prime num))"
  by (simp add: isPrime_verdict verdict_def)

theorem isPrime_decides_witness: "isPrime 91 = Ret False \<and> \<not> is_prime 91"
proof -
  have "isPrime 91 = Ret False" by (simp add: isPrime_def prime_loop.simps INT_MAX_def)
  moreover from this have "\<not> is_prime 91"
    using isPrime_decides [of 91] by (simp add: INT_MAX_def split: if_splits)
  ultimately show ?thesis by simp
qed

text \<open>
  C31. The search of \<open>getNextPrime\<close> ends for every \<open>int\<close>: it returns the least prime
  above its argument, or it overflows because there is no prime between the argument and 46337
  squared, which does not happen below 1000003.
\<close>
theorem getNextPrime_least:
  "p \<le> INT_MAX \<Longrightarrow>
     (\<exists>q. getNextPrime p = Ret q \<and> next_prime p q \<and> q < square_limit) \<or>
     (getNextPrime p = Undef \<and> 1000003 \<le> p \<and> \<not> (\<exists>q. is_prime q \<and> p < q \<and> q < square_limit))"
proof -
  assume p: "p \<le> INT_MAX"
  { assume "\<not> (\<exists>q. getNextPrime p = Ret q \<and> next_prime p q \<and> q < square_limit)"
    with getNextPrime_search [OF p]
    have undef: "getNextPrime p = Undef" and none: "\<And>q. next_prime p q \<Longrightarrow> square_limit \<le> q" by auto
    have no: "\<not> is_prime q" if "p < q" "q < square_limit" for q
      using that none least_prime_above [of q p] by force
    moreover have "1000003 \<le> p"
      using no [of 1000003] is_prime_1000003 by (force simp: square_limit_def)
    ultimately have ?thesis using undef by blast }
  then show ?thesis by blast
qed

theorem getNextPrime_least_witness: "getNextPrime 13 = Ret 17 \<and> next_prime 13 17"
proof -
  have "getNextPrime 13 = Ret 17"
    by (simp add: getNextPrime.simps isPrime_def prime_loop.simps INT_MAX_def)
  then show ?thesis using getNextPrime_least [of 13] by (auto simp: INT_MAX_def)
qed

end
