(* ===== verification/BoundedBuffer.thy ===== *)
theory BoundedBuffer imports Primes
begin

text \<open>
  \<open>boundedBuffer/boundedBuffer.cpp\<close>: producers put consecutive primes into a bounded
  queue and consumers take them out, under four semaphores. The machine interleaves \<open>np\<close>
  producers and \<open>nc\<close> consumers (10 each in \<open>main\<close>) at the calls of \<open>wait\<close> and
  \<open>post\<close> and at the accesses of the shared data in between; the semaphores are atomic, as
  theory CppSemaphore shows the class to be. \<open>num\<close> is the number given with \<open>-n\<close>.
\<close>

section \<open>State\<close>

text \<open>The next statement of a thread of \<open>PrimeProducer\<close> (B) and \<open>PrimeConsumer\<close> (K); a crash
  is a \<open>front\<close> of an empty queue or an overflow in the search for the next prime.\<close>

datatype prod_pc = B_other | B_first | B_sync | B_empty | B_push
  | B_post_other | B_post_sync | B_post_full | B_done | B_crash

datatype cons_pc = K_full | K_sync | K_pop | K_post_sync | K_post_empty | K_done | K_crash

record bbuf =
  bb_list :: "int list"
  nextPrime :: int
  fullSlots :: int
  emptySlots :: int
  syncPrimes :: int
  otherPrime :: int
  ppc :: "nat \<Rightarrow> prod_pc"
  cpc :: "nat \<Rightarrow> cons_pc"
  pushed :: "int list"
  popped :: "int list"

abbreviation pgo :: "bbuf \<Rightarrow> nat \<Rightarrow> prod_pc \<Rightarrow> bbuf" where
  "pgo s i p \<equiv> s\<lparr>ppc := (ppc s)(i := p)\<rparr>"

abbreviation cgo :: "bbuf \<Rightarrow> nat \<Rightarrow> cons_pc \<Rightarrow> bbuf" where
  "cgo s i p \<equiv> s\<lparr>cpc := (cpc s)(i := p)\<rparr>"

definition bb_start :: "int \<Rightarrow> bbuf" where
  "bb_start buf_size = \<lparr>bb_list = [], nextPrime = 1, fullSlots = 0, emptySlots = buf_size,
     syncPrimes = 1, otherPrime = 1, ppc = (\<lambda>_. B_other), cpc = (\<lambda>_. K_full),
     pushed = [], popped = []\<rparr>"

section \<open>Steps\<close>

inductive bb_step :: "nat \<Rightarrow> nat \<Rightarrow> int \<Rightarrow> bbuf \<Rightarrow> bbuf \<Rightarrow> bool" for np nc :: nat and num :: int where
  p_other: "i < np \<Longrightarrow> ppc s i = B_other \<Longrightarrow> 0 < otherPrime s \<Longrightarrow>
    bb_step np nc num s (pgo (s\<lparr>otherPrime := otherPrime s - 1\<rparr>) i B_first)"
| p_first: "i < np \<Longrightarrow> ppc s i = B_first \<Longrightarrow>
    bb_step np nc num s (pgo (s\<lparr>nextPrime := if nextPrime s < num then num else nextPrime s\<rparr>) i B_sync)"
| p_sync: "i < np \<Longrightarrow> ppc s i = B_sync \<Longrightarrow> 0 < syncPrimes s \<Longrightarrow>
    bb_step np nc num s (pgo (s\<lparr>syncPrimes := syncPrimes s - 1\<rparr>) i B_empty)"
| p_empty: "i < np \<Longrightarrow> ppc s i = B_empty \<Longrightarrow> 0 < emptySlots s \<Longrightarrow>
    bb_step np nc num s (pgo (s\<lparr>emptySlots := emptySlots s - 1\<rparr>) i B_push)"
| p_push: "i < np \<Longrightarrow> ppc s i = B_push \<Longrightarrow> getNextPrime (nextPrime s) = Ret q \<Longrightarrow>
    bb_step np nc num s (pgo (s\<lparr>bb_list := bb_list s @ [q], nextPrime := q, pushed := pushed s @ [q]\<rparr>) i B_post_other)"
| p_overflow: "i < np \<Longrightarrow> ppc s i = B_push \<Longrightarrow> getNextPrime (nextPrime s) = Undef \<Longrightarrow>
    bb_step np nc num s (pgo s i B_crash)"
| p_post_other: "i < np \<Longrightarrow> ppc s i = B_post_other \<Longrightarrow>
    bb_step np nc num s (pgo (s\<lparr>otherPrime := otherPrime s + 1\<rparr>) i B_post_sync)"
| p_post_sync: "i < np \<Longrightarrow> ppc s i = B_post_sync \<Longrightarrow>
    bb_step np nc num s (pgo (s\<lparr>syncPrimes := syncPrimes s + 1\<rparr>) i B_post_full)"
| p_post_full: "i < np \<Longrightarrow> ppc s i = B_post_full \<Longrightarrow>
    bb_step np nc num s (pgo (s\<lparr>fullSlots := fullSlots s + 1\<rparr>) i B_done)"
| c_full: "k < nc \<Longrightarrow> cpc s k = K_full \<Longrightarrow> 0 < fullSlots s \<Longrightarrow>
    bb_step np nc num s (cgo (s\<lparr>fullSlots := fullSlots s - 1\<rparr>) k K_sync)"
| c_sync: "k < nc \<Longrightarrow> cpc s k = K_sync \<Longrightarrow> 0 < syncPrimes s \<Longrightarrow>
    bb_step np nc num s (cgo (s\<lparr>syncPrimes := syncPrimes s - 1\<rparr>) k K_pop)"
| c_pop: "k < nc \<Longrightarrow> cpc s k = K_pop \<Longrightarrow> bb_list s = x # xs \<Longrightarrow>
    bb_step np nc num s (cgo (s\<lparr>bb_list := xs, popped := popped s @ [x]\<rparr>) k K_post_sync)"
| c_underflow: "k < nc \<Longrightarrow> cpc s k = K_pop \<Longrightarrow> bb_list s = [] \<Longrightarrow>
    bb_step np nc num s (cgo s k K_crash)"
| c_post_sync: "k < nc \<Longrightarrow> cpc s k = K_post_sync \<Longrightarrow>
    bb_step np nc num s (cgo (s\<lparr>syncPrimes := syncPrimes s + 1\<rparr>) k K_post_empty)"
| c_post_empty: "k < nc \<Longrightarrow> cpc s k = K_post_empty \<Longrightarrow>
    bb_step np nc num s (cgo (s\<lparr>emptySlots := emptySlots s + 1\<rparr>) k K_done)"

section \<open>The primes in order\<close>

fun primes_after :: "int \<Rightarrow> nat \<Rightarrow> int list option" where
  "primes_after p 0 = Some []"
| "primes_after p (Suc n) =
     (case getNextPrime p of Ret q \<Rightarrow> map_option (Cons q) (primes_after q n) | _ \<Rightarrow> None)"

lemma primes_after_snoc:
  "primes_after p n = Some qs \<Longrightarrow> getNextPrime (last (p # qs)) = Ret q \<Longrightarrow>
   primes_after p (Suc n) = Some (qs @ [q])"
proof (induction n arbitrary: p qs)
  case (Suc n)
  then obtain q' qs' where "getNextPrime p = Ret q'" "primes_after q' n = Some qs'" "qs = q' # qs'"
    by (auto split: outcome.splits)
  with Suc.IH [of q' qs'] Suc.prems show ?case by simp
qed simp

lemma primes_after_extends:
  "primes_after p n = Some qs \<Longrightarrow> primes_after p (Suc n + k) \<noteq> None \<Longrightarrow>
   \<exists>q. getNextPrime (last (p # qs)) = Ret q"
proof (induction n arbitrary: p qs)
  case (Suc n)
  then obtain q' qs' where "getNextPrime p = Ret q'" "primes_after q' n = Some qs'" "qs = q' # qs'"
    by (auto split: outcome.splits)
  with Suc.IH [of q' qs'] Suc.prems show ?case by simp
qed (auto split: outcome.splits)

lemma getNextPrime_gt: "getNextPrime p = Ret q \<Longrightarrow> p < q"
proof (induction p rule: getNextPrime.induct)
  case (1 p)
  show ?case
  proof (cases "isPrime (p + 1) = Ret True")
    case True
    with 1(2) show ?thesis by (auto simp: getNextPrime.simps [of p] split: if_splits)
  next
    case False
    with 1(2) have "isPrime (p + 1) = Ret False" "getNextPrime (p + 1) = Ret q" "\<not> INT_MAX \<le> p"
      by (auto simp: getNextPrime.simps [of p] split: if_splits outcome.splits)
    with 1(1) [of False] show ?thesis by simp
  qed
qed

section \<open>The invariant\<close>

fun prank :: "prod_pc \<Rightarrow> int" where
  "prank B_other = 0"
| "prank B_first = 1"
| "prank B_sync = 2"
| "prank B_empty = 3"
| "prank B_push = 4"
| "prank B_post_other = 5"
| "prank B_post_sync = 6"
| "prank B_post_full = 7"
| "prank B_done = 8"
| "prank B_crash = 9"

fun crank :: "cons_pc \<Rightarrow> int" where
  "crank K_full = 0"
| "crank K_sync = 1"
| "crank K_pop = 2"
| "crank K_post_sync = 3"
| "crank K_post_empty = 4"
| "crank K_done = 5"
| "crank K_crash = 6"

text \<open>1 for the points from \<open>a\<close> to \<open>b\<close>, for counting the threads there.\<close>

definition between :: "('p \<Rightarrow> int) \<Rightarrow> int \<Rightarrow> int \<Rightarrow> 'p \<Rightarrow> int" where
  "between rk a b p = (if a \<le> rk p \<and> rk p \<le> b then 1 else 0)"

text \<open>The producers and the consumers at the points from \<open>a\<close> to \<open>b\<close>.\<close>

definition np_at :: "nat \<Rightarrow> bbuf \<Rightarrow> int \<Rightarrow> int \<Rightarrow> int" where
  "np_at np s a b = tally (between prank a b) np (ppc s)"

definition nc_at :: "nat \<Rightarrow> bbuf \<Rightarrow> int \<Rightarrow> int \<Rightarrow> int" where
  "nc_at nc s a b = tally (between crank a b) nc (cpc s)"

definition slots_inv :: "nat \<Rightarrow> nat \<Rightarrow> int \<Rightarrow> bbuf \<Rightarrow> bool" where
  "slots_inv np nc b s \<longleftrightarrow>
     otherPrime s + np_at np s 1 5 = 1 \<and>
     syncPrimes s + np_at np s 3 6 + nc_at nc s 2 3 = 1 \<and>
     emptySlots s + np_at np s 4 9 = b + nc_at nc s 5 6 \<and>
     fullSlots s + nc_at nc s 1 6 = np_at np s 8 9 \<and>
     int (length (bb_list s)) + nc_at nc s 3 6 = np_at np s 5 9 \<and>
     0 \<le> otherPrime s \<and> 0 \<le> syncPrimes s \<and> 0 \<le> emptySlots s \<and> 0 \<le> fullSlots s"

definition order_inv :: "nat \<Rightarrow> int \<Rightarrow> bbuf \<Rightarrow> bool" where
  "order_inv np num s \<longleftrightarrow>
     int (length (pushed s)) = np_at np s 5 9 \<and>
     primes_after (max 1 num) (length (pushed s)) = Some (pushed s) \<and>
     max num (nextPrime s) = last (max 1 num # pushed s) \<and>
     (\<forall>i<np. 2 \<le> prank (ppc s i) \<longrightarrow> num \<le> nextPrime s)"

definition bb_inv :: "nat \<Rightarrow> nat \<Rightarrow> int \<Rightarrow> int \<Rightarrow> bbuf \<Rightarrow> bool" where
  "bb_inv np nc b num s \<longleftrightarrow> slots_inv np nc b s \<and> order_inv np num s \<and>
     pushed s = popped s @ bb_list s \<and>
     (\<forall>i<np. ppc s i \<noteq> B_crash) \<and> (\<forall>k<nc. cpc s k \<noteq> K_crash)"

lemma between_range [simp]: "0 \<le> between rk a b p" "between rk a b p \<le> 1"
  by (simp_all add: between_def)

lemmas count_defs = np_at_def nc_at_def tally_upd between_def

text \<open>What the counts imply about one thread.\<close>

lemma np_at_member: "i < np \<Longrightarrow> between prank a b (ppc s i) \<le> np_at np s a b"
  unfolding np_at_def by (rule tally_member) simp_all

lemma nc_at_member: "k < nc \<Longrightarrow> between crank a b (cpc s k) \<le> nc_at nc s a b"
  unfolding nc_at_def by (rule tally_member) simp_all

lemma np_at_nonneg: "0 \<le> np_at np s a b"
  unfolding np_at_def by (rule tally_nonneg) simp

lemma nc_at_nonneg: "0 \<le> nc_at nc s a b"
  unfolding nc_at_def by (rule tally_nonneg) simp

lemma np_at_widen: "a' \<le> a \<Longrightarrow> b \<le> b' \<Longrightarrow> np_at np s a b \<le> np_at np s a' b'"
  unfolding np_at_def by (rule tally_mono) (simp add: between_def)

lemma nc_at_split: "a \<le> b \<Longrightarrow> b \<le> c + 1 \<Longrightarrow> nc_at nc s a c = nc_at nc s a (b - 1) + nc_at nc s b c"
proof -
  assume ab: "a \<le> b" "b \<le> c + 1"
  have "nc_at nc s a c - nc_at nc s b c = nc_at nc s a (b - 1)"
    unfolding nc_at_def tally_diff by (rule arg_cong [where f = "\<lambda>f. tally f nc (cpc s)"])
      (use ab in \<open>auto simp: between_def fun_eq_iff\<close>)
  then show ?thesis by simp
qed

lemma np_at_split: "a \<le> b \<Longrightarrow> b \<le> c + 1 \<Longrightarrow> np_at np s a c = np_at np s a (b - 1) + np_at np s b c"
proof -
  assume ab: "a \<le> b" "b \<le> c + 1"
  have "np_at np s a c - np_at np s b c = np_at np s a (b - 1)"
    unfolding np_at_def tally_diff by (rule arg_cong [where f = "\<lambda>f. tally f np (ppc s)"])
      (use ab in \<open>auto simp: between_def fun_eq_iff\<close>)
  then show ?thesis by simp
qed

lemma np_at_all: "np_at np s 0 9 = int np"
proof -
  have "between prank 0 9 p = 1" for p by (cases p) (simp_all add: between_def)
  then show ?thesis by (simp add: np_at_def tally_def)
qed

text \<open>A consumer about to take finds something.\<close>

lemma pop_nonempty:
  assumes "slots_inv np nc b s" "k < nc" "cpc s k = K_pop"
  shows "bb_list s \<noteq> []"
proof -
  have "1 \<le> nc_at nc s 1 2" using nc_at_member [of k nc 1 2 s] assms by (simp add: between_def)
  moreover have "nc_at nc s 1 6 = nc_at nc s 1 2 + nc_at nc s 3 6" using nc_at_split [of 1 3 6] by simp
  moreover have "np_at np s 8 9 \<le> np_at np s 5 9" by (rule np_at_widen) simp_all
  ultimately show ?thesis using assms(1) by (auto simp: slots_inv_def)
qed

text \<open>A producer that has not pushed yet can continue the sequence of primes.\<close>

lemma next_defined:
  assumes "order_inv np num s" "primes_after (max 1 num) np \<noteq> None" "i < np" "prank (ppc s i) \<le> 4"
  shows "\<exists>q. getNextPrime (max num (nextPrime s)) = Ret q"
proof -
  have "0 \<le> prank (ppc s i)" by (cases "ppc s i") simp_all
  then have "1 \<le> np_at np s 0 4"
    using np_at_member [of i np 0 4 s] assms by (simp add: between_def)
  moreover have "np_at np s 0 9 = np_at np s 0 4 + np_at np s 5 9" using np_at_split [of 0 5 9] by simp
  ultimately have "length (pushed s) < np"
    using assms(1) np_at_all [of np s] by (auto simp: order_inv_def)
  then obtain k where "np = Suc (length (pushed s)) + k" by (metis add_Suc less_iff_Suc_add)
  moreover have "primes_after (max 1 num) (length (pushed s)) = Some (pushed s)"
    using assms(1) by (simp add: order_inv_def)
  ultimately have "\<exists>q. getNextPrime (last (max 1 num # pushed s)) = Ret q"
    using assms(2) primes_after_extends by blast
  moreover have "max num (nextPrime s) = last (max 1 num # pushed s)"
    using assms(1) by (simp only: order_inv_def)
  ultimately show ?thesis by simp
qed

lemma last_pushed:
  assumes "order_inv np num s" "i < np" "ppc s i = B_push"
  shows "last (max 1 num # pushed s) = nextPrime s" "num \<le> nextPrime s"
proof -
  show "num \<le> nextPrime s" using assms by (simp add: order_inv_def)
  moreover have "max num (nextPrime s) = last (max 1 num # pushed s)"
    using assms(1) by (simp only: order_inv_def)
  ultimately show "last (max 1 num # pushed s) = nextPrime s" by (simp only: max_absorb2)
qed

lemma push_defined:
  assumes "order_inv np num s" "primes_after (max 1 num) np \<noteq> None" "i < np" "ppc s i = B_push"
  shows "\<exists>q. getNextPrime (nextPrime s) = Ret q"
  using next_defined [OF assms(1-3)] last_pushed [OF assms(1,3,4)] assms(4) by (simp add: max_absorb2)

section \<open>Preservation\<close>

lemma no_crash_step:
  assumes "bb_step np nc num s t" "bb_inv np nc b num s" "primes_after (max 1 num) np \<noteq> None"
  shows "(\<forall>i<np. ppc t i \<noteq> B_crash) \<and> (\<forall>k<nc. cpc t k \<noteq> K_crash)"
  using assms(1)
proof cases
  case (p_overflow i)
  with assms(2,3) push_defined [of np num s i] show ?thesis by (simp add: bb_inv_def)
next
  case (c_underflow k)
  with assms(2) pop_nonempty [of np nc b s k] show ?thesis by (simp add: bb_inv_def)
qed (use assms(2) in \<open>auto simp: bb_inv_def\<close>)

lemma slots_step:
  assumes "bb_step np nc num s t" "slots_inv np nc b s"
    and "\<forall>i<np. ppc t i \<noteq> B_crash" "\<forall>k<nc. cpc t k \<noteq> K_crash"
  shows "slots_inv np nc b t"
  using assms(1)
proof cases
  case (p_overflow i)
  with assms(3) [rule_format, of i] show ?thesis by simp
next
  case (c_underflow k)
  with assms(4) [rule_format, of k] show ?thesis by simp
qed (use assms(2) in \<open>simp_all add: slots_inv_def count_defs\<close>)

lemma order_step:
  assumes "bb_step np nc num s t" "order_inv np num s" "\<forall>i<np. ppc t i \<noteq> B_crash"
  shows "order_inv np num t"
  using assms(1)
proof cases
  case (p_push i q)
  then have cur: "last (max 1 num # pushed s) = nextPrime s" "num \<le> nextPrime s" "nextPrime s < q"
    using last_pushed [OF assms(2)] getNextPrime_gt by auto
  with p_push assms(2) have "primes_after (max 1 num) (Suc (length (pushed s))) = Some (pushed s @ [q])"
    by (intro primes_after_snoc) (simp_all only: order_inv_def)
  with cur p_push assms(2) show ?thesis by (auto simp: order_inv_def count_defs)
next
  case (p_first i)
  then show ?thesis using assms(2) by (auto simp: order_inv_def count_defs max_def)
qed (use assms(2,3) in \<open>auto simp: order_inv_def count_defs simp del: last.simps\<close>)

lemma bb_step_inv:
  assumes "bb_step np nc num s t" "bb_inv np nc b num s" "primes_after (max 1 num) np \<noteq> None"
  shows "bb_inv np nc b num t"
proof -
  have "pushed t = popped t @ bb_list t"
    using assms(1,2) by cases (auto simp: bb_inv_def)
  then show ?thesis
    using no_crash_step [OF assms] slots_step [OF assms(1)] order_step [OF assms(1)] assms(2)
    by (simp add: bb_inv_def)
qed

lemma bb_start_inv: "0 \<le> b \<Longrightarrow> bb_inv np nc b num (bb_start b)"
  by (simp add: bb_inv_def slots_inv_def order_inv_def bb_start_def np_at_def nc_at_def
      tally_def between_def)

interpretation bb: safe_machine
  "\<lambda>s. 0 \<le> b \<and> primes_after (max 1 num) np \<noteq> None \<and> s = bb_start b" "bb_step np nc num"
  "\<lambda>s. primes_after (max 1 num) np \<noteq> None \<and> bb_inv np nc b num s" for np nc b num
  by unfold_locales (auto intro: bb_start_inv bb_step_inv)

lemma bb_reach_inv:
  assumes "0 \<le> b" "primes_after (max 1 num) np \<noteq> None" "reach (\<lambda>s. s = bb_start b) (bb_step np nc num) s"
  shows "bb_inv np nc b num s"
proof -
  have "reach (\<lambda>s. 0 \<le> b \<and> primes_after (max 1 num) np \<noteq> None \<and> s = bb_start b) (bb_step np nc num) s"
    using assms(3) by (rule reach_mono) (use assms(1,2) in simp)
  then show ?thesis by (rule bb.reach_inv [THEN conjunct2])
qed

section \<open>Progress\<close>

text \<open>The statements still to run.\<close>

definition bb_work :: "nat \<Rightarrow> nat \<Rightarrow> bbuf \<Rightarrow> int" where
  "bb_work np nc s = tally (\<lambda>p. 9 - prank p) np (ppc s) + tally (\<lambda>p. 6 - crank p) nc (cpc s)"

lemma bb_work_nonneg: "0 \<le> bb_work np nc s"
proof -
  have "0 \<le> 9 - prank p" for p by (cases p) simp_all
  moreover have "0 \<le> 6 - crank p" for p by (cases p) simp_all
  ultimately show ?thesis by (simp add: bb_work_def tally_nonneg)
qed

lemma bb_work_step: "bb_step np nc num s t \<Longrightarrow> bb_work np nc t < bb_work np nc s"
  by (erule bb_step.cases) (simp_all add: bb_work_def tally_upd)

lemma bb_terminates: "wf {(t, s). bb_step np nc num s t}"
proof (rule wf_subset [OF wf_measure [of "\<lambda>s. nat (bb_work np nc s)"]], clarify)
  fix s t assume "bb_step np nc num s t"
  then show "(t, s) \<in> measure (\<lambda>s. nat (bb_work np nc s))"
    using bb_work_step [of np nc num s t] bb_work_nonneg [of np nc t] by simp
qed

text \<open>A thread that cannot move waits for a semaphore that is down.\<close>

lemma stuck_producer:
  assumes "bb_inv np nc b num s" "primes_after (max 1 num) np \<noteq> None" "i < np"
    and stuck: "\<And>t. \<not> bb_step np nc num s t"
  shows "ppc s i = B_done \<or> ppc s i = B_other \<and> otherPrime s = 0 \<or>
    ppc s i = B_sync \<and> syncPrimes s = 0 \<or> ppc s i = B_empty \<and> emptySlots s = 0"
proof (cases "ppc s i")
  case B_push
  with assms push_defined [of np num s i] show ?thesis by (auto simp: bb_inv_def dest: p_push)
next
  case B_crash
  with assms show ?thesis by (simp add: bb_inv_def)
qed (use assms bb_step.intros(1-9) [of i np s, folded] in \<open>force simp: bb_inv_def slots_inv_def\<close>)+

lemma stuck_consumer:
  assumes "bb_inv np nc b num s" "k < nc" and stuck: "\<And>t. \<not> bb_step np nc num s t"
  shows "cpc s k = K_done \<or> cpc s k = K_full \<and> fullSlots s = 0 \<or> cpc s k = K_sync \<and> syncPrimes s = 0"
proof (cases "cpc s k")
  case K_pop
  with assms pop_nonempty [of np nc b s k] show ?thesis
    by (cases "bb_list s") (auto simp: bb_inv_def dest: c_pop)
next
  case K_crash
  with assms show ?thesis by (simp add: bb_inv_def)
qed (use assms bb_step.intros(10-15) [of k nc s] in \<open>force simp: bb_inv_def slots_inv_def\<close>)+

text \<open>Somebody holds a semaphore that is down.\<close>

lemma prod_at: "0 < np_at np s a b \<Longrightarrow> \<exists>i<np. a \<le> prank (ppc s i) \<and> prank (ppc s i) \<le> b"
  unfolding np_at_def by (drule tally_pos_ex) (auto simp: between_def split: if_splits)

lemma cons_at: "0 < nc_at nc s a b \<Longrightarrow> \<exists>k<nc. a \<le> crank (cpc s k) \<and> crank (cpc s k) \<le> b"
  unfolding nc_at_def by (drule tally_pos_ex) (auto simp: between_def split: if_splits)

lemma stuck_all_done:
  assumes inv: "bb_inv n n b num s" and ok: "primes_after (max 1 num) n \<noteq> None" and "int n \<le> b"
    and stuck: "\<And>t. \<not> bb_step n n num s t"
  shows "(\<forall>i<n. ppc s i = B_done) \<and> (\<forall>k<n. cpc s k = K_done)"
proof -
  have slots: "slots_inv n n b s" using inv by (simp add: bb_inv_def)
  note P = stuck_producer [OF inv ok _ stuck] and C = stuck_consumer [OF inv _ stuck]
  have empty: "ppc s i \<noteq> B_empty" if "i < n" for i
  proof
    assume "ppc s i = B_empty"
    with P [OF that] have "emptySlots s = 0" by simp
    moreover have "1 \<le> np_at n s 0 3"
      using np_at_member [of i n 0 3 s] that \<open>ppc s i = B_empty\<close> by (simp add: between_def)
    moreover have "np_at n s 0 3 + np_at n s 4 9 = int n"
      using np_at_split [of 0 4 9 n s] np_at_all [of n s] by simp
    ultimately show False
      using slots nc_at_nonneg [of n s 5 6] \<open>int n \<le> b\<close> by (simp add: slots_inv_def)
  qed
  have sync: "syncPrimes s \<noteq> 0"
  proof
    assume "syncPrimes s = 0"
    with slots have "0 < np_at n s 3 6 \<or> 0 < nc_at n s 2 3"
      using np_at_nonneg [of n s 3 6] nc_at_nonneg [of n s 2 3] by (auto simp: slots_inv_def)
    with prod_at [of n s 3 6] cons_at [of n s 2 3]
    obtain i where "i < n \<and> 3 \<le> prank (ppc s i) \<and> prank (ppc s i) \<le> 6 \<or>
        i < n \<and> 2 \<le> crank (cpc s i) \<and> crank (cpc s i) \<le> 3" by blast
    with P [of i] C [of i] empty [of i] show False by auto
  qed
  have other: "otherPrime s \<noteq> 0"
  proof
    assume "otherPrime s = 0"
    with slots have "0 < np_at n s 1 5" by (simp add: slots_inv_def)
    with prod_at [of n s 1 5] obtain i where "i < n" "1 \<le> prank (ppc s i)" "prank (ppc s i) \<le> 5" by blast
    with P [of i] empty [of i] sync show False by auto
  qed
  have prods: "ppc s i = B_done" if "i < n" for i
    using P [OF that] empty [OF that] sync other by simp
  have "cpc s k = K_done" if "k < n" for k
  proof (rule ccontr)
    assume "cpc s k \<noteq> K_done"
    with C [OF that] sync have full: "cpc s k = K_full" "fullSlots s = 0" by auto
    have "np_at n s 8 9 = int n"
      unfolding np_at_def by (subst tally_const [where c = 1]) (use prods in \<open>simp_all add: between_def\<close>)
    moreover have "1 \<le> nc_at n s 0 0"
      using nc_at_member [of k n 0 0 s] that full by (simp add: between_def)
    moreover have "nc_at n s 0 0 + nc_at n s 1 6 \<le> int n"
      using nc_at_split [of 0 1 6 n s] tally_le [of n "between crank 0 6" "cpc s"]
      unfolding nc_at_def by simp
    ultimately show False using slots full by (simp add: slots_inv_def)
  qed
  with prods show ?thesis by blast
qed

section \<open>Beyond the capacity\<close>

text \<open>A producer that finds the semaphores up runs to its end.\<close>

lemma producer_run:
  assumes "reach (\<lambda>s. s = bb_start b) (bb_step np nc num) s" "i < np" "ppc s i = B_other"
    and "otherPrime s = 1" "syncPrimes s = 1" "0 < emptySlots s"
    and "getNextPrime (max num (nextPrime s)) = Ret q"
  shows "\<exists>t. reach (\<lambda>s. s = bb_start b) (bb_step np nc num) t \<and> ppc t = (ppc s)(i := B_done) \<and>
    cpc t = cpc s \<and> otherPrime t = 1 \<and> syncPrimes t = 1 \<and> emptySlots t = emptySlots s - 1"
proof -
  let ?r = "reach (\<lambda>s. s = bb_start b) (bb_step np nc num)"
  define s1 where "s1 = pgo (s\<lparr>otherPrime := otherPrime s - 1\<rparr>) i B_first"
  define s2 where "s2 = pgo (s1\<lparr>nextPrime := if nextPrime s1 < num then num else nextPrime s1\<rparr>) i B_sync"
  define s3 where "s3 = pgo (s2\<lparr>syncPrimes := syncPrimes s2 - 1\<rparr>) i B_empty"
  define s4 where "s4 = pgo (s3\<lparr>emptySlots := emptySlots s3 - 1\<rparr>) i B_push"
  define s5 where "s5 = pgo (s4\<lparr>bb_list := bb_list s4 @ [q], nextPrime := q, pushed := pushed s4 @ [q]\<rparr>) i B_post_other"
  define s6 where "s6 = pgo (s5\<lparr>otherPrime := otherPrime s5 + 1\<rparr>) i B_post_sync"
  define s7 where "s7 = pgo (s6\<lparr>syncPrimes := syncPrimes s6 + 1\<rparr>) i B_post_full"
  define s8 where "s8 = pgo (s7\<lparr>fullSlots := fullSlots s7 + 1\<rparr>) i B_done"
  have e1: "ppc s1 = (ppc s)(i := B_first)" "cpc s1 = cpc s" "otherPrime s1 = 0"
      "syncPrimes s1 = 1" "emptySlots s1 = emptySlots s" "nextPrime s1 = nextPrime s"
    by (simp_all add: s1_def assms)
  have e2: "ppc s2 = (ppc s)(i := B_sync)" "cpc s2 = cpc s" "otherPrime s2 = 0"
      "syncPrimes s2 = 1" "emptySlots s2 = emptySlots s" "nextPrime s2 = max num (nextPrime s)"
    by (simp_all add: s2_def e1 max_def)
  have e3: "ppc s3 = (ppc s)(i := B_empty)" "cpc s3 = cpc s" "otherPrime s3 = 0"
      "syncPrimes s3 = 0" "emptySlots s3 = emptySlots s" "nextPrime s3 = max num (nextPrime s)"
    by (simp_all add: s3_def e2)
  have e4: "ppc s4 = (ppc s)(i := B_push)" "cpc s4 = cpc s" "otherPrime s4 = 0"
      "syncPrimes s4 = 0" "emptySlots s4 = emptySlots s - 1" "nextPrime s4 = max num (nextPrime s)"
    by (simp_all add: s4_def e3)
  have e5: "ppc s5 = (ppc s)(i := B_post_other)" "cpc s5 = cpc s" "otherPrime s5 = 0"
      "syncPrimes s5 = 0" "emptySlots s5 = emptySlots s - 1" "nextPrime s5 = q"
    by (simp_all add: s5_def e4)
  have e6: "ppc s6 = (ppc s)(i := B_post_sync)" "cpc s6 = cpc s" "otherPrime s6 = 1"
      "syncPrimes s6 = 0" "emptySlots s6 = emptySlots s - 1" "nextPrime s6 = q"
    by (simp_all add: s6_def e5)
  have e7: "ppc s7 = (ppc s)(i := B_post_full)" "cpc s7 = cpc s" "otherPrime s7 = 1"
      "syncPrimes s7 = 1" "emptySlots s7 = emptySlots s - 1" "nextPrime s7 = q"
    by (simp_all add: s7_def e6)
  have e8: "ppc s8 = (ppc s)(i := B_done)" "cpc s8 = cpc s" "otherPrime s8 = 1"
      "syncPrimes s8 = 1" "emptySlots s8 = emptySlots s - 1" "nextPrime s8 = q"
    by (simp_all add: s8_def e7)
  have "?r s1" using assms(1) by (rule reach_step) (unfold s1_def, rule p_other, simp_all add: assms)
  then have "?r s2"
    by (rule reach_step) (unfold s2_def, rule p_first, simp_all add: assms e1)
  then have "?r s3"
    by (rule reach_step) (unfold s3_def, rule p_sync, simp_all add: assms e2)
  then have "?r s4"
    by (rule reach_step) (unfold s4_def, rule p_empty, simp_all add: assms e3)
  then have "?r s5"
    by (rule reach_step) (unfold s5_def, rule p_push, simp_all add: assms e4)
  then have "?r s6"
    by (rule reach_step) (unfold s6_def, rule p_post_other, simp_all add: assms e5)
  then have "?r s7"
    by (rule reach_step) (unfold s7_def, rule p_post_sync, simp_all add: assms e6)
  then have "?r s8"
    by (rule reach_step) (unfold s8_def, rule p_post_full, simp_all add: assms e7)
  with e8 have "?r s8 \<and> ppc s8 = (ppc s)(i := B_done) \<and> cpc s8 = cpc s \<and> otherPrime s8 = 1 \<and>
      syncPrimes s8 = 1 \<and> emptySlots s8 = emptySlots s - 1" by simp
  then show ?thesis by blast
qed

text \<open>The first producers fill the queue.\<close>

lemma producers_fill:
  assumes "primes_after (max 1 num) np \<noteq> None" "j \<le> b" "j \<le> np"
  shows "\<exists>s. reach (\<lambda>s. s = bb_start (int b)) (bb_step np nc num) s \<and>
    ppc s = (\<lambda>i. if i < j then B_done else B_other) \<and> cpc s = (\<lambda>_. K_full) \<and>
    otherPrime s = 1 \<and> syncPrimes s = 1 \<and> emptySlots s = int b - int j"
  using assms(2,3)
proof (induction j)
  case 0
  then show ?case by (intro exI [of _ "bb_start (int b)"]) (simp add: reach_init bb_start_def)
next
  case (Suc j)
  then obtain s where r: "reach (\<lambda>s. s = bb_start (int b)) (bb_step np nc num) s"
    and s: "ppc s = (\<lambda>i. if i < j then B_done else B_other)" "cpc s = (\<lambda>_. K_full)"
      "otherPrime s = 1" "syncPrimes s = 1" "emptySlots s = int b - int j" by auto
  have "order_inv np num s" using bb_reach_inv [OF _ assms(1) r] by (simp add: bb_inv_def)
  with s(1) Suc.prems(2) obtain q where "getNextPrime (max num (nextPrime s)) = Ret q"
    using next_defined [OF _ assms(1), of s j] by auto
  with producer_run [OF r, of j q] s Suc.prems
  obtain t where "reach (\<lambda>s. s = bb_start (int b)) (bb_step np nc num) t"
    "ppc t = (ppc s)(j := B_done)" "cpc t = cpc s" "otherPrime t = 1" "syncPrimes t = 1"
    "emptySlots t = emptySlots s - 1" by auto
  with s show ?case by (intro exI [of _ t]) (auto simp: fun_eq_iff)
qed

text \<open>From then on a producer that waits for a slot keeps the consumers out.\<close>

definition jammed :: "nat \<Rightarrow> bbuf \<Rightarrow> bool" where
  "jammed i s \<longleftrightarrow> ppc s i = B_empty \<and> emptySlots s = 0 \<and> syncPrimes s = 0 \<and> otherPrime s = 0 \<and>
     (\<forall>j. j \<noteq> i \<longrightarrow> ppc s j = B_done \<or> ppc s j = B_other) \<and> (\<forall>k. cpc s k = K_full \<or> cpc s k = K_sync)"

lemma jammed_step: "jammed i s \<Longrightarrow> bb_step np nc num s t \<Longrightarrow> jammed i t"
proof -
  assume jam: "jammed i s" and step: "bb_step np nc num s t"
  have P: "ppc s j \<noteq> B_first" "ppc s j \<noteq> B_push" "ppc s j \<noteq> B_post_other"
      "ppc s j \<noteq> B_post_sync" "ppc s j \<noteq> B_post_full" for j
    using jam by (cases "j = i"; force simp: jammed_def)+
  have C: "cpc s k \<noteq> K_pop" "cpc s k \<noteq> K_post_sync" "cpc s k \<noteq> K_post_empty" for k
    using jam unfolding jammed_def by (metis cons_pc.distinct)+
  from step show ?thesis
  proof cases
    case (c_full k)
    then show ?thesis using jam by (simp add: jammed_def)
  qed (use jam P C in \<open>simp_all add: jammed_def\<close>)
qed

interpretation jam: safe_machine "jammed i" "bb_step np nc num" "jammed i" for i np nc num
  by unfold_locales (auto intro: jammed_step)

section \<open>Properties\<close>

lemma bb_inv_contents:
  assumes "bb_inv np nc b num s"
  shows "int (length (popped s @ bb_list s)) = np_at np s 5 9"
    and "primes_after (max 1 num) (length (popped s @ bb_list s)) = Some (popped s @ bb_list s)"
proof -
  have "pushed s = popped s @ bb_list s" using assms by (simp add: bb_inv_def)
  moreover have "int (length (pushed s)) = np_at np s 5 9"
    "primes_after (max 1 num) (length (pushed s)) = Some (pushed s)"
    using assms unfolding bb_inv_def order_inv_def by blast+
  ultimately show "int (length (popped s @ bb_list s)) = np_at np s 5 9"
    "primes_after (max 1 num) (length (popped s @ bb_list s)) = Some (popped s @ bb_list s)"
    by (simp_all only:)
qed

lemma primes_from_10: "primes_after (max 1 10) 10 = Some [11, 13, 17, 19, 23, 29, 31, 37, 41, 43]"
  by (simp add: eval_nat_numeral getNextPrime.simps isPrime_def prime_loop.simps INT_MAX_def)

text \<open>
  C28. For any number of producers and consumers and every interleaving, the buffer never holds
  more than \<open>buf_size\<close> numbers, no consumer takes from an empty queue, no producer
  overflows (when the primes asked for are in range), and the numbers taken out, followed by
  those in the buffer, are consecutive primes from the given number on, in order.
\<close>
theorem bounded_buffer_safe:
  assumes "0 \<le> b" and "primes_after (max 1 num) np \<noteq> None"
    and "reach (\<lambda>s. s = bb_start b) (bb_step np nc num) s"
  shows "int (length (bb_list s)) \<le> b \<and> (\<forall>i<np. ppc s i \<noteq> B_crash) \<and> (\<forall>k<nc. cpc s k \<noteq> K_crash) \<and>
    primes_after (max 1 num) (length (popped s @ bb_list s)) = Some (popped s @ bb_list s)"
proof -
  have inv: "bb_inv np nc b num s" using assms by (rule bb_reach_inv)
  then have "slots_inv np nc b s" by (simp add: bb_inv_def)
  moreover have "nc_at nc s 3 6 = nc_at nc s 3 4 + nc_at nc s 5 6" using nc_at_split [of 3 5 6] by simp
  moreover have "np_at np s 5 9 \<le> np_at np s 4 9" by (rule np_at_widen) simp_all
  ultimately have "int (length (bb_list s)) \<le> b"
    using nc_at_nonneg [of nc s 3 4] by (simp add: slots_inv_def)
  then show ?thesis using inv bb_inv_contents [OF inv] by (simp add: bb_inv_def)
qed

theorem bounded_buffer_safe_witness:
  "\<exists>s. reach (\<lambda>s. s = bb_start 20) (bb_step 10 10 10) s \<and> ppc s 0 = B_done \<and>
     int (length (bb_list s)) \<le> 20 \<and> (\<exists>xs. primes_after 10 (length xs) = Some xs \<and> xs = popped s @ bb_list s)"
proof -
  have ok: "primes_after (max 1 10) 10 \<noteq> None" by (simp only: primes_from_10) simp
  obtain s where r: "reach (\<lambda>s. s = bb_start 20) (bb_step 10 10 10) s" and "ppc s 0 = B_done"
    using producers_fill [OF ok, of 1 20 10] by auto
  with bounded_buffer_safe [OF _ ok r] show ?thesis by (intro exI [of _ s]) simp
qed

lemma maximal_run: "\<exists>s. reach (\<lambda>s. s = bb_start b) (bb_step np nc num) s \<and> \<not> (\<exists>t. bb_step np nc num s t)"
proof -
  let ?R = "{s. reach (\<lambda>s. s = bb_start b) (bb_step np nc num) s}"
  have "bb_start b \<in> ?R" by (simp add: reach_init)
  from wfE_min [OF bb_terminates this] obtain s where "s \<in> ?R"
    "\<And>t. (t, s) \<in> {(t, s). bb_step np nc num s t} \<Longrightarrow> t \<notin> ?R" by blast
  then show ?thesis by (auto intro: reach_step)
qed

text \<open>
  C29. With at most \<open>buf_size\<close> producers and as many consumers, as in \<open>main\<close>, every
  run ends, and it ends with every thread finished, the buffer empty, and the consumers having
  got exactly the next primes, in order: there is no deadlock.
\<close>
theorem bounded_buffer_completes:
  assumes "int n \<le> b" and "primes_after (max 1 num) n = Some ps"
    and "reach (\<lambda>s. s = bb_start b) (bb_step n n num) s"
  shows "wf {(t, s). bb_step n n num s t} \<and>
    ((\<exists>t. bb_step n n num s t) \<or>
     (\<forall>i<n. ppc s i = B_done \<and> cpc s i = K_done) \<and> bb_list s = [] \<and> popped s = ps)"
proof (rule conjI [OF bb_terminates], rule disjCI)
  assume "\<not> ((\<forall>i<n. ppc s i = B_done \<and> cpc s i = K_done) \<and> bb_list s = [] \<and> popped s = ps)"
  moreover have inv: "bb_inv n n b num s" using bb_reach_inv [OF _ _ assms(3)] assms(1,2) by simp
  moreover have "popped s = ps \<and> bb_list s = []" if "\<forall>i<n. ppc s i = B_done" "\<forall>k<n. cpc s k = K_done"
  proof -
    have "np_at n s 5 9 = int n" "nc_at n s 3 6 = int n"
      unfolding np_at_def nc_at_def
      by (subst tally_const [where c = 1]; use that in \<open>simp add: between_def\<close>)+
    moreover from this inv have "bb_list s = []" by (simp add: bb_inv_def slots_inv_def)
    ultimately show ?thesis using bb_inv_contents [OF inv] assms(2) by simp
  qed
  ultimately show "\<exists>t. bb_step n n num s t"
    using stuck_all_done [OF inv _ assms(1)] assms(2) by blast
qed

theorem bounded_buffer_completes_witness:
  "\<exists>s. reach (\<lambda>s. s = bb_start 20) (bb_step 10 10 10) s \<and>
     popped s = [11, 13, 17, 19, 23, 29, 31, 37, 41, 43] \<and> bb_list s = []"
proof -
  obtain s where r: "reach (\<lambda>s. s = bb_start 20) (bb_step 10 10 10) s"
      and "\<not> (\<exists>t. bb_step 10 10 10 s t)"
    using maximal_run by blast
  with bounded_buffer_completes [OF _ primes_from_10 r] show ?thesis by auto
qed

text \<open>
  With more producers than slots the order in which a producer takes \<open>syncPrimes\<close> and
  \<open>emptySlots\<close> lets the program deadlock: a producer waits for a slot while it holds the
  semaphore every consumer needs to free one, and it waits for ever.
\<close>
theorem bounded_buffer_jams:
  assumes "b < np" and "primes_after (max 1 num) np \<noteq> None"
  shows "\<exists>s. reach (\<lambda>s. s = bb_start (int b)) (bb_step np nc num) s \<and>
    (\<forall>t. (bb_step np nc num)\<^sup>*\<^sup>* s t \<longrightarrow> ppc t b = B_empty)"
proof -
  let ?r = "reach (\<lambda>s. s = bb_start (int b)) (bb_step np nc num)"
  obtain s where r: "?r s" and s: "ppc s = (\<lambda>i. if i < b then B_done else B_other)"
      "cpc s = (\<lambda>_. K_full)" "otherPrime s = 1" "syncPrimes s = 1" "emptySlots s = 0"
    using producers_fill [OF assms(2), of b b nc] assms(1) by auto
  define s1 where "s1 = pgo (s\<lparr>otherPrime := otherPrime s - 1\<rparr>) b B_first"
  define s2 where "s2 = pgo (s1\<lparr>nextPrime := if nextPrime s1 < num then num else nextPrime s1\<rparr>) b B_sync"
  define s3 where "s3 = pgo (s2\<lparr>syncPrimes := syncPrimes s2 - 1\<rparr>) b B_empty"
  have "?r s1" using r by (rule reach_step) (unfold s1_def, rule p_other, simp_all add: assms s)
  then have "?r s2" by (rule reach_step) (unfold s2_def, rule p_first, simp_all add: assms s1_def)
  then have "?r s3"
    by (rule reach_step) (unfold s3_def, rule p_sync, simp_all add: assms s s2_def s1_def)
  moreover have "jammed b s3" by (simp add: jammed_def s3_def s2_def s1_def s)
  then have "jammed b t" if "(bb_step np nc num)\<^sup>*\<^sup>* s3 t" for t
    using that by (auto intro: jam.run_inv)
  ultimately show ?thesis by (intro exI [of _ s3]) (simp add: jammed_def)
qed

theorem bounded_buffer_jams_witness:
  "\<exists>s. reach (\<lambda>s. s = bb_start 2) (bb_step 3 3 10) s \<and> {ppc t 2 | t. (bb_step 3 3 10)\<^sup>*\<^sup>* s t} = {B_empty}"
proof -
  have "primes_after (max 1 10) 3 \<noteq> None"
    by (simp add: eval_nat_numeral getNextPrime.simps isPrime_def prime_loop.simps INT_MAX_def)
  with bounded_buffer_jams [of 2 3 10 3]
  obtain s where "reach (\<lambda>s. s = bb_start 2) (bb_step 3 3 10) s"
      "\<And>t. (bb_step 3 3 10)\<^sup>*\<^sup>* s t \<Longrightarrow> ppc t 2 = B_empty" by auto
  moreover from this have "ppc s 2 = B_empty" by blast
  ultimately show ?thesis by (intro exI [of _ s]) force
qed

end
