(* ===== verification/Dining.thy ===== *)
theory Dining imports Prelude
begin

text \<open>
  \<open>diningPhilosopher/dine.cpp\<close> and \<open>dineWin.cpp\<close>: five philosophers, a mutex, and
  one semaphore per philosopher. The machines interleave the five threads at the semaphore
  calls and at the statements between them; \<open>test\<close> runs under the mutex and is one step.
\<close>

section \<open>Data\<close>

text \<open>The values of \<open>state\<close>; \<open>EATING\<close> is the number 0, so it is what the global
  array holds before the first assignment.\<close>

datatype phil_state = EATING | HUNGRY | THINKING

definition LEFT :: "nat \<Rightarrow> nat" where "LEFT phnum = (phnum + 4) mod 5"

definition RIGHT :: "nat \<Rightarrow> nat" where "RIGHT phnum = (phnum + 1) mod 5"

text \<open>The next statement of a philosopher: the calls of \<open>take_fork\<close> (T), eating, and the
  calls of \<open>put_fork\<close> (U).\<close>

datatype dine_pc = T_lock | T_hungry | T_test | T_unlock | T_wait
  | U_lock | U_think | U_left | U_right | U_unlock

record table =
  ph_state :: "nat \<Rightarrow> phil_state"
  tb_mutex :: int
  tb_S :: "nat \<Rightarrow> int"
  dpc :: "nat \<Rightarrow> dine_pc"

abbreviation dgo :: "table \<Rightarrow> nat \<Rightarrow> dine_pc \<Rightarrow> table" where
  "dgo s i p \<equiv> s\<lparr>dpc := (dpc s)(i := p)\<rparr>"

definition can_eat :: "(nat \<Rightarrow> phil_state) \<Rightarrow> nat \<Rightarrow> bool" where
  "can_eat st phnum \<longleftrightarrow> st phnum = HUNGRY \<and> st (LEFT phnum) \<noteq> EATING \<and> st (RIGHT phnum) \<noteq> EATING"

definition test :: "nat \<Rightarrow> table \<Rightarrow> table" where
  "test phnum s =
     (if can_eat (ph_state s) phnum
      then s\<lparr>ph_state := (ph_state s)(phnum := EATING), tb_S := (tb_S s)(phnum := tb_S s phnum + 1)\<rparr>
      else s)"

section \<open>Steps\<close>

inductive dine_step :: "table \<Rightarrow> table \<Rightarrow> bool" where
  t_lock: "i < 5 \<Longrightarrow> dpc s i = T_lock \<Longrightarrow> 0 < tb_mutex s \<Longrightarrow>
    dine_step s (dgo (s\<lparr>tb_mutex := tb_mutex s - 1\<rparr>) i T_hungry)"
| t_hungry: "i < 5 \<Longrightarrow> dpc s i = T_hungry \<Longrightarrow>
    dine_step s (dgo (s\<lparr>ph_state := (ph_state s)(i := HUNGRY)\<rparr>) i T_test)"
| t_test: "i < 5 \<Longrightarrow> dpc s i = T_test \<Longrightarrow> dine_step s (dgo (test i s) i T_unlock)"
| t_unlock: "i < 5 \<Longrightarrow> dpc s i = T_unlock \<Longrightarrow>
    dine_step s (dgo (s\<lparr>tb_mutex := tb_mutex s + 1\<rparr>) i T_wait)"
| t_wait: "i < 5 \<Longrightarrow> dpc s i = T_wait \<Longrightarrow> 0 < tb_S s i \<Longrightarrow>
    dine_step s (dgo (s\<lparr>tb_S := (tb_S s)(i := tb_S s i - 1)\<rparr>) i U_lock)"
| u_lock: "i < 5 \<Longrightarrow> dpc s i = U_lock \<Longrightarrow> 0 < tb_mutex s \<Longrightarrow>
    dine_step s (dgo (s\<lparr>tb_mutex := tb_mutex s - 1\<rparr>) i U_think)"
| u_think: "i < 5 \<Longrightarrow> dpc s i = U_think \<Longrightarrow>
    dine_step s (dgo (s\<lparr>ph_state := (ph_state s)(i := THINKING)\<rparr>) i U_left)"
| u_left: "i < 5 \<Longrightarrow> dpc s i = U_left \<Longrightarrow> dine_step s (dgo (test (LEFT i) s) i U_right)"
| u_right: "i < 5 \<Longrightarrow> dpc s i = U_right \<Longrightarrow> dine_step s (dgo (test (RIGHT i) s) i U_unlock)"
| u_unlock: "i < 5 \<Longrightarrow> dpc s i = U_unlock \<Longrightarrow>
    dine_step s (dgo (s\<lparr>tb_mutex := tb_mutex s + 1\<rparr>) i T_lock)"

text \<open>The state of \<open>main\<close> when the threads start, for an initial value of the array.\<close>

definition dine_start :: "phil_state \<Rightarrow> table" where
  "dine_start st = \<lparr>ph_state = (\<lambda>_. st), tb_mutex = 1, tb_S = (\<lambda>_. 0), dpc = (\<lambda>_. T_lock)\<rparr>"

section \<open>Neighbours\<close>

lemma below_5: "(i :: nat) < 5 \<longleftrightarrow> i = 0 \<or> i = 1 \<or> i = 2 \<or> i = 3 \<or> i = 4"
  by linarith

lemma neighbours [simp]:
  assumes "i < 5"
  shows "LEFT i < 5" "RIGHT i < 5" "LEFT i \<noteq> i" "RIGHT i \<noteq> i" "LEFT i \<noteq> RIGHT i" "i \<noteq> LEFT i" "i \<noteq> RIGHT i"
    and "RIGHT i \<noteq> LEFT i" "LEFT (RIGHT i) = i" "RIGHT (LEFT i) = i"
  using assms unfolding LEFT_def RIGHT_def below_5 by auto

lemma LEFT_eq: "i < 5 \<Longrightarrow> j < 5 \<Longrightarrow> LEFT i = j \<longleftrightarrow> i = RIGHT j"
  by (metis neighbours(9,10))

section \<open>The invariant\<close>

fun in_cs :: "dine_pc \<Rightarrow> int" where
  "in_cs T_lock = 0"
| "in_cs T_wait = 0"
| "in_cs U_lock = 0"
| "in_cs _ = 1"

text \<open>The state of a philosopher and the value of its semaphore at each of its statements.\<close>

fun local_ok :: "dine_pc \<Rightarrow> phil_state \<Rightarrow> int \<Rightarrow> bool" where
  "local_ok T_lock st v \<longleftrightarrow> st \<noteq> HUNGRY \<and> v = 0"
| "local_ok T_hungry st v \<longleftrightarrow> st \<noteq> HUNGRY \<and> v = 0"
| "local_ok T_test st v \<longleftrightarrow> st = HUNGRY \<and> v = 0"
| "local_ok T_unlock st v \<longleftrightarrow> st = HUNGRY \<and> v = 0 \<or> st = EATING \<and> v = 1"
| "local_ok T_wait st v \<longleftrightarrow> st = HUNGRY \<and> v = 0 \<or> st = EATING \<and> v = 1"
| "local_ok U_lock st v \<longleftrightarrow> st = EATING \<and> v = 0"
| "local_ok U_think st v \<longleftrightarrow> st = EATING \<and> v = 0"
| "local_ok _ st v \<longleftrightarrow> st = THINKING \<and> v = 0"

text \<open>A philosopher that was not served yet: \<open>EATING\<close> is then the initial value.\<close>

definition served :: "dine_pc \<Rightarrow> bool" where
  "served p \<longleftrightarrow> p \<noteq> T_lock \<and> p \<noteq> T_hungry"

definition forks_ok :: "(nat \<Rightarrow> phil_state) \<Rightarrow> (nat \<Rightarrow> dine_pc) \<Rightarrow> bool" where
  "forks_ok st pc \<longleftrightarrow> (\<forall>i<5. st i = EATING \<longrightarrow> served (pc i) \<longrightarrow> st (LEFT i) \<noteq> EATING \<and> st (RIGHT i) \<noteq> EATING)"

text \<open>Whoever had to wait has a neighbour that eats or is about to test for it.\<close>

definition will_wake :: "(nat \<Rightarrow> phil_state) \<Rightarrow> (nat \<Rightarrow> dine_pc) \<Rightarrow> nat \<Rightarrow> bool" where
  "will_wake st pc i \<longleftrightarrow> st (LEFT i) = EATING \<or> st (RIGHT i) = EATING \<or>
     pc (RIGHT i) = U_left \<or> pc (LEFT i) = U_left \<or> pc (LEFT i) = U_right"

definition wake_ok :: "(nat \<Rightarrow> phil_state) \<Rightarrow> (nat \<Rightarrow> dine_pc) \<Rightarrow> bool" where
  "wake_ok st pc \<longleftrightarrow> (\<forall>i<5. st i = HUNGRY \<longrightarrow> pc i \<noteq> T_test \<longrightarrow> will_wake st pc i)"

text \<open>The last philosopher to become hungry finds its neighbours not eating.\<close>

definition waits :: "table \<Rightarrow> nat \<Rightarrow> bool" where
  "waits s i \<longleftrightarrow> ph_state s i = HUNGRY \<and> (dpc s i = T_unlock \<or> dpc s i = T_wait)"

definition dine_inv :: "table \<Rightarrow> bool" where
  "dine_inv s \<longleftrightarrow> tb_mutex s + tally in_cs 5 (dpc s) = 1 \<and> 0 \<le> tb_mutex s \<and>
     (\<forall>i<5. local_ok (dpc s i) (ph_state s i) (tb_S s i)) \<and> forks_ok (ph_state s) (dpc s) \<and> (\<exists>i<5. \<not> waits s i)"

text \<open>No philosopher counts as eating before it was served.\<close>

definition calm :: "table \<Rightarrow> bool" where
  "calm s \<longleftrightarrow> (\<forall>i<5. ph_state s i = EATING \<longrightarrow> served (dpc s i))"

lemma in_cs_nonneg [simp]: "0 \<le> in_cs p"
  by (cases p) simp_all

lemma test_frame [simp]: "dpc (test i s) = dpc s" "tb_mutex (test i s) = tb_mutex s"
  by (simp_all add: test_def)

lemma mutex_count_step:
  "dine_step s t \<Longrightarrow> tb_mutex t + tally in_cs 5 (dpc t) = tb_mutex s + tally in_cs 5 (dpc s)"
  by (erule dine_step.cases) (simp_all add: tally_upd)

lemma mutex_nonneg_step: "dine_step s t \<Longrightarrow> 0 \<le> tb_mutex s \<Longrightarrow> 0 \<le> tb_mutex t"
  by (erule dine_step.cases) simp_all

text \<open>Only one philosopher is between taking and giving back the mutex.\<close>

lemma one_in_cs:
  assumes "dine_inv s" "i < 5" "j < 5" "in_cs (dpc s i) = 1" "in_cs (dpc s j) = 1"
  shows "i = j"
proof (rule ccontr)
  assume "i \<noteq> j"
  with assms tally_two [of in_cs i 5 j "dpc s"] show False by (simp add: dine_inv_def)
qed

section \<open>Preservation\<close>

abbreviation locals_ok :: "table \<Rightarrow> bool" where
  "locals_ok s \<equiv> \<forall>i<5. local_ok (dpc s i) (ph_state s i) (tb_S s i)"

lemma test_local:
  assumes "locals_ok s" "j < 5" "dpc s j \<noteq> T_test"
  shows "locals_ok (test j s)"
proof (cases "can_eat (ph_state s) j")
  case True
  then have "ph_state s j = HUNGRY" by (simp add: can_eat_def)
  with assms have "dpc s j = T_unlock \<or> dpc s j = T_wait" "tb_S s j = 0"
    by (cases "dpc s j"; force)+
  with True assms show ?thesis by (auto simp: test_def)
qed (simp add: test_def assms)

lemma test_own_local:
  assumes "locals_ok s" "i < 5" "dpc s i = T_test"
  shows "locals_ok (dgo (test i s) i T_unlock)"
proof -
  have "ph_state s i = HUNGRY" "tb_S s i = 0" using assms by force+
  with assms show ?thesis by (auto simp: test_def)
qed

lemma local_step:
  assumes "dine_step s t" "dine_inv s"
  shows "locals_ok t"
proof -
  have L: "locals_ok s" using assms(2) by (simp add: dine_inv_def)
  have other: "dpc s j \<noteq> T_test" if "i < 5" "j < 5" "i \<noteq> j" "in_cs (dpc s i) = 1" for i j
    using one_in_cs [OF assms(2) that(1,2)] that(3,4) by force
  from assms(1) show ?thesis
  proof cases
    case (t_test i)
    then show ?thesis using test_own_local [OF L] by simp
  next
    case (u_left i)
    then have "locals_ok (test (LEFT i) s)" using test_local [OF L] other [of i "LEFT i"] by simp
    moreover have "ph_state (test (LEFT i) s) i = ph_state s i" "tb_S (test (LEFT i) s) i = tb_S s i"
      using u_left by (simp_all add: test_def)
    ultimately show ?thesis using u_left L [rule_format, of i] by simp
  next
    case (u_right i)
    then have "locals_ok (test (RIGHT i) s)" using test_local [OF L] other [of i "RIGHT i"] by simp
    moreover have "ph_state (test (RIGHT i) s) i = ph_state s i" "tb_S (test (RIGHT i) s) i = tb_S s i"
      using u_right by (simp_all add: test_def)
    ultimately show ?thesis using u_right L [rule_format, of i] by simp
  next
    case (t_hungry i)
    then show ?thesis using L [rule_format, of i] L by auto
  next
    case (t_wait i)
    then show ?thesis using L [rule_format, of i] L by auto
  next
    case (u_think i)
    then show ?thesis using L [rule_format, of i] L by auto
  next
    case (u_unlock i)
    then show ?thesis using L [rule_format, of i] L by auto
  next
    case (t_lock i)
    then show ?thesis using L [rule_format, of i] L by auto
  next
    case (t_unlock i)
    then show ?thesis using L [rule_format, of i] L by auto
  next
    case (u_lock i)
    then show ?thesis using L [rule_format, of i] L by auto
  qed
qed

lemma forks_test: "forks_ok st pc \<Longrightarrow> j < 5 \<Longrightarrow> can_eat st j \<Longrightarrow> forks_ok (st(j := EATING)) pc"
  by (auto simp: forks_ok_def can_eat_def)

lemma forks_go:
  "forks_ok st pc \<Longrightarrow> \<not> served p \<Longrightarrow> forks_ok st (pc(i := p))"
  "forks_ok st pc \<Longrightarrow> served (pc i) \<Longrightarrow> forks_ok st (pc(i := p))"
  "forks_ok st pc \<Longrightarrow> st i \<noteq> EATING \<Longrightarrow> forks_ok st (pc(i := p))"
  by (auto simp: forks_ok_def)

lemma forks_put: "forks_ok st pc \<Longrightarrow> v \<noteq> EATING \<Longrightarrow> forks_ok (st(i := v)) pc"
  by (auto simp: forks_ok_def)

lemma forks_step: "dine_step s t \<Longrightarrow> forks_ok (ph_state s) (dpc s) \<Longrightarrow> forks_ok (ph_state t) (dpc t)"
  by (erule dine_step.cases) (simp_all add: forks_go forks_put forks_test served_def test_def)

lemma waiting_step:
  assumes "dine_step s t" "dine_inv s"
  shows "\<exists>i<5. \<not> waits t i"
  using assms(1)
proof cases
  case (t_test i)
  show ?thesis
  proof (rule ccontr)
    assume "\<not> ?thesis"
    then have all: "ph_state (test i s) j = HUNGRY" if "j < 5" for j
      using that t_test by (simp add: waits_def)
    show False
    proof (cases "can_eat (ph_state s) i")
      case True
      with all [of i] t_test show False by (simp add: test_def)
    next
      case False
      then have "ph_state s j = HUNGRY" if "j < 5" for j
        using all that by (simp add: test_def)
      with False t_test show False by (simp add: can_eat_def)
    qed
  qed
next
  case (t_unlock i)
  moreover from assms(2) obtain j where "j < 5" "\<not> waits s j" by (auto simp: dine_inv_def)
  ultimately show ?thesis by (intro exI [of _ j]) (auto simp: waits_def)
qed (auto simp: waits_def)

lemma dine_step_inv: "dine_inv s \<Longrightarrow> dine_step s t \<Longrightarrow> dine_inv t"
  using mutex_count_step [of s t] mutex_nonneg_step [of s t] local_step [of s t] forks_step [of s t]
    waiting_step [of s t]
  by (simp add: dine_inv_def)

lemma dine_start_inv: "st \<noteq> HUNGRY \<Longrightarrow> dine_inv (dine_start st)"
  by (auto simp: dine_inv_def dine_start_def tally_def forks_ok_def served_def waits_def
      intro!: exI [of _ 0])


section \<open>No waiting philosopher is forgotten, once the array is right\<close>

lemma hungry_served: "dine_inv s \<Longrightarrow> i < 5 \<Longrightarrow> ph_state s i = HUNGRY \<Longrightarrow> served (dpc s i)"
  by (cases "dpc s i") (force simp: dine_inv_def served_def)+

lemma calm_step:
  assumes "dine_step s t" "dine_inv s" "calm s"
  shows "calm t"
  using assms(1)
proof cases
  case (u_unlock i)
  moreover from this assms(2) have "ph_state s i = THINKING" by (force simp: dine_inv_def)
  ultimately show ?thesis using assms(3) by (auto simp: calm_def)
qed (use assms(3) hungry_served [OF assms(2)] in \<open>auto simp: calm_def served_def test_def can_eat_def\<close>)

lemma wake_go:
  "wake_ok st pc \<Longrightarrow> pc i \<notin> {U_left, U_right, T_test} \<Longrightarrow> wake_ok st (pc(i := p))"
  by (auto simp: wake_ok_def will_wake_def)

lemma wake_eating: "wake_ok st pc \<Longrightarrow> wake_ok (st(i := EATING)) pc"
  by (auto simp: wake_ok_def will_wake_def)

text \<open>After the test of a philosopher its wakeup no longer depends on who tests it.\<close>

lemma tested_wakes: "st j = HUNGRY \<Longrightarrow> \<not> can_eat st j \<Longrightarrow> st (LEFT j) = EATING \<or> st (RIGHT j) = EATING"
  by (auto simp: can_eat_def)

definition after_test :: "(nat \<Rightarrow> phil_state) \<Rightarrow> nat \<Rightarrow> nat \<Rightarrow> phil_state" where
  "after_test st j = (if can_eat st j then st(j := EATING) else st)"

lemma ph_state_test: "ph_state (test j s) = after_test (ph_state s) j"
  by (simp add: test_def after_test_def)

lemma wake_test:
  assumes "wake_ok st pc" "j < 5"
  shows "wake_ok (after_test st j) pc" "after_test st j j = HUNGRY \<Longrightarrow>
    after_test st j (LEFT j) = EATING \<or> after_test st j (RIGHT j) = EATING"
  using assms wake_eating tested_wakes [of st j] by (auto simp: after_test_def split: if_splits)

lemma will_wake_go:
  "will_wake st pc k \<Longrightarrow> RIGHT k \<noteq> i \<Longrightarrow> will_wake st (pc(i := U_right)) k"
  "will_wake st pc k \<Longrightarrow> LEFT k \<noteq> i \<Longrightarrow> pc i = U_right \<Longrightarrow> will_wake st (pc(i := p)) k"
  by (auto simp: will_wake_def)

lemma wake_test_go:
  assumes "wake_ok st pc" "i < 5"
  shows "pc i = U_left \<Longrightarrow> wake_ok (after_test st (LEFT i)) (pc(i := U_right))"
    and "pc i = U_right \<Longrightarrow> wake_ok (after_test st (RIGHT i)) (pc(i := U_unlock))"
proof -
  show "wake_ok (after_test st (LEFT i)) (pc(i := U_right))" if pc: "pc i = U_left"
    unfolding wake_ok_def
  proof (intro allI impI)
    fix k
    assume k: "k < 5" "after_test st (LEFT i) k = HUNGRY" "(pc(i := U_right)) k \<noteq> T_test"
    show "will_wake (after_test st (LEFT i)) (pc(i := U_right)) k"
    proof (cases "k = LEFT i")
      case True
      with k wake_test(2) [OF assms(1), of "LEFT i"] assms(2)
      have "after_test st (LEFT i) (LEFT k) = EATING \<or> after_test st (LEFT i) (RIGHT k) = EATING" by simp
      then show ?thesis unfolding will_wake_def by blast
    next
      case False
      then have "RIGHT k \<noteq> i" using k(1) assms(2) by auto
      moreover have "will_wake (after_test st (LEFT i)) pc k"
        using wake_test(1) [OF assms(1), of "LEFT i"] k assms(2) pc
        by (cases "k = i") (simp_all add: wake_ok_def)
      ultimately show ?thesis using will_wake_go pc by simp
    qed
  qed
  show "wake_ok (after_test st (RIGHT i)) (pc(i := U_unlock))" if pc: "pc i = U_right"
    unfolding wake_ok_def
  proof (intro allI impI)
    fix k
    assume k: "k < 5" "after_test st (RIGHT i) k = HUNGRY" "(pc(i := U_unlock)) k \<noteq> T_test"
    show "will_wake (after_test st (RIGHT i)) (pc(i := U_unlock)) k"
    proof (cases "k = RIGHT i")
      case True
      with k wake_test(2) [OF assms(1), of "RIGHT i"] assms(2)
      have "after_test st (RIGHT i) (LEFT k) = EATING \<or> after_test st (RIGHT i) (RIGHT k) = EATING" by simp
      then show ?thesis unfolding will_wake_def by blast
    next
      case False
      then have "LEFT k \<noteq> i" using k(1) assms(2) by auto
      moreover have "will_wake (after_test st (RIGHT i)) pc k"
        using wake_test(1) [OF assms(1), of "RIGHT i"] k assms(2) pc
        by (cases "k = i") (simp_all add: wake_ok_def)
      ultimately show ?thesis using will_wake_go pc by simp
    qed
  qed
qed

lemma wake_ok_step:
  assumes "dine_step s t" "dine_inv s" "calm s" "wake_ok (ph_state s) (dpc s)"
  shows "wake_ok (ph_state t) (dpc t)"
proof -
  from assms(1) show ?thesis
  proof cases
    case (t_hungry i)
    then have "ph_state s i \<noteq> EATING" using assms(3) by (auto simp: calm_def served_def)
    then show ?thesis using t_hungry assms(4) by (auto simp: wake_ok_def will_wake_def)
  next
    case (t_test i)
    then show ?thesis
      using assms(4) wake_test [OF assms(4), of i] by (auto simp: ph_state_test wake_ok_def will_wake_def)
  next
    case (u_think i)
    then show ?thesis using assms(4) by (auto simp: wake_ok_def will_wake_def LEFT_eq)
  next
    case (u_left i)
    then show ?thesis using wake_test_go(1) [OF assms(4)] by (simp add: ph_state_test)
  next
    case (u_right i)
    then show ?thesis using wake_test_go(2) [OF assms(4)] by (simp add: ph_state_test)
  qed (use assms(4) in \<open>simp_all add: wake_go\<close>)
qed

lemma wake_start: "wake_ok (ph_state (dine_start THINKING)) (dpc (dine_start THINKING))"
  "calm (dine_start THINKING)"
  by (simp_all add: wake_ok_def calm_def dine_start_def)

definition awake :: "table \<Rightarrow> bool" where
  "awake s \<longleftrightarrow> dine_inv s \<and> calm s \<and> wake_ok (ph_state s) (dpc s)"

interpretation awake_dining: safe_machine "\<lambda>s. s = dine_start THINKING" dine_step awake
  by unfold_locales
    (auto simp: awake_def dine_start_inv wake_start intro: dine_step_inv calm_step wake_ok_step)

section \<open>Progress\<close>




section \<open>The Windows version\<close>

text \<open>
  \<open>dineWin.cpp\<close>: the mutex has an owner, and the semaphores are created with a maximum of
  1, beyond which \<open>ReleaseSemaphore\<close> fails without effect; the code ignores its result.
\<close>

record win_table =
  w_state :: "nat \<Rightarrow> phil_state"
  w_owner :: "nat option"
  w_S :: "nat \<Rightarrow> int"
  wpc :: "nat \<Rightarrow> dine_pc"


definition ReleaseSemaphore :: "int \<Rightarrow> int" where
  "ReleaseSemaphore v = (if v + 1 \<le> 1 then v + 1 else v)"


definition test_win :: "nat \<Rightarrow> win_table \<Rightarrow> win_table" where
  "test_win phnum s =
     (if can_eat (w_state s) phnum
      then s\<lparr>w_state := (w_state s)(phnum := EATING), w_S := (w_S s)(phnum := ReleaseSemaphore (w_S s phnum))\<rparr>
      else s)"





lemma test_win_frame [simp]: "wpc (test_win j s) = wpc s" "w_owner (test_win j s) = w_owner s"
  by (simp_all add: test_win_def)









section \<open>Properties\<close>



text \<open>
  Had the array been set to \<open>THINKING\<close>, no philosopher would be forgotten: whenever one
  waits on its semaphore, a neighbour is eating or is about to test whether the waiting one can eat.
\<close>
theorem philosophers_woken:
  assumes "reach (\<lambda>s. s = dine_start THINKING) dine_step s" and "i < 5"
    and "ph_state s i = HUNGRY" and "dpc s i = T_wait"
  shows "ph_state s (LEFT i) = EATING \<or> ph_state s (RIGHT i) = EATING \<or>
    dpc s (RIGHT i) = U_left \<or> dpc s (LEFT i) = U_left \<or> dpc s (LEFT i) = U_right"
proof -
  have "wake_ok (ph_state s) (dpc s)" using awake_dining.reach_inv [OF assms(1)] by (simp add: awake_def)
  with assms(2-4) show ?thesis by (simp add: wake_ok_def will_wake_def)
qed

text \<open>One philosopher calls \<open>take_fork\<close> while the others do nothing.\<close>

definition took :: "nat \<Rightarrow> table \<Rightarrow> table" where
  "took i s = (let u = test i (s\<lparr>ph_state := (ph_state s)(i := HUNGRY)\<rparr>) in dgo u i T_wait)"

lemma take_fork_run:
  assumes "reach init dine_step s" "i < 5" "dpc s i = T_lock" "tb_mutex s = 1"
  shows "reach init dine_step (took i s)"
proof -
  define s1 where "s1 = dgo (s\<lparr>tb_mutex := tb_mutex s - 1\<rparr>) i T_hungry"
  define s2 where "s2 = dgo (s1\<lparr>ph_state := (ph_state s1)(i := HUNGRY)\<rparr>) i T_test"
  define s3 where "s3 = dgo (test i s2) i T_unlock"
  define s4 where "s4 = dgo (s3\<lparr>tb_mutex := tb_mutex s3 + 1\<rparr>) i T_wait"
  have "reach init dine_step s1"
    using assms(1) by (rule reach_step) (unfold s1_def, rule t_lock, simp_all add: assms)
  then have "reach init dine_step s2"
    by (rule reach_step) (unfold s2_def, rule t_hungry, simp_all add: assms s1_def)
  then have "reach init dine_step s3"
    by (rule reach_step) (unfold s3_def, rule t_test, simp_all add: assms s2_def)
  then have "reach init dine_step s4"
    by (rule reach_step) (unfold s4_def, rule t_unlock, simp_all add: assms s3_def)
  moreover have "s4 = took i s"
    using assms(4) by (cases s) (simp add: s4_def s3_def s2_def s1_def took_def test_def)
  ultimately show ?thesis by simp
qed

theorem philosophers_woken_witness:
  "\<exists>s. reach (\<lambda>s. s = dine_start THINKING) dine_step s \<and> ph_state s 1 = HUNGRY \<and> dpc s 1 = T_wait \<and>
     (ph_state s 0 = EATING \<or> ph_state s 2 = EATING \<or> dpc s 2 = U_left \<or> dpc s 0 = U_left \<or> dpc s 0 = U_right)"
proof -
  let ?s = "took 1 (took 0 (dine_start THINKING))"
  note defs = took_def dine_start_def test_def can_eat_def LEFT_def RIGHT_def Let_def
  have r: "reach (\<lambda>s. s = dine_start THINKING) dine_step ?s"
    by (intro take_fork_run reach_init) (simp_all add: defs)
  have "ph_state ?s 1 = HUNGRY" "dpc ?s 1 = T_wait" by (simp_all add: defs)
  with philosophers_woken [OF r, of 1] r show ?thesis
    by (intro exI [of _ ?s]) (simp add: LEFT_def RIGHT_def numeral_2_eq_2)
qed

text \<open>
  As the code starts, with the array all \<open>EATING\<close>, the first philosopher to get hungry
  waits although the other four have not touched a fork, and after its neighbours got hungry too
  it waits with no neighbour eating and nobody about to test for it.
\<close>
theorem philosophers_stale_state:
  "\<exists>s t. reach (\<lambda>s. s = dine_start EATING) dine_step s \<and> dpc s = (\<lambda>_. T_lock)(0 := T_wait) \<and> tb_S s 0 = 0 \<and>
     dine_step\<^sup>*\<^sup>* s t \<and> ph_state t 0 = HUNGRY \<and> dpc t 0 = T_wait \<and> tb_S t 0 = 0 \<and>
     ph_state t (LEFT 0) = HUNGRY \<and> ph_state t (RIGHT 0) = HUNGRY \<and>
     dpc t (LEFT 0) = T_wait \<and> dpc t (RIGHT 0) = T_wait"
proof -
  let ?s = "took 0 (dine_start EATING)"
  let ?t = "took 4 (took 1 ?s)"
  note defs = took_def dine_start_def test_def can_eat_def LEFT_def RIGHT_def Let_def
  have r: "reach (\<lambda>s. s = dine_start EATING) dine_step ?s"
    by (intro take_fork_run reach_init) (simp_all add: defs)
  have "reach (\<lambda>s. s = ?s) dine_step ?t"
    by (intro take_fork_run reach_init) (simp_all add: defs)
  then have "dine_step\<^sup>*\<^sup>* ?s ?t" by (rule reach_from_one)
  moreover have "dpc ?s = (\<lambda>_. T_lock)(0 := T_wait)" "tb_S ?s 0 = 0" by (simp_all add: defs)
  moreover have "ph_state ?t 0 = HUNGRY" "dpc ?t 0 = T_wait" "tb_S ?t 0 = 0"
     "ph_state ?t (LEFT 0) = HUNGRY" "ph_state ?t (RIGHT 0) = HUNGRY"
     "dpc ?t (LEFT 0) = T_wait" "dpc ?t (RIGHT 0) = T_wait" by (simp_all add: defs)
  ultimately show ?thesis using r by (intro exI [of _ ?s] exI [of _ ?t] conjI)
qed

end
