(* ===== verification/CommandLine.thy ===== *)
theory CommandLine imports CString
begin

text \<open>
  How the programs read their arguments: \<open>atoi\<close>, the loop over \<open>getopt\<close> with one option that
  has an argument, and \<open>main\<close> of the programs of \<open>boundedBuffer/\<close>, \<open>semaphore/\<close>,
  \<open>producerConsumer/\<close> and \<open>mutex/\<close> up to the threads it starts.
\<close>

section \<open>atoi\<close>

definition is_digit :: "char \<Rightarrow> bool" where
  "is_digit c \<longleftrightarrow> c \<in> set ''0123456789''"

definition is_space :: "char \<Rightarrow> bool" where
  "is_space c \<longleftrightarrow> c \<in> {CHR '' '', CHR 0x09, CHR 0x0A, CHR 0x0B, CHR 0x0C, CHR 0x0D}"

fun digits_val :: "nat \<Rightarrow> string \<Rightarrow> nat" where
  "digits_val acc [] = acc"
| "digits_val acc (c # s) = (if is_digit c then digits_val (10 * acc + (of_char c - 48)) s else acc)"

text \<open>White space, a sign and digits; what follows is not looked at. A number that is no
  \<open>int\<close> has no defined result.\<close>

definition atoi :: "string \<Rightarrow> int outcome" where
  "atoi s = (let s = dropWhile is_space s;
     n = (case s of [] \<Rightarrow> 0 | c # cs \<Rightarrow> if c = CHR ''-'' then - int (digits_val 0 cs)
            else if c = CHR ''+'' then int (digits_val 0 cs) else int (digits_val 0 s))
     in if - INT_MAX - 1 \<le> n \<and> n \<le> INT_MAX then Ret n else Undef)"

lemma digit_is_digit: "d < 10 \<Longrightarrow> is_digit (digit d)"
proof -
  assume "d < 10"
  then have "d \<in> {0, 1, 2, 3, 4, 5, 6, 7, 8, 9}" by auto
  then show ?thesis by (auto simp: is_digit_def digit_def) (code_simp)+
qed

lemma of_char_digit: "d < 10 \<Longrightarrow> of_char (digit d) = 48 + d"
  by (simp add: digit_def of_char_of)

lemma digits_val_append: "\<forall>c\<in>set s. is_digit c \<Longrightarrow> digits_val acc (s @ t) = digits_val (digits_val acc s) t"
  by (induction s arbitrary: acc) auto

lemma udec_digits: "\<forall>c\<in>set (udec n). is_digit c"
proof (induction n rule: udec.induct)
  case (1 n)
  then show ?case by (subst udec.simps) (auto simp: digit_is_digit)
qed

lemma digits_val_udec: "digits_val 0 (udec n) = n"
proof (induction n rule: udec.induct)
  case (1 n)
  show ?case
  proof (cases "n < 10")
    case True
    then show ?thesis by (subst udec.simps) (simp add: digit_is_digit of_char_digit)
  next
    case False
    with 1 have "digits_val 0 (udec (n div 10)) = n div 10" by simp
    with False show ?thesis
      by (subst udec.simps) (simp add: digits_val_append udec_digits digit_is_digit of_char_digit)
  qed
qed

lemma udec_start: "\<exists>c cs. udec n = c # cs \<and> is_digit c"
proof -
  have "udec n \<noteq> []" by (subst udec.simps) simp
  then obtain c cs where "udec n = c # cs" by (cases "udec n") auto
  with udec_digits [of n] show ?thesis by auto
qed

lemma digit_chars: "is_digit c \<Longrightarrow> \<not> is_space c \<and> c \<noteq> CHR ''-'' \<and> c \<noteq> CHR ''+''"
  by (auto simp: is_digit_def is_space_def)

lemma atoi_dec:
  assumes "- INT_MAX - 1 \<le> n" "n \<le> INT_MAX"
  shows "atoi (dec n) = Ret n"
proof (cases "n < 0")
  case True
  have "\<not> is_space (CHR ''-'')" by (simp add: is_space_def)
  with True assms show ?thesis by (simp add: atoi_def dec_def digits_val_udec)
next
  case False
  obtain c cs where u: "udec (nat n) = c # cs" "is_digit c" using udec_start by blast
  with digit_chars [of c] False assms digits_val_udec [of "nat n"] show ?thesis
    by (simp add: atoi_def dec_def del: digits_val.simps)
qed

lemma atoi_no_number: "\<not> is_space c \<Longrightarrow> \<not> is_digit c \<Longrightarrow> c \<noteq> CHR ''-'' \<Longrightarrow> c \<noteq> CHR ''+'' \<Longrightarrow> atoi (c # s) = Ret 0"
  by (simp add: atoi_def INT_MAX_def)

section \<open>getopt\<close>

text \<open>The results of \<open>getopt\<close> with the option \<open>c\<close> and its argument, in order: the argument, or
  \<open>None\<close> for a wrong option and for one whose argument is missing. Words that are no options are
  passed over, and \<open>--\<close> ends the options. \<open>in_word\<close> reads the letters of a word; its second
  result tells that the argument is the next word.\<close>

fun in_word :: "char \<Rightarrow> string \<Rightarrow> string option list \<times> bool" where
  "in_word c [] = ([], False)"
| "in_word c (x # xs) = (if x = c then (if xs = [] then ([], True) else ([Some xs], False))
     else (let (rs, b) = in_word c xs in (None # rs, b)))"

fun getopt :: "char \<Rightarrow> string list \<Rightarrow> string option list" where
  "getopt c [] = []"
| "getopt c (w # ws) = (if w = ''--'' then []
     else if w = ''-'' \<or> take 1 w \<noteq> ''-'' then getopt c ws
     else (let (rs, b) = in_word c (drop 1 w) in
       if \<not> b then rs @ getopt c ws
       else (case ws of [] \<Rightarrow> rs @ [None] | v # vs \<Rightarrow> rs @ [Some v] @ getopt c vs)))"

lemma getopt_apart: "c \<noteq> CHR ''-'' \<Longrightarrow> getopt c ([CHR ''-'', c] # v # ws) = Some v # getopt c ws"
  by simp

lemma getopt_joined: "c \<noteq> CHR ''-'' \<Longrightarrow> v \<noteq> [] \<Longrightarrow> getopt c ((CHR ''-'' # c # v) # ws) = Some v # getopt c ws"
  by simp

lemma getopt_words: "\<forall>w\<in>set ws. take 1 w \<noteq> ''-'' \<Longrightarrow> getopt c ws = []"
  by (induction ws) auto

section \<open>The programs\<close>

text \<open>What a program does with its arguments: print how it is used, or start so many producers and
  consumers, or counting threads, with a number.\<close>

datatype launch = Usage string | Threads nat nat int

text \<open>The loop over the options; the variable keeps its indeterminate value \<open>None\<close> until one is
  there.\<close>

fun number_loop :: "string option list \<Rightarrow> int option \<Rightarrow> int option outcome" where
  "number_loop [] n = Ret n"
| "number_loop (Some optarg # rs) n = and_then (atoi optarg) (\<lambda>k. number_loop rs (Some k))"
| "number_loop (None # rs) n = number_loop rs n"

definition launch_prime :: "nat \<Rightarrow> string \<Rightarrow> string list \<Rightarrow> launch outcome" where
  "launch_prime threads how argv = (if length argv \<noteq> 3 then Ret (Usage (''Usage: '' @ how @ '' -n prime_number''))
     else and_then (number_loop (getopt (CHR ''n'') (tl argv)) None) (\<lambda>firstPrime.
       case firstPrime of None \<Rightarrow> Undef | Some p \<Rightarrow> Ret (Threads threads threads p)))"

definition producerConsumer_main :: "string list \<Rightarrow> launch outcome" where
  "producerConsumer_main argv = launch_prime 1 (hd argv) argv"

definition noSemaphore_main :: "string list \<Rightarrow> launch outcome" where
  "noSemaphore_main argv = launch_prime 1 (hd argv) argv"

definition withSemaphore_main :: "string list \<Rightarrow> launch outcome" where
  "withSemaphore_main argv = launch_prime 1 ''producerConsumer'' argv"

definition bufferSemaphore_main :: "string list \<Rightarrow> launch outcome" where
  "bufferSemaphore_main argv = launch_prime 1 (hd argv) argv"

text \<open>The loop that starts a producer and a consumer in each round, as the number of rounds.\<close>

function starts :: "nat \<Rightarrow> nat \<Rightarrow> nat" where
  "starts limit i = (if i < limit then starts limit (i + 1) else i)"
  by pat_completeness auto
termination by (relation "measure (\<lambda>(limit, i). limit - i)") auto

declare starts.simps [simp del]

definition boundedBuffer_main :: "string list \<Rightarrow> launch outcome" where
  "boundedBuffer_main argv = launch_prime (starts 10 0) (hd argv) argv"

definition launch_count :: "string \<Rightarrow> string list \<Rightarrow> launch outcome" where
  "launch_count how argv = (if length argv \<noteq> 2 then Ret (Usage (''Usage: '' @ how @ '' 4''))
     else and_then (atoi (argv ! 1)) (\<lambda>iterations. Ret (Threads 2 0 iterations)))"

definition noMutex_main :: "string list \<Rightarrow> launch outcome" where
  "noMutex_main argv = launch_count ''noMutex'' argv"

definition withMutex_main :: "string list \<Rightarrow> launch outcome" where
  "withMutex_main argv = launch_count ''noMutex'' argv"

definition copiedMutex_main :: "string list \<Rightarrow> launch outcome" where
  "copiedMutex_main argv = launch_count (hd argv) argv"

lemma starts_10: "starts 10 0 = 10"
  by (simp add: starts.simps)

lemma launch_prime_number:
  assumes "- INT_MAX - 1 \<le> n" "n \<le> INT_MAX"
  shows "launch_prime k how [me, ''-n'', dec n] = Ret (Threads k k n)"
  using atoi_dec [OF assms] by (simp add: launch_prime_def)

lemma launch_prime_no_option:
  assumes "take 1 v \<noteq> ''-''" "take 1 w \<noteq> ''-''"
  shows "launch_prime k how [me, v, w] = Undef"
proof -
  have "getopt (CHR ''n'') [v, w] = []" by (rule getopt_words) (use assms in simp)
  then show ?thesis by (simp add: launch_prime_def del: getopt.simps)
qed

text \<open>
  A number in decimal is read back by \<open>atoi\<close>, and each program starts its threads with the
  number it is given: one producer and one consumer, ten of each, or two counting threads. Another
  number of arguments gets the usage; but two words that are no option start the threads with a
  variable that was never set.
\<close>
theorem arguments_read:
  assumes "- INT_MAX - 1 \<le> n" "n \<le> INT_MAX"
  shows "(\<forall>prog\<in>{producerConsumer_main, noSemaphore_main, withSemaphore_main, bufferSemaphore_main}.
      prog [me, ''-n'', dec n] = Ret (Threads 1 1 n) \<and> prog [me, ''5'', ''7''] = Undef \<and> (\<exists>u. prog [me] = Ret (Usage u))) \<and>
    boundedBuffer_main [me, ''-n'', dec n] = Ret (Threads 10 10 n) \<and> boundedBuffer_main [me, ''5'', ''7''] = Undef \<and>
    (\<forall>prog\<in>{noMutex_main, withMutex_main, copiedMutex_main}.
      prog [me, dec n] = Ret (Threads 2 0 n) \<and> (\<exists>u. prog [me] = Ret (Usage u)))"
proof (intro conjI ballI)
  fix prog :: "string list \<Rightarrow> launch outcome"
  assume "prog \<in> {producerConsumer_main, noSemaphore_main, withSemaphore_main, bufferSemaphore_main}"
  then show "prog [me, ''-n'', dec n] = Ret (Threads 1 1 n)" "prog [me, ''5'', ''7''] = Undef" "\<exists>u. prog [me] = Ret (Usage u)"
    by (auto simp: producerConsumer_main_def noSemaphore_main_def withSemaphore_main_def bufferSemaphore_main_def
      launch_prime_number [OF assms] launch_prime_no_option) (simp_all add: launch_prime_def)
next
  fix prog :: "string list \<Rightarrow> launch outcome"
  assume "prog \<in> {noMutex_main, withMutex_main, copiedMutex_main}"
  then show "prog [me, dec n] = Ret (Threads 2 0 n)" "\<exists>u. prog [me] = Ret (Usage u)"
    by (auto simp: noMutex_main_def withMutex_main_def copiedMutex_main_def launch_count_def atoi_dec [OF assms])
qed (simp_all add: boundedBuffer_main_def starts_10 launch_prime_number [OF assms] launch_prime_no_option)

lemma arguments_read_witness: "producerConsumer_main [''pc'', ''-n'', dec 13] = Ret (Threads 1 1 13)"
  using arguments_read [of 13 "''pc''"] by (simp add: INT_MAX_def)

end
