(* ===== verification/Capture.thy ===== *)
theory Capture imports CommandLine Headers
begin

text \<open>
  \<open>packetSniffing/capture.cpp\<close>: the sniffer. A packet is the list of its captured bytes; a
  read beyond them is \<open>None\<close>. What a function prints is the string it returns; the messages on
  \<open>stderr\<close> are left out. \<open>libpcap\<close> and the text of an IPv6 address are parameters.
\<close>

section \<open>Output\<close>

definition hexdigit :: "nat \<Rightarrow> char" where
  "hexdigit d = char_of (if d < 10 then 48 + d else 55 + d)"

text \<open>\<open>%02X\<close> of a byte.\<close>

definition hex2 :: "u8 \<Rightarrow> string" where
  "hex2 b = [hexdigit (unat b div 16), hexdigit (unat b mod 16)]"

fun join :: "string \<Rightarrow> string list \<Rightarrow> string" where
  "join sep [] = []"
| "join sep [x] = x"
| "join sep (x # y # xs) = x @ sep @ join sep (y # xs)"

definition mac_text :: "u8 list \<Rightarrow> string" where
  "mac_text bs = join '':'' (map hex2 bs)"

text \<open>\<open>inet_ntop(AF_INET, ...)\<close>\<close>

definition quad_text :: "u8 list \<Rightarrow> string" where
  "quad_text bs = join ''.'' (map (udec \<circ> unat) bs)"

definition newline :: string where "newline = [CHR 0x0A]"

text \<open>The bytes from an offset on.\<close>

definition loads :: "u8 list \<Rightarrow> nat \<Rightarrow> nat \<Rightarrow> u8 list option" where
  "loads pkt off n = (if off + n \<le> length pkt then Some (take n (drop off pkt)) else None)"

section \<open>The functions\<close>

definition printMAC :: "u8 list \<Rightarrow> string option" where
  "printMAC pkt = do {
     src \<leftarrow> loads pkt 6 6;
     dst \<leftarrow> loads pkt 0 6;
     Some (mac_text src @ '' -> '' @ mac_text dst @ '' '') }"

definition checkType :: "u8 list \<Rightarrow> int option" where
  "checkType pkt = do {
     h \<leftarrow> load pkt 12;
     l \<leftarrow> load pkt 13;
     Some (uint (ucast (push_bit 8 (ucast h :: u32) OR ucast l) :: u16)) }"

text \<open>The tests for an error of \<open>inet_ntop\<close> compare the address of a local array with
  \<open>NULL\<close>, so their branches are never taken and the functions always return 0.\<close>

definition printIPv4info :: "u8 list \<Rightarrow> (string \<times> int) option" where
  "printIPv4info pkt = do {
     src \<leftarrow> loads pkt 26 4;
     dst \<leftarrow> loads pkt 30 4;
     Some (''[IPv4] '' @ quad_text src @ '' -> '' @ quad_text dst, 0) }"

definition printARPinfo :: "u8 list \<Rightarrow> (string \<times> int) option" where
  "printARPinfo pkt = do {
     op \<leftarrow> load pkt 21;
     if op = 0x01 then do {
       src \<leftarrow> loads pkt 28 4;
       dst \<leftarrow> loads pkt 38 4;
       Some (''[ARP] '' @ quad_text src @ '' requests '' @ quad_text dst, 0) }
     else if op = 0x02 then do {
       src \<leftarrow> loads pkt 28 4;
       mac \<leftarrow> loads pkt 32 6;
       Some (''[ARP] '' @ quad_text src @ '' at '' @ mac_text mac, 0) }
     else Some (''[ARP] '', 0) }"

definition printIPv6info :: "(u8 list \<Rightarrow> string) \<Rightarrow> u8 list \<Rightarrow> (string \<times> int) option" where
  "printIPv6info ntop6 pkt = do {
     src \<leftarrow> loads pkt 22 16;
     dst \<leftarrow> loads pkt 38 16;
     Some (''[IPv6] '' @ ntop6 src @ '' -> '' @ ntop6 dst, 0) }"

definition printVLANinfo :: "u8 list \<Rightarrow> (string \<times> int) option" where
  "printVLANinfo pkt = do {
     a \<leftarrow> load pkt 14;
     b \<leftarrow> load pkt 15;
     Some (''[VLAN] ID = '' @ dec (uint a + uint b), 0) }"

section \<open>One packet\<close>

text \<open>What \<open>main\<close> does with the result of one of the functions: the text, and whether the
  program returns -1.\<close>

definition shown :: "string \<Rightarrow> string \<Rightarrow> string \<times> int \<Rightarrow> string \<times> bool" where
  "shown what mac r =
     (if snd r = -1 then (mac @ fst r @ ''error printing '' @ what @ '' information'' @ newline, True)
      else (mac @ fst r @ newline, False))"

definition process_packet :: "(u8 list \<Rightarrow> string) \<Rightarrow> u8 list \<Rightarrow> (string \<times> bool) option" where
  "process_packet ntop6 pkt = do {
     mac \<leftarrow> printMAC pkt;
     packetType \<leftarrow> checkType pkt;
     if packetType = 0x0800 then map_option (shown ''IPv4'' mac) (printIPv4info pkt)
     else if packetType = 0x86dd then map_option (shown ''IPv6'' mac) (printIPv6info ntop6 pkt)
     else if packetType = 0x0806 then map_option (shown ''ARP'' mac) (printARPinfo pkt)
     else if packetType = 0x8100 then map_option (shown ''VLAN'' mac) (printVLANinfo pkt)
     else Some (mac @ ''[Other]'' @ newline, False) }"

section \<open>The program\<close>

text \<open>
  The results of the successive calls of \<open>pcap_next_ex\<close>: the return value and the packet.
  The loop has the last result in hand; a call after the last one waits for ever.
\<close>

type_synonym capture = "int \<times> u8 list"

fun grab :: "(u8 list \<Rightarrow> string) \<Rightarrow> nat \<Rightarrow> capture \<Rightarrow> capture list \<Rightarrow> (string \<times> int \<times> capture list) outcome" where
  "grab ntop6 0 r evs = Ret ([], 0, evs)"
| "grab ntop6 (Suc n) r evs =
     (if fst r = -1 then Ret ([], -1, evs)
      else if fst r \<noteq> 1 then Ret ([], -1, evs)
      else case process_packet ntop6 (snd r) of
          None \<Rightarrow> Undef
        | Some (out, True) \<Rightarrow> Ret (out, -1, evs)
        | Some (out, False) \<Rightarrow>
            (case evs of [] \<Rightarrow> Blocks
             | r' # evs' \<Rightarrow> and_then (grab ntop6 n r' evs') (\<lambda>(out', code, rest). Ret (out @ out', code, rest))))"

text \<open>What \<open>libpcap\<close> answers; \<open>lookupnet\<close> is \<open>None\<close> when the call fails.\<close>

record pcap_env =
  findalldevs :: int
  devices :: "string list"
  lookupnet :: "u32 option"
  opened :: bool
  compile_filter :: "u32 \<Rightarrow> int"
  setfilter :: int
  next_ex :: "capture list"

text \<open>The option loop over the results of \<open>getopt\<close>; without \<open>-p\<close> the number of packets is
  never assigned.\<close>

fun capture_opts :: "int option \<Rightarrow> (char \<times> string) list \<Rightarrow> int option outcome" where
  "capture_opts num [] = Ret num"
| "capture_opts num ((opt, optarg) # os) =
     (if opt = CHR ''p'' then and_then (atoi optarg) (\<lambda>n. capture_opts (Some n) os) else Exits 1)"

fun list_devices :: "nat \<Rightarrow> string list \<Rightarrow> string" where
  "list_devices i [] = []"
| "list_devices i (d # ds) = udec i @ ''  :  '' @ d @ newline @ list_devices (i + 1) ds"

definition list_text :: "string list \<Rightarrow> string \<Rightarrow> string" where
  "list_text devs dev = ''The interfaces present on the system are:'' @ newline @ list_devices 0 devs @
     ''Device used will be: '' @ dev @ newline"

definition capture_main ::
  "(u8 list \<Rightarrow> string) \<Rightarrow> int \<Rightarrow> (char \<times> string) list \<Rightarrow> pcap_env \<Rightarrow> (string \<times> int) outcome" where
  "capture_main ntop6 argc opts env =
     (if argc \<noteq> 3 then Exits 1
      else and_then (capture_opts None opts) (\<lambda>num.
        if findalldevs env = -1 then Ret (newline @ ''error in pcap findall devs'', -1)
        else case devices env of [] \<Rightarrow> Undef
        | dev # _ \<Rightarrow>
          (let head = list_text (devices env) dev;
               net = (case lookupnet env of None \<Rightarrow> 0 | Some n \<Rightarrow> n)
           in if \<not> opened env then Ret (head, 2)
              else if compile_filter env net = -1 then Ret (head, 2)
              else if setfilter env = -1 then Ret (head, 2)
              else case next_ex env of [] \<Rightarrow> Blocks
              | r # evs \<Rightarrow>
                (case num of None \<Rightarrow> Undef
                 | Some n \<Rightarrow> and_then (grab ntop6 (nat n) r evs)
                     (\<lambda>(out, code, rest). Ret (head @ out, code))))))"

section \<open>Frames\<close>

lemma loads_None_iff [simp]: "loads pkt off n = None \<longleftrightarrow> length pkt < off + n"
  by (auto simp: loads_def)

lemma load_None_iff: "load pkt i = None \<longleftrightarrow> length pkt \<le> i"
  by (simp add: load_def)

lemma bind_None_iff: "Option.bind m f = None \<longleftrightarrow> m = None \<or> (\<exists>x. m = Some x \<and> f x = None)"
  by (cases m) auto

lemma checkType_value: "14 \<le> length pkt \<Longrightarrow> checkType pkt = Some (256 * uint (pkt ! 12) + uint (pkt ! 13))"
proof -
  assume "14 \<le> length pkt"
  moreover have "ucast (push_bit 8 (ucast (h :: u8) :: u32) OR ucast (l :: u8)) = (word_cat h l :: u16)" for h l
    by (rule bit_word_eqI) (auto simp: bit_simps dest: bit_imp_le_length)
  moreover have "uint (word_cat (h :: u8) (l :: u8) :: u16) = 256 * uint h + uint l" for h l
    using uint_le16 [of l h] by (simp add: le16_def)
  ultimately show ?thesis by (simp add: checkType_def)
qed

text \<open>How many bytes the functions look at.\<close>

definition ethertype :: "u8 list \<Rightarrow> int" where
  "ethertype pkt = 256 * uint (pkt ! 12) + uint (pkt ! 13)"

definition bytes_needed :: "u8 list \<Rightarrow> nat" where
  "bytes_needed pkt =
     (if length pkt < 14 then 14
      else if ethertype pkt = 0x0800 then 34
      else if ethertype pkt = 0x86dd then 54
      else if ethertype pkt = 0x0806 then
        (if length pkt < 22 then 22 else if pkt ! 21 = 1 then 42 else if pkt ! 21 = 2 then 38 else 22)
      else if ethertype pkt = 0x8100 then 16 else 14)"

lemma process_packet_None: "process_packet ntop6 pkt = None \<longleftrightarrow> length pkt < bytes_needed pkt"
proof (cases "length pkt < 14")
  case True
  then have "printMAC pkt = None \<or> checkType pkt = None"
    by (auto simp: printMAC_def checkType_def bind_None_iff load_None_iff)
  with True show ?thesis by (auto simp: process_packet_def bytes_needed_def bind_None_iff)
next
  case False
  then have mac: "\<exists>m. printMAC pkt = Some m" by (auto simp: printMAC_def loads_def)
  have ty: "checkType pkt = Some (ethertype pkt)" using False by (simp add: checkType_value ethertype_def)
  have v4: "printIPv4info pkt = None \<longleftrightarrow> length pkt < 34"
    by (auto simp: printIPv4info_def bind_None_iff loads_def)
  have v6: "printIPv6info ntop6 pkt = None \<longleftrightarrow> length pkt < 54"
    by (auto simp: printIPv6info_def bind_None_iff loads_def)
  have vlan: "printVLANinfo pkt = None \<longleftrightarrow> length pkt < 16"
    by (auto simp: printVLANinfo_def bind_None_iff load_def)
  have arp: "printARPinfo pkt = None \<longleftrightarrow> length pkt <
     (if length pkt < 22 then 22 else if pkt ! 21 = 1 then 42 else if pkt ! 21 = 2 then 38 else 22)"
    by (auto simp: printARPinfo_def bind_None_iff loads_def load_def)
  from mac obtain m where "printMAC pkt = Some m" ..
  then show ?thesis using False by (auto simp: process_packet_def ty v4 v6 vlan arp bytes_needed_def)
qed

text \<open>A frame: its Ethernet header, as \<open>myheader.h\<close> lays it out, and what it carries.\<close>

definition frame :: "48 word \<Rightarrow> 48 word \<Rightarrow> u16 \<Rightarrow> u8 list \<Rightarrow> u8 list" where
  "frame dst src ty payload =
     enc_eth \<lparr>ether_dhost = dst, ether_shost = src, ether_type = htons ty\<rparr> @ payload"

lemma frame_parts:
  "frame dst src ty payload = bytes48 dst @ bytes48 src @ [hi8 ty, lo8 ty] @ payload"
  by (simp add: frame_def enc_eth_def bytes16_def htons_def)

lemma length_frame [simp]: "length (frame dst src ty payload) = 14 + length payload"
  by (simp add: frame_parts)

lemma frame_mac: "printMAC (frame dst src ty payload) =
    Some (mac_text (bytes48 src) @ '' -> '' @ mac_text (bytes48 dst) @ '' '')"
  by (simp add: printMAC_def loads_def frame_parts)

lemma frame_type: "checkType (frame dst src ty payload) = Some (uint ty)"
proof -
  have "256 * uint (hi8 ty) + uint (lo8 ty) = uint ty"
    using uint_le16 [of "lo8 ty" "hi8 ty"] by simp
  then show ?thesis by (simp add: checkType_value frame_parts nth_append)
qed

lemma frame_loads:
  "14 \<le> off \<Longrightarrow> loads (frame dst src ty payload) off n = loads payload (off - 14) n"
  by (auto simp: loads_def frame_parts drop_Cons' numeral_eq_Suc)

lemma frame_drop: "14 \<le> off \<Longrightarrow> drop off (frame dst src ty payload) = drop (off - 14) payload"
  by (auto simp: frame_parts drop_Cons' numeral_eq_Suc)

lemma frame_load: "14 \<le> off \<Longrightarrow> load (frame dst src ty payload) off = load payload (off - 14)"
  by (auto simp: load_def frame_parts nth_append nth_Cons')

lemma frame_nth: "14 \<le> off \<Longrightarrow> frame dst src ty payload ! off = payload ! (off - 14)"
  by (auto simp: frame_parts nth_append nth_Cons')

text \<open>The addresses of an IP header as the sniffer prints them.\<close>

definition addr_text :: "u32 \<Rightarrow> string" where
  "addr_text a = quad_text (bytes32 a)"

lemma loads_n: "off + n \<le> length xs \<Longrightarrow> loads xs off n = Some (take n (drop off xs))"
  by (simp add: loads_def)

lemma loads_4: "i + 4 \<le> length xs \<Longrightarrow> loads xs i 4 = Some [xs ! i, xs ! (i + 1), xs ! (i + 2), xs ! (i + 3)]"
  unfolding loads_def
  by (simp, rule nth_equalityI) (auto simp: nth_Cons' less_Suc_eq numeral_eq_Suc)

text \<open>An ARP packet for IPv4 over Ethernet.\<close>

definition arp :: "u8 \<Rightarrow> 48 word \<Rightarrow> u32 \<Rightarrow> 48 word \<Rightarrow> u32 \<Rightarrow> u8 list" where
  "arp op sha spa tha tpa =
     [0, 1, 8, 0, 6, 4, 0, op] @ bytes48 sha @ bytes32 spa @ bytes48 tha @ bytes32 tpa"

lemma length_bytes32 [simp]: "length (bytes32 w) = 4"
  by (simp add: bytes32_def bytes16_def)

lemma arp_parts:
  "load (arp op sha spa tha tpa) 7 = Some op"
  "loads (arp op sha spa tha tpa) 14 4 = Some (bytes32 spa)"
  "loads (arp op sha spa tha tpa) 18 6 = Some (bytes48 tha)"
  "loads (arp op sha spa tha tpa) 24 4 = Some (bytes32 tpa)"
  by (simp_all add: arp_def load_def loads_def drop_Cons' numeral_eq_Suc)

text \<open>The low 12 bits of a VLAN tag, and when they are the sum of its bytes.\<close>

lemma and_mask_vlan: "uint (w AND 0x0fff :: u16) = uint w mod 4096"
proof -
  have "w AND 0x0fff = take_bit 12 w" by (simp add: take_bit_eq_mask mask_eq_decr_exp)
  then show ?thesis by (simp only: unsigned_take_bit_eq) (simp add: take_bit_eq_mod)
qed

lemma vlan_sum:
  assumes "0 < h" "h \<le> 255" "0 \<le> l" "l \<le> (255 :: int)"
  shows "h + l \<noteq> (256 * h + l) mod 4096"
proof -
  have "256 * h + l = 256 * (h mod 16) + l + 4096 * (h div 16)"
    using div_mult_mod_eq [of h 16] by linarith
  moreover have m: "0 \<le> h mod 16" "h mod 16 \<le> 15" by simp_all
  moreover from this have "0 \<le> 256 * (h mod 16) + l" "256 * (h mod 16) + l < 4096" using assms by linarith+
  ultimately have "(256 * h + l) mod 4096 = 256 * (h mod 16) + l"
    by (simp only: mod_mult_self2 mod_pos_pos_trivial)
  moreover have "h \<noteq> 256 * (h mod 16)" using m assms by (cases "h mod 16 = 0") auto
  ultimately show ?thesis by simp
qed

lemma process_ipv4:
  assumes "20 \<le> length ip"
  shows "process_packet ntop6 (frame dst src 0x0800 ip) = Some
     (mac_text (bytes48 src) @ '' -> '' @ mac_text (bytes48 dst) @ '' [IPv4] '' @
      addr_text (iph_sourceip (dec_ip ip)) @ '' -> '' @ addr_text (iph_destip (dec_ip ip)) @ newline, False)"
  using assms
  by (simp add: process_packet_def frame_mac frame_type frame_loads printIPv4info_def loads_4 shown_def
      addr_text_def dec_ip_def frame_nth)

section \<open>The loop\<close>

text \<open>Results of \<open>pcap_next_ex\<close> that are packets with all the bytes the sniffer looks at, and
  the lines printed for them.\<close>

definition complete :: "capture \<Rightarrow> bool" where
  "complete r \<longleftrightarrow> fst r = 1 \<and> bytes_needed (snd r) \<le> length (snd r)"

definition line :: "(u8 list \<Rightarrow> string) \<Rightarrow> capture \<Rightarrow> string" where
  "line ntop6 r = fst (the (process_packet ntop6 (snd r)))"

lemma process_complete: "complete r \<Longrightarrow> process_packet ntop6 (snd r) = Some (line ntop6 r, False)"
proof -
  assume c: "complete r"
  then obtain x where x: "process_packet ntop6 (snd r) = Some x"
    using process_packet_None [of ntop6 "snd r"] by (auto simp: complete_def)
  then have "\<not> snd x"
    by (auto simp: process_packet_def shown_def printIPv4info_def printIPv6info_def
        printARPinfo_def printVLANinfo_def split: if_splits bind_splits)
  with x show ?thesis by (cases x) (simp add: line_def)
qed

lemma grab_complete:
  "\<forall>r \<in> set rs. complete r \<Longrightarrow> rs @ evs = r # rest \<Longrightarrow>
   grab ntop6 (length rs) r rest = (case evs of
       [] \<Rightarrow> (if rs = [] then Ret ([], 0, rest) else Blocks)
     | e # evs' \<Rightarrow> Ret (concat (map (line ntop6) rs), 0, evs'))"
proof (induction rs arbitrary: r rest)
  case Nil
  then show ?case by simp
next
  case (Cons a rs)
  then have a: "process_packet ntop6 (snd a) = Some (line ntop6 a, False)" "fst a = 1"
    using process_complete by (auto simp: complete_def)
  show ?case
  proof (cases "rs @ evs")
    case Nil
    with Cons.prems a show ?thesis by simp
  next
    case (Cons b bs)
    with Cons.IH [of b bs] Cons.prems a show ?thesis by (auto split: list.splits)
  qed
qed

section \<open>Properties\<close>

text \<open>
  C34. The sniffer checks no length: it reads past the captured bytes exactly when a packet is
  shorter than what the branch for its type looks at, and otherwise prints a line and goes on.
\<close>
theorem sniffer_reads_inside:
  "(process_packet ntop6 pkt = None \<longleftrightarrow> length pkt < bytes_needed pkt) \<and>
   (\<exists>out. process_packet ntop6 pkt = (if bytes_needed pkt \<le> length pkt then Some (out, False) else None))"
proof (cases "process_packet ntop6 pkt")
  case None
  then show ?thesis using process_packet_None [of ntop6 pkt] by auto
next
  case (Some r)
  then have "\<not> length pkt < bytes_needed pkt" using process_packet_None [of ntop6 pkt] by auto
  moreover have "\<not> snd r"
    using Some by (auto simp: process_packet_def shown_def printIPv4info_def printIPv6info_def
        printARPinfo_def printVLANinfo_def split: if_splits bind_splits)
  ultimately show ?thesis using Some by (cases r) auto
qed

text \<open>
  Of a frame that carries an IP packet the sniffer prints the hardware addresses of the
  Ethernet header and the source and destination addresses of the IP header, for both versions.
\<close>
theorem sniffer_shows_ip:
  "(20 \<le> length ip \<longrightarrow> process_packet ntop6 (frame dst src 0x0800 ip) = Some
     (mac_text (bytes48 src) @ '' -> '' @ mac_text (bytes48 dst) @ '' [IPv4] '' @
      addr_text (iph_sourceip (dec_ip ip)) @ '' -> '' @ addr_text (iph_destip (dec_ip ip)) @ newline, False)) \<and>
   (40 \<le> length ip \<longrightarrow> process_packet ntop6 (frame dst src 0x86dd ip) = Some
     (mac_text (bytes48 src) @ '' -> '' @ mac_text (bytes48 dst) @ '' [IPv6] '' @
      ntop6 (take 16 (drop 8 ip)) @ '' -> '' @ ntop6 (take 16 (drop 24 ip)) @ newline, False))"
  by (simp add: process_ipv4)
    (simp add: process_packet_def frame_mac frame_type frame_loads printIPv6info_def shown_def
      loads_n frame_drop)

theorem sniffer_shows_ip_witness:
  "process_packet (\<lambda>_. []) (frame 1 2 0x0800 (replicate 12 0 @ [10, 9, 0, 5, 1, 2, 3, 4])) =
     Some (''02:00:00:00:00:00 -> 01:00:00:00:00:00 [IPv4] 10.9.0.5 -> 1.2.3.4'' @ newline, False)"
proof -
  have "20 \<le> length (replicate 12 0 @ [10, 9, 0, 5, 1, 2, 3, 4 :: u8])" by simp
  then show ?thesis
    by (subst sniffer_shows_ip [THEN conjunct1, THEN mp]) (simp_all only:, code_simp)
qed

text \<open>
  Of an ARP request the sniffer prints who asks for which address. Of a reply it prints the
  sender's IP address with the hardware address of the target, the one who had asked, and not
  with the sender's own, which the reply announces.
\<close>
theorem sniffer_shows_arp:
  "process_packet ntop6 (frame dst src 0x0806 (arp 1 sha spa tha tpa)) = Some
     (mac_text (bytes48 src) @ '' -> '' @ mac_text (bytes48 dst) @ '' [ARP] '' @
      addr_text spa @ '' requests '' @ addr_text tpa @ newline, False) \<and>
   process_packet ntop6 (frame dst src 0x0806 (arp 2 sha spa tha tpa)) = Some
     (mac_text (bytes48 src) @ '' -> '' @ mac_text (bytes48 dst) @ '' [ARP] '' @
      addr_text spa @ '' at '' @ mac_text (bytes48 tha) @ newline, False)"
  by (simp add: process_packet_def frame_mac frame_type frame_loads frame_load printARPinfo_def
      arp_parts shown_def addr_text_def)

text \<open>
  Of a VLAN frame the sniffer prints the sum of the two bytes of its tag; that is the
  VLAN's number, the low 12 bits of the tag, exactly when the first byte is 0.
\<close>
theorem sniffer_shows_vlan:
  "process_packet ntop6 (frame dst src 0x8100 (hi # lo # payload)) = Some
     (mac_text (bytes48 src) @ '' -> '' @ mac_text (bytes48 dst) @ '' [VLAN] ID = '' @
      dec (uint hi + uint lo) @ newline, False) \<and>
   (uint hi + uint lo = uint (word_cat hi lo AND 0x0fff :: u16) \<longleftrightarrow> hi = 0)"
proof
  show "process_packet ntop6 (frame dst src 0x8100 (hi # lo # payload)) = Some
     (mac_text (bytes48 src) @ '' -> '' @ mac_text (bytes48 dst) @ '' [VLAN] ID = '' @
      dec (uint hi + uint lo) @ newline, False)"
    by (simp add: process_packet_def frame_mac frame_type frame_load frame_nth printVLANinfo_def shown_def)
  have "uint (word_cat hi lo AND 0x0fff :: u16) = uint (word_cat hi lo :: u16) mod 4096"
    by (simp add: and_mask_vlan)
  also have "\<dots> = (256 * uint hi + uint lo) mod 4096" using uint_le16 [of lo hi] by (simp add: le16_def add.commute)
  finally have vid: "uint (word_cat hi lo AND 0x0fff :: u16) = (256 * uint hi + uint lo) mod 4096" .
  show "uint hi + uint lo = uint (word_cat hi lo AND 0x0fff :: u16) \<longleftrightarrow> hi = 0"
  proof (cases "hi = 0")
    case True
    then show ?thesis unfolding vid using uint_u8_bounds [of lo] by simp
  next
    case False
    then have "uint hi \<noteq> 0" by (simp add: uint_0_iff)
    with uint_u8_bounds [of hi] have "0 < uint hi" by linarith
    then show ?thesis
      unfolding vid using vlan_sum [of "uint hi" "uint lo"] uint_u8_bounds [of hi] uint_u8_bounds [of lo] False
      by simp
  qed
qed

text \<open>
  Asked for \<open>n\<close> packets the program prints a line for each of the next \<open>n\<close> and ends with
  0, but only after a further call of \<open>pcap_next_ex\<close> has returned: if no further packet
  comes it waits for ever, with all it has to print printed.
\<close>
theorem sniffer_grabs:
  assumes "\<forall>r \<in> set rs. complete r" and "rs = r # rs'" and "findalldevs env \<noteq> -1"
    and "devices env = dev # devs" and "opened env"
    and "compile_filter env (case lookupnet env of None \<Rightarrow> 0 | Some n \<Rightarrow> n) \<noteq> -1" and "setfilter env \<noteq> -1"
    and "capture_opts None opts = Ret (Some (int (length rs)))" and "next_ex env = rs @ evs"
  shows "capture_main ntop6 3 opts env =
    (if evs = [] then Blocks
     else Ret (list_text (dev # devs) dev @ concat (map (line ntop6) rs), 0))"
proof -
  have "grab ntop6 (length rs) r (rs' @ evs) = (case evs of
       [] \<Rightarrow> (if rs = [] then Ret ([], 0, rs' @ evs) else Blocks)
     | e # evs' \<Rightarrow> Ret (concat (map (line ntop6) rs), 0, evs'))"
    using assms(1,2) by (intro grab_complete) simp_all
  moreover have "next_ex env = r # rs' @ evs" "rs \<noteq> []" using assms(2,9) by simp_all
  ultimately show ?thesis
    using assms(3-8) by (cases evs) (simp_all add: capture_main_def Let_def del: grab.simps)
qed

definition quiet_env :: pcap_env where
  "quiet_env = \<lparr>findalldevs = 0, devices = [''eth0''], lookupnet = None, opened = True,
     compile_filter = (\<lambda>_. 0), setfilter = 0, next_ex = [(1, frame 1 2 0x1234 [])]\<rparr>"

theorem sniffer_grabs_witness:
  "capture_main (\<lambda>_. []) 3 [(CHR ''p'', ''1'')] quiet_env = Blocks"
proof -
  have ty: "ethertype (frame 1 2 0x1234 []) = 0x1234" "length (frame 1 2 0x1234 []) = 14" by code_simp+
  then have c: "\<forall>r \<in> set [(1, frame 1 2 0x1234 [])]. complete r"
    by (simp add: complete_def bytes_needed_def)
  have n: "capture_opts None [(CHR ''p'', ''1'')] = Ret (Some (int (length [(1 :: int, frame 1 2 0x1234 [])])))"
    by code_simp
  show ?thesis
    by (subst sniffer_grabs [OF c refl _ _ _ _ _ n]) (simp_all add: quiet_env_def)
qed

end
