(* ===== verification/Semaph.thy ===== *)
theory Semaph imports Prelude
begin

text \<open>
  \<open>lib/semaph.c\<close>: counting semaphores on top of System V semaphore sets. The machine
  interleaves the system calls of any number of processes that use one key; a process may be
  killed at any point, and the kernel then applies its recorded adjustments. \<open>id\<close>s are never
  reused, as the sequence numbers of the kernel's identifiers ensure.
\<close>

section \<open>System V semaphores\<close>

text \<open>A \<open>struct sembuf\<close>: member, amount, and whether \<open>SEM_UNDO\<close> is set.\<close>

type_synonym sembuf = "nat \<times> int \<times> bool"

abbreviation (input) SEMVMX :: int where "SEMVMX \<equiv> 32767"

datatype semop_result = Done "nat \<Rightarrow> int" | Sleep | Erange

text \<open>\<open>semop\<close>: the operations are done in order, all or none.\<close>

fun try_ops :: "(nat \<Rightarrow> int) \<Rightarrow> sembuf list \<Rightarrow> semop_result" where
  "try_ops v [] = Done v"
| "try_ops v ((k, d, u) # ops) =
     (if d = 0 then (if v k = 0 then try_ops v ops else Sleep)
      else if v k + d < 0 then Sleep
      else if SEMVMX < v k + d then Erange
      else try_ops (v(k := v k + d)) ops)"

fun undo_ops :: "(nat \<Rightarrow> int) \<Rightarrow> sembuf list \<Rightarrow> (nat \<Rightarrow> int)" where
  "undo_ops a [] = a"
| "undo_ops a ((k, d, u) # ops) = undo_ops (if u then a(k := a k - d) else a) ops"

section \<open>The operation arrays\<close>

definition BIGCOUNT :: int where "BIGCOUNT = 10000"

definition op_lock :: "sembuf list" where "op_lock = [(2, 0, False), (2, 1, True)]"
definition op_endcreate :: "sembuf list" where "op_endcreate = [(1, -1, True), (2, -1, True)]"
definition op_open :: "sembuf list" where "op_open = [(1, -1, True)]"
definition op_close :: "sembuf list" where "op_close = [(2, 0, False), (2, 1, True), (1, 1, True)]"
definition op_unlock :: "sembuf list" where "op_unlock = [(2, -1, True)]"
definition op_op :: "int \<Rightarrow> sembuf list" where "op_op amount = [(0, amount, True)]"

text \<open>The value 0 is an error of \<open>sem_op\<close>.\<close>

definition sem_op :: "int \<Rightarrow> (nat \<Rightarrow> int) \<Rightarrow> semop_result" where
  "sem_op value v = (if value = 0 then Erange else try_ops v (op_op value))"

definition sem_wait :: "(nat \<Rightarrow> int) \<Rightarrow> semop_result" where "sem_wait v = sem_op (-1) v"

definition sem_signal :: "(nat \<Rightarrow> int) \<Rightarrow> semop_result" where "sem_signal v = sem_op 1 v"

section \<open>State\<close>

text \<open>The next system call of a process: of \<open>sem_create\<close> (Cr), of \<open>sem_open\<close> (Op), of
  \<open>sem_close\<close> (Cl), or none while it is outside or has the semaphore open (\<open>In\<close>).\<close>

datatype sem_at = Out | Cr_start | Cr_lock nat | Cr_asleep nat | Cr_get nat | Cr_set0 nat | Cr_set1 nat
  | Cr_end nat | Op_open nat | In nat | Cl_lock nat | Cl_get nat | Cl_rm nat | Cl_unlock nat
  | Died | Dumped

record ipc =
  cur :: "nat option"
  vals :: "nat \<Rightarrow> int"
  adj :: "nat \<Rightarrow> nat \<Rightarrow> int"
  next_id :: nat
  spc :: "nat \<Rightarrow> sem_at"

definition ipc_start :: ipc where
  "ipc_start = \<lparr>cur = None, vals = (\<lambda>_. 0), adj = (\<lambda>_ _. 0), next_id = 0, spc = (\<lambda>_. Out)\<rparr>"

abbreviation sgo :: "ipc \<Rightarrow> nat \<Rightarrow> sem_at \<Rightarrow> ipc" where
  "sgo s i p \<equiv> s\<lparr>spc := (spc s)(i := p)\<rparr>"

text \<open>\<open>semget(key, 3, IPC_CREAT)\<close>: a new set has all members 0.\<close>

definition semget_create :: "ipc \<Rightarrow> ipc \<times> nat" where
  "semget_create s = (case cur s of Some sid \<Rightarrow> (s, sid)
     | None \<Rightarrow> (s\<lparr>cur := Some (next_id s), vals := (\<lambda>_. 0), adj := (\<lambda>_ _. 0), next_id := next_id s + 1\<rparr>,
                next_id s))"

definition semop_done :: "nat \<Rightarrow> sembuf list \<Rightarrow> (nat \<Rightarrow> int) \<Rightarrow> ipc \<Rightarrow> ipc" where
  "semop_done i ops v s = s\<lparr>vals := v, adj := (adj s)(i := undo_ops (adj s i) ops)\<rparr>"

text \<open>\<open>semctl(id, k, SETVAL, v)\<close> forgets the adjustments of that member in all processes.\<close>

definition setval :: "nat \<Rightarrow> int \<Rightarrow> ipc \<Rightarrow> ipc" where
  "setval k v s = s\<lparr>vals := (vals s)(k := v), adj := (\<lambda>p. (adj s p)(k := 0))\<rparr>"

definition rmid :: "ipc \<Rightarrow> ipc" where
  "rmid s = s\<lparr>cur := None, vals := (\<lambda>_. 0), adj := (\<lambda>_ _. 0)\<rparr>"

text \<open>The end of a process: its adjustments are applied, no value going below 0 or above the maximum.\<close>

definition die :: "nat \<Rightarrow> sem_at \<Rightarrow> ipc \<Rightarrow> ipc" where
  "die i p s = sgo (s\<lparr>vals := (\<lambda>k. min SEMVMX (max 0 (vals s k + adj s i k))), adj := (adj s)(i := (\<lambda>_. 0))\<rparr>) i p"

text \<open>The identifier a process passes to its next system call, when its failure ends the process
  with \<open>err_sys\<close>; the call of \<open>semop\<close> in \<open>sem_create\<close> is the exception.\<close>

fun fatal_id :: "sem_at \<Rightarrow> nat option" where
  "fatal_id (Cr_asleep sid) = Some sid"
| "fatal_id (Cr_get sid) = Some sid"
| "fatal_id (Cr_set0 sid) = Some sid"
| "fatal_id (Cr_set1 sid) = Some sid"
| "fatal_id (Cr_end sid) = Some sid"
| "fatal_id (Op_open sid) = Some sid"
| "fatal_id (In sid) = Some sid"
| "fatal_id (Cl_lock sid) = Some sid"
| "fatal_id (Cl_get sid) = Some sid"
| "fatal_id (Cl_rm sid) = Some sid"
| "fatal_id (Cl_unlock sid) = Some sid"
| "fatal_id _ = None"

section \<open>Steps\<close>

text \<open>\<open>opens\<close> and \<open>removes\<close> say whether the processes use \<open>sem_open\<close> and \<open>sem_rm\<close>.\<close>

inductive ipc_step :: "bool \<Rightarrow> bool \<Rightarrow> int \<Rightarrow> nat \<Rightarrow> ipc \<Rightarrow> ipc \<Rightarrow> bool"
  for opens removes :: bool and initval :: int and n :: nat where
  cr_call: "i < n \<Longrightarrow> spc s i = Out \<Longrightarrow> ipc_step opens removes initval n s (sgo s i Cr_start)"
| cr_semget: "i < n \<Longrightarrow> spc s i = Cr_start \<Longrightarrow> semget_create s = (t, sid) \<Longrightarrow>
    ipc_step opens removes initval n s (sgo t i (Cr_lock sid))"
| cr_again: "i < n \<Longrightarrow> spc s i = Cr_lock sid \<Longrightarrow> cur s \<noteq> Some sid \<Longrightarrow>
    ipc_step opens removes initval n s (sgo s i Cr_start)"
| cr_lock: "i < n \<Longrightarrow> spc s i = Cr_lock sid \<or> spc s i = Cr_asleep sid \<Longrightarrow> cur s = Some sid \<Longrightarrow>
    try_ops (vals s) op_lock = Done v \<Longrightarrow>
    ipc_step opens removes initval n s (sgo (semop_done i op_lock v s) i (Cr_get sid))"
| cr_sleep: "i < n \<Longrightarrow> spc s i = Cr_lock sid \<Longrightarrow> cur s = Some sid \<Longrightarrow> try_ops (vals s) op_lock = Sleep \<Longrightarrow>
    ipc_step opens removes initval n s (sgo s i (Cr_asleep sid))"
| cr_getval: "i < n \<Longrightarrow> spc s i = Cr_get sid \<Longrightarrow> cur s = Some sid \<Longrightarrow>
    ipc_step opens removes initval n s (sgo s i (if vals s 1 = 0 then Cr_set0 sid else Cr_end sid))"
| cr_setval0: "i < n \<Longrightarrow> spc s i = Cr_set0 sid \<Longrightarrow> cur s = Some sid \<Longrightarrow> 0 \<le> initval \<Longrightarrow> initval \<le> SEMVMX \<Longrightarrow>
    ipc_step opens removes initval n s (sgo (setval 0 initval s) i (Cr_set1 sid))"
| cr_erange: "i < n \<Longrightarrow> spc s i = Cr_set0 sid \<Longrightarrow> cur s = Some sid \<Longrightarrow> initval < 0 \<or> SEMVMX < initval \<Longrightarrow>
    ipc_step opens removes initval n s (die i Died s)"
| cr_setval1: "i < n \<Longrightarrow> spc s i = Cr_set1 sid \<Longrightarrow> cur s = Some sid \<Longrightarrow>
    ipc_step opens removes initval n s (sgo (setval 1 BIGCOUNT s) i (Cr_end sid))"
| cr_end: "i < n \<Longrightarrow> spc s i = Cr_end sid \<Longrightarrow> cur s = Some sid \<Longrightarrow> try_ops (vals s) op_endcreate = Done v \<Longrightarrow>
    ipc_step opens removes initval n s (sgo (semop_done i op_endcreate v s) i (In sid))"
| op_semget: "i < n \<Longrightarrow> spc s i = Out \<Longrightarrow> opens \<Longrightarrow> cur s = Some sid \<Longrightarrow>
    ipc_step opens removes initval n s (sgo s i (Op_open sid))"
| op_open: "i < n \<Longrightarrow> spc s i = Op_open sid \<Longrightarrow> cur s = Some sid \<Longrightarrow> try_ops (vals s) op_open = Done v \<Longrightarrow>
    ipc_step opens removes initval n s (sgo (semop_done i op_open v s) i (In sid))"
| op_call: "i < n \<Longrightarrow> spc s i = In sid \<Longrightarrow> cur s = Some sid \<Longrightarrow>
    sem_op amount (vals s) = Done v \<Longrightarrow>
    ipc_step opens removes initval n s (semop_done i (op_op amount) v s)"
| op_fails: "i < n \<Longrightarrow> spc s i = In sid \<Longrightarrow> cur s = Some sid \<Longrightarrow>
    sem_op amount (vals s) = Erange \<Longrightarrow>
    ipc_step opens removes initval n s (die i Died s)"
| sem_rm: "i < n \<Longrightarrow> spc s i = In sid \<Longrightarrow> removes \<Longrightarrow> cur s = Some sid \<Longrightarrow>
    ipc_step opens removes initval n s (sgo (rmid s) i Out)"
| cl_call: "i < n \<Longrightarrow> spc s i = In sid \<Longrightarrow> ipc_step opens removes initval n s (sgo s i (Cl_lock sid))"
| cl_lock: "i < n \<Longrightarrow> spc s i = Cl_lock sid \<Longrightarrow> cur s = Some sid \<Longrightarrow> try_ops (vals s) op_close = Done v \<Longrightarrow>
    ipc_step opens removes initval n s (sgo (semop_done i op_close v s) i (Cl_get sid))"
| cl_getval: "i < n \<Longrightarrow> spc s i = Cl_get sid \<Longrightarrow> cur s = Some sid \<Longrightarrow> vals s 1 \<le> BIGCOUNT \<Longrightarrow>
    ipc_step opens removes initval n s (sgo s i (if vals s 1 = BIGCOUNT then Cl_rm sid else Cl_unlock sid))"
| cl_dump: "i < n \<Longrightarrow> spc s i = Cl_get sid \<Longrightarrow> cur s = Some sid \<Longrightarrow> BIGCOUNT < vals s 1 \<Longrightarrow>
    ipc_step opens removes initval n s (die i Dumped s)"
| cl_rm: "i < n \<Longrightarrow> spc s i = Cl_rm sid \<Longrightarrow> cur s = Some sid \<Longrightarrow>
    ipc_step opens removes initval n s (sgo (rmid s) i Out)"
| cl_unlock: "i < n \<Longrightarrow> spc s i = Cl_unlock sid \<Longrightarrow> cur s = Some sid \<Longrightarrow> try_ops (vals s) op_unlock = Done v \<Longrightarrow>
    ipc_step opens removes initval n s (sgo (semop_done i op_unlock v s) i Out)"
| err_sys: "i < n \<Longrightarrow> fatal_id (spc s i) = Some sid \<Longrightarrow> cur s \<noteq> Some sid \<Longrightarrow>
    ipc_step opens removes initval n s (die i Died s)"
| killed: "i < n \<Longrightarrow> spc s i \<noteq> Dumped \<Longrightarrow> ipc_step opens removes initval n s (die i Died s)"

section \<open>The invariant\<close>

text \<open>Being between taking and giving back the lock of a set, and having it open and counted.\<close>

fun locks :: "nat \<Rightarrow> sem_at \<Rightarrow> int" where
  "locks c (Cr_get x) = (if x = c then 1 else 0)"
| "locks c (Cr_set0 x) = (if x = c then 1 else 0)"
| "locks c (Cr_set1 x) = (if x = c then 1 else 0)"
| "locks c (Cr_end x) = (if x = c then 1 else 0)"
| "locks c (Cl_get x) = (if x = c then 1 else 0)"
| "locks c (Cl_rm x) = (if x = c then 1 else 0)"
| "locks c (Cl_unlock x) = (if x = c then 1 else 0)"
| "locks c _ = 0"

fun uses :: "nat \<Rightarrow> sem_at \<Rightarrow> int" where
  "uses c (In x) = (if x = c then 1 else 0)"
| "uses c (Cl_lock x) = (if x = c then 1 else 0)"
| "uses c _ = 0"

fun ids_of :: "sem_at \<Rightarrow> nat option" where
  "ids_of (Cr_lock x) = Some x"
| "ids_of p = fatal_id p"

text \<open>What the lock holder knows of the process counter at each of its calls.\<close>

fun stage_ok :: "nat \<Rightarrow> int \<Rightarrow> sem_at \<Rightarrow> bool" where
  "stage_ok c v (Cr_set0 x) \<longleftrightarrow> x = c \<longrightarrow> v = 0"
| "stage_ok c v (Cr_set1 x) \<longleftrightarrow> x = c \<longrightarrow> v = 0"
| "stage_ok c v (Cr_end x) \<longleftrightarrow> x = c \<longrightarrow> v \<noteq> 0"
| "stage_ok c v (Cl_get x) \<longleftrightarrow> x = c \<longrightarrow> v \<noteq> 0"
| "stage_ok c v (Cl_rm x) \<longleftrightarrow> x = c \<longrightarrow> v \<noteq> 0"
| "stage_ok c v (Cl_unlock x) \<longleftrightarrow> x = c \<longrightarrow> v \<noteq> 0"
| "stage_ok c v _ \<longleftrightarrow> True"

definition ids_inv :: "nat \<Rightarrow> ipc \<Rightarrow> bool" where
  "ids_inv n s \<longleftrightarrow> (\<forall>c. cur s = Some c \<longrightarrow> c < next_id s) \<and>
     (\<forall>i<n. \<forall>x. ids_of (spc s i) = Some x \<longrightarrow> x < next_id s)"

definition set_inv :: "nat \<Rightarrow> nat \<Rightarrow> ipc \<Rightarrow> bool" where
  "set_inv n c s \<longleftrightarrow>
     vals s 2 = tally (locks c) n (spc s) \<and> vals s 2 \<le> 1 \<and>
     (vals s 1 = 0 \<and> tally (uses c) n (spc s) = 0 \<or> vals s 1 + tally (uses c) n (spc s) = BIGCOUNT) \<and>
     (\<forall>i<n. adj s i 1 = uses c (spc s i) \<and> adj s i 2 = - locks c (spc s i) \<and> stage_ok c (vals s 1) (spc s i))"

definition ipc_inv :: "nat \<Rightarrow> ipc \<Rightarrow> bool" where
  "ipc_inv n s \<longleftrightarrow> ids_inv n s \<and> (\<forall>c. cur s = Some c \<longrightarrow> set_inv n c s) \<and> (\<forall>i<n. spc s i \<noteq> Dumped)"

lemma locks_range [simp]: "0 \<le> locks c p" "locks c p \<le> 1"
  by (cases p; simp)+

lemma uses_range [simp]: "0 \<le> uses c p" "uses c p \<le> 1"
  by (cases p; simp)+

lemma uses_cases: "uses c p = 0 \<or> uses c p = 1"
  by (cases p) auto

lemma stale_weights: "ids_of p \<noteq> Some c \<Longrightarrow> locks c p = 0 \<and> uses c p = 0 \<and> stage_ok c v p"
  by (cases p) auto

lemmas ops_defs = op_lock_def op_endcreate_def op_open_def op_close_def op_unlock_def op_op_def

lemma tally_locks: "i < n \<Longrightarrow> locks c (p i) \<le> tally (locks c) n p" "0 \<le> tally (locks c) n p"
  by (simp_all add: tally_member tally_nonneg)

lemma tally_uses: "i < n \<Longrightarrow> uses c (p i) \<le> tally (uses c) n p" "0 \<le> tally (uses c) n p"
  "tally (uses c) n p \<le> int n"
  by (simp_all add: tally_member tally_nonneg tally_le)

text \<open>Only one process is inside the lock.\<close>

lemma one_lock:
  assumes "set_inv n c s" "i < n" "j < n" "locks c (spc s i) = 1" "i \<noteq> j"
  shows "locks c (spc s j) = 0"
proof -
  have "locks c (spc s i) + locks c (spc s j) \<le> tally (locks c) n (spc s)"
    using assms by (intro tally_two) simp_all
  moreover have "tally (locks c) n (spc s) \<le> 1" using assms(1) by (simp add: set_inv_def)
  ultimately have "locks c (spc s j) \<le> 0" using assms(4) by linarith
  with locks_range(1) [of c "spc s j"] show ?thesis by linarith
qed

lemma stage_cong: "(v = 0) = (v' = 0) \<Longrightarrow> stage_ok c v p = stage_ok c v' p"
  by (cases p) auto

lemma stage_unlocked: "locks c p = 0 \<Longrightarrow> stage_ok c v p"
  by (cases p) (auto split: if_splits)

text \<open>A step of one process that changes neither values nor adjustments.\<close>

lemma set_inv_go:
  assumes "set_inv n c s" "i < n" "locks c p = locks c (spc s i)" "uses c p = uses c (spc s i)"
    "stage_ok c (vals s 1) p"
  shows "set_inv n c (sgo s i p)"
  using assms by (auto simp: set_inv_def tally_upd)

text \<open>A step that changes them as its weights change, and leaves the others' stages right.\<close>

lemma set_inv_change:
  assumes inv: "set_inv n c s" and i: "i < n"
    and "adj t = (adj s)(i := a)" "spc t = (spc s)(i := p)"
    and "a 1 = uses c p" "a 2 = - locks c p"
    and "vals t 2 = vals s 2 + locks c p - locks c (spc s i)" "vals t 2 \<le> 1"
    and "vals t 1 = vals s 1 + uses c (spc s i) - uses c p"
    and "vals s 1 + tally (uses c) n (spc s) = BIGCOUNT \<or> uses c p = uses c (spc s i)"
    and "stage_ok c (vals t 1) p"
    and others: "\<And>j. j < n \<Longrightarrow> j \<noteq> i \<Longrightarrow> stage_ok c (vals t 1) (spc s j)"
  shows "set_inv n c t"
  using assms by (auto simp: set_inv_def tally_upd)

section \<open>Preservation\<close>

lemma ids_step: "ipc_step opens removes initval n s t \<Longrightarrow> ids_inv n s \<Longrightarrow> ids_inv n t"
proof (induction rule: ipc_step.induct)
  case (cr_semget i s t sid)
  then show ?case
    by (fastforce simp: ids_inv_def semget_create_def split: option.splits)
qed (fastforce simp: ids_inv_def semop_done_def setval_def rmid_def die_def)+

lemma counted:
  assumes "set_inv n c s" "int n < BIGCOUNT"
  shows "vals s 1 \<noteq> 0 \<Longrightarrow> vals s 1 + tally (uses c) n (spc s) = BIGCOUNT \<and> 0 < vals s 1"
    and "vals s 1 = 0 \<Longrightarrow> tally (uses c) n (spc s) = 0"
    and "0 \<le> vals s 1" and "vals s 1 \<le> BIGCOUNT" and "0 \<le> vals s 2" and "vals s 2 \<le> 1"
proof -
  have disj: "vals s 1 = 0 \<and> tally (uses c) n (spc s) = 0 \<or> vals s 1 + tally (uses c) n (spc s) = BIGCOUNT"
    and "vals s 2 = tally (locks c) n (spc s)" "vals s 2 \<le> 1"
    using assms(1) by (simp_all add: set_inv_def)
  with tally_uses(2,3) [of c n "spc s"] tally_locks(2) [of c n "spc s"] assms(2)
  show "vals s 1 \<noteq> 0 \<Longrightarrow> vals s 1 + tally (uses c) n (spc s) = BIGCOUNT \<and> 0 < vals s 1"
    "vals s 1 = 0 \<Longrightarrow> tally (uses c) n (spc s) = 0" "0 \<le> vals s 1" "vals s 1 \<le> BIGCOUNT"
    "0 \<le> vals s 2" "vals s 2 \<le> 1"
    by linarith+
qed

text \<open>A process that uses the set makes its counter differ from 0.\<close>

lemma used_counted:
  assumes "set_inv n c s" "int n < BIGCOUNT" "i < n" "uses c (spc s i) = 1"
  shows "vals s 1 \<noteq> 0"
  using counted(2) [OF assms(1,2)] tally_uses(1) [OF assms(3), of c "spc s"] assms(4) by auto

lemma adj_of: "set_inv n c s \<Longrightarrow> i < n \<Longrightarrow> adj s i 1 = uses c (spc s i) \<and> adj s i 2 = - locks c (spc s i)"
  by (simp add: set_inv_def)

lemma stage_of: "set_inv n c s \<Longrightarrow> i < n \<Longrightarrow> stage_ok c (vals s 1) (spc s i)"
  by (simp add: set_inv_def)

lemma die_set_inv:
  assumes inv: "set_inv n c s" and n: "int n < BIGCOUNT" and i: "i < n" and p: "p = Died \<or> p = Dumped"
  shows "set_inv n c (die i p s)"
proof -
  have a: "adj s i 1 = uses c (spc s i)" "adj s i 2 = - locks c (spc s i)" using adj_of [OF inv i] by auto
  have l: "locks c (spc s i) \<le> vals s 2"
    using inv tally_locks(1) [OF i, of c "spc s"] by (simp add: set_inv_def)
  have v: "0 \<le> vals s 1 + uses c (spc s i)" using counted(3) [OF inv n] uses_range(1) [of c "spc s i"] by linarith
  have u: "vals s 1 + uses c (spc s i) \<le> SEMVMX"
    using counted(4) [OF inv n] uses_range(2) [of c "spc s i"] unfolding BIGCOUNT_def by linarith
  have z: "(vals s 1 = 0) = (vals s 1 + uses c (spc s i) = 0)"
    using counted(3) [OF inv n] uses_range [of c "spc s i"] used_counted [OF inv n i] by linarith
  show ?thesis
  proof (rule set_inv_change [OF inv i])
    show "vals s 1 + tally (uses c) n (spc s) = BIGCOUNT \<or> uses c p = uses c (spc s i)"
      using counted(1) [OF inv n] used_counted [OF inv n i] p uses_cases [of c "spc s i"] by auto
    have "vals (die i p s) 1 = vals s 1 + uses c (spc s i)"
      using v u a(1) by (simp add: die_def)
    then show "stage_ok c (vals (die i p s) 1) (spc s j)" if "j < n" "j \<noteq> i" for j
      using stage_of [OF inv that(1)] stage_cong [OF z, of c "spc s j"] by simp
  next
    have "vals s 2 - locks c (spc s i) \<le> SEMVMX"
      using counted(6) [OF inv n] locks_range(1) [of c "spc s i"] by linarith
    then have "vals (die i p s) 2 = vals s 2 - locks c (spc s i)"
      using l a(2) by (simp add: die_def)
    then show "vals (die i p s) 2 = vals s 2 + locks c p - locks c (spc s i)" "vals (die i p s) 2 \<le> 1"
      using p counted(6) [OF inv n] locks_range(1) [of c "spc s i"] by (auto simp del: locks_range)
  qed (use p a v u in \<open>auto simp: die_def\<close>)
qed

lemma setval0_inv:
  assumes "set_inv n c s" "i < n" "spc s i = Cr_set0 c"
  shows "set_inv n c (sgo (setval 0 v s) i (Cr_set1 c))"
  using assms stage_of [OF assms(1,2)] by (auto simp: set_inv_def setval_def tally_upd)

lemma setval1_inv:
  assumes "set_inv n c s" "int n < BIGCOUNT" "i < n" "spc s i = Cr_set1 c"
  shows "set_inv n c (sgo (setval 1 BIGCOUNT s) i (Cr_end c))"
proof -
  have "vals s 1 = 0" using stage_of [OF assms(1,3)] assms(4) by simp
  then have t: "tally (uses c) n (spc s) = 0" using counted(2) [OF assms(1,2)] by simp
  have "uses c (spc s j) = 0" if "j < n" for j
    using tally_uses(1) [OF that, of c "spc s"] uses_range(1) [of c "spc s j"] t by linarith
  moreover have "stage_ok c BIGCOUNT (spc s j)" if "j < n" "j \<noteq> i" for j
    using one_lock [OF assms(1,3) that(1)] that assms(4) by (intro stage_unlocked) simp
  ultimately show ?thesis
    using assms t by (auto simp: set_inv_def setval_def tally_upd BIGCOUNT_def)
qed

lemma semop_set_inv:
  assumes inv: "set_inv n c s" and n: "int n < BIGCOUNT" and i: "i < n" and ok: "try_ops (vals s) ops = Done v"
    and which: "ops = op_lock \<and> locks c (spc s i) = 0 \<and> uses c (spc s i) = 0 \<and> p = Cr_get c \<or>
      ops = op_endcreate \<and> spc s i = Cr_end c \<and> p = In c \<or>
      ops = op_open \<and> spc s i = Op_open c \<and> p = In c \<or>
      ops = op_close \<and> spc s i = Cl_lock c \<and> p = Cl_get c \<or>
      ops = op_unlock \<and> spc s i = Cl_unlock c \<and> p = Out \<or>
      ops = op_op amount \<and> spc s i = In c \<and> p = In c"
  shows "set_inv n c (sgo (semop_done i ops v s) i p)"
proof -
  have a: "adj s i 1 = uses c (spc s i)" "adj s i 2 = - locks c (spc s i)" using adj_of [OF inv i] by auto
  note K = counted [OF inv n]
  have more_left: "tally (uses c) n (spc s) < int n" if "uses c (spc s i) = 0"
    using tally_uses(3) [of c n "(spc s)(i := In c)"] that by (simp add: tally_upd [OF i])
  have others: "stage_ok c w (spc s j)" if "j < n" "j \<noteq> i" "locks c (spc s i) = 1 \<or> (vals s 1 = 0) = (w = 0)" for j w
    using one_lock [OF inv i that(1)] that(2,3) stage_of [OF inv that(1)] stage_cong stage_unlocked by metis
  show ?thesis
    by (rule set_inv_change [OF inv i, where a = "undo_ops (adj s i) ops" and p = p])
      (use which ok a K stage_of [OF inv i] used_counted [OF inv n i] others more_left n in
        \<open>auto simp: ops_defs semop_done_def split: if_splits\<close>)
qed

text \<open>A step of process \<open>i\<close> between two points that neither lock nor use the set.\<close>

lemma go_set_inv:
  assumes "set_inv n c s" "i < n" "locks c p = locks c (spc s i)" "uses c p = uses c (spc s i)"
    and "stage_ok c (vals s 1) p"
  shows "set_inv n c (sgo s i p)"
  using assms by (auto simp: set_inv_def tally_upd)

text \<open>A fresh set: nobody holds or uses its identifier yet.\<close>

lemma fresh_set_inv:
  assumes "ids_inv n s" "cur s = None"
  shows "set_inv n (next_id s) (fst (semget_create s))"
proof -
  have "ids_of (spc s i) \<noteq> Some (next_id s)" if "i < n" for i
    using assms(1) that by (auto simp: ids_inv_def)
  then have w: "locks (next_id s) (spc s i) = 0 \<and> uses (next_id s) (spc s i) = 0 \<and> stage_ok (next_id s) 0 (spc s i)"
    if "i < n" for i using stale_weights that by blast
  then have "tally (locks (next_id s)) n (spc s) = 0" "tally (uses (next_id s)) n (spc s) = 0"
    using tally_const [of n _ "spc s" 0] by simp_all
  with w assms(2) show ?thesis by (simp add: set_inv_def semget_create_def)
qed

lemma cur_frames [simp]:
  "cur (semop_done i ops v s) = cur s" "cur (setval k w s) = cur s" "cur (rmid s) = None" "cur (die i p s) = cur s"
  "spc (semop_done i ops v s) = spc s" "spc (setval k w s) = spc s" "spc (rmid s) = spc s"
  "spc (die i p s) = (spc s)(i := p)"
  by (simp_all add: semop_done_def setval_def rmid_def die_def)

lemma ipc_set_step:
  assumes "ipc_step opens removes initval n s t" "ipc_inv n s" "int n < BIGCOUNT" "cur t = Some c"
  shows "set_inv n c t"
proof -
  have S: "set_inv n c s" if "cur s = Some c" using assms(2) that by (simp add: ipc_inv_def)
  note sop = semop_set_inv [OF S assms(3)]
  note dead = die_set_inv [OF S assms(3)]
  note go = go_set_inv [OF S]
  note st = stage_of [OF S]
  from assms(1) show ?thesis
  proof cases
    case (cr_semget i s' sid)
    show ?thesis
    proof (cases "cur s")
      case None
      with cr_semget fresh_set_inv [of n s] assms(2,4) show ?thesis
        by (auto simp: semget_create_def ipc_inv_def intro!: go_set_inv)
    next
      case (Some x)
      with cr_semget assms(4) have "cur s = Some c" "t = sgo s i (Cr_lock sid)"
        by (auto simp: semget_create_def)
      then show ?thesis using go [of i "Cr_lock sid"] cr_semget(2,3) by simp
    qed
  next
    case (cr_lock i sid v)
    with assms(4) show ?thesis using sop [of i op_lock v "Cr_get c"] by auto
  next
    case (cr_end i sid v)
    with assms(4) show ?thesis using sop [of i op_endcreate v "In c"] by simp
  next
    case (op_open i sid v)
    with assms(4) show ?thesis using sop [of i op_open v "In c"] by simp
  next
    case (cl_unlock i sid v)
    with assms(4) show ?thesis using sop [of i op_unlock v Out] by simp
  next
    case (cr_setval0 i sid)
    with assms(4) show ?thesis using setval0_inv [OF S] by simp
  next
    case (cr_setval1 i sid)
    with assms(4) show ?thesis using setval1_inv [OF S assms(3)] by simp
  next
    case (cl_lock i sid v)
    with assms(4) show ?thesis using sop [of i op_close v "Cl_get c"] by simp
  next
    case (op_call i sid amount v)
    then have "try_ops (vals s) (op_op amount) = Done v" by (simp add: sem_op_def split: if_splits)
    with op_call have "set_inv n c (sgo (semop_done i (op_op amount) v s) i (In c))"
      using assms(4) sop [of i "op_op amount" v "In c" amount] by simp
    moreover have "sgo t i (In c) = t" using op_call assms(4) by (auto intro!: ipc.equality)
    ultimately show ?thesis using op_call by simp
  qed (use assms(4) in \<open>auto intro!: dead go dest: st\<close>)
qed

lemma ipc_inv_step:
  assumes "ipc_step opens removes initval n s t" "ipc_inv n s" "int n < BIGCOUNT"
  shows "ipc_inv n t"
proof -
  have "spc t j \<noteq> Dumped" if "j < n" for j
    using assms(1)
  proof cases
    case (cl_dump i sid)
    with assms(2,3) counted(4) [of n sid s] show ?thesis by (simp add: ipc_inv_def)
  next
    case (cr_semget i s' sid)
    with assms(2) that show ?thesis
      by (auto simp: ipc_inv_def semget_create_def split: option.splits)
  qed (use assms(2) that in \<open>auto simp: ipc_inv_def\<close>)
  moreover have "ids_inv n t" using ids_step [OF assms(1)] assms(2) by (simp add: ipc_inv_def)
  ultimately show ?thesis using ipc_set_step [OF assms(1-3)] by (simp add: ipc_inv_def)
qed

lemma ipc_inv_start: "ipc_inv n ipc_start"
  by (simp add: ipc_inv_def ids_inv_def ipc_start_def)

interpretation semset: safe_machine "\<lambda>s. s = ipc_start \<and> int n < BIGCOUNT" "ipc_step opens removes initval n"
  "\<lambda>s. ipc_inv n s \<and> int n < BIGCOUNT" for opens removes initval n
  by unfold_locales (auto intro: ipc_inv_step ipc_inv_start)

section \<open>Without sem_open and sem_rm\<close>

definition owns :: "nat \<Rightarrow> sem_at \<Rightarrow> bool" where
  "owns x p \<longleftrightarrow> locks x p = 1 \<or> uses x p = 1"

text \<open>Whoever locks or uses a set uses the one that exists; it is only removed when nobody
  uses it.\<close>

definition closed_inv :: "nat \<Rightarrow> ipc \<Rightarrow> bool" where
  "closed_inv n s \<longleftrightarrow> (\<forall>i<n. \<forall>x. owns x (spc s i) \<longrightarrow> cur s = Some x) \<and>
     (\<forall>i<n. \<forall>x. spc s i \<noteq> Op_open x) \<and> (\<forall>i<n. \<forall>x. spc s i = Cl_rm x \<longrightarrow> vals s 1 = BIGCOUNT)"

lemma owns_simps [simp]:
  "owns x Out = False" "owns x Cr_start = False" "owns x (Cr_lock y) = False" "owns x (Cr_asleep y) = False"
  "owns x (Cr_get y) = (y = x)" "owns x (Cr_set0 y) = (y = x)" "owns x (Cr_set1 y) = (y = x)"
  "owns x (Cr_end y) = (y = x)" "owns x (Op_open y) = False" "owns x (In y) = (y = x)"
  "owns x (Cl_lock y) = (y = x)" "owns x (Cl_get y) = (y = x)" "owns x (Cl_rm y) = (y = x)"
  "owns x (Cl_unlock y) = (y = x)" "owns x Died = False" "owns x Dumped = False"
  by (simp_all add: owns_def)

lemma remover_alone:
  assumes "closed_inv n s" "ipc_inv n s" "int n < BIGCOUNT" "i < n" "j < n" "i \<noteq> j" "spc s i = Cl_rm c"
  shows "\<not> owns x (spc s j)"
proof
  assume o: "owns x (spc s j)"
  have c: "cur s = Some c" "vals s 1 = BIGCOUNT" using assms(1,4,7) by (auto simp: closed_inv_def)
  then have S: "set_inv n c s" using assms(2) by (simp add: ipc_inv_def)
  have "x = c" using o c(1) assms(1,5) by (auto simp: closed_inv_def)
  moreover have "locks c (spc s j) = 0" using one_lock [OF S assms(4,5)] assms(6,7) by simp
  moreover have "tally (uses c) n (spc s) = 0"
    using counted(1,2) [OF S assms(3)] c(2) by linarith
  then have "uses c (spc s j) = 0"
    using tally_uses(1) [OF assms(5), of c "spc s"] uses_range(1) [of c "spc s j"] by linarith
  ultimately show False using o by (simp add: owns_def)
qed

lemma closed_change:
  assumes "closed_inv n s" "i < n" "spc t = (spc s)(i := p)" "cur t = cur s"
    and "\<And>x. owns x p \<Longrightarrow> cur s = Some x" "\<And>x. p \<noteq> Op_open x" "\<And>x. p = Cl_rm x \<Longrightarrow> vals t 1 = BIGCOUNT"
    and "\<And>j c. j < n \<Longrightarrow> j \<noteq> i \<Longrightarrow> spc s j = Cl_rm c \<Longrightarrow> vals t 1 = BIGCOUNT"
  shows "closed_inv n t"
  unfolding closed_inv_def
proof (intro conjI allI impI)
  note C = assms(1) [unfolded closed_inv_def]
  fix j x
  assume j: "j < n"
  have "cur s = Some x" if "owns x (spc s j)" using C that j by blast
  then show "cur t = Some x" if "owns x (spc t j)"
    using that unfolding assms(3,4) by (cases "j = i") (simp_all add: assms(5))
  show "spc t j \<noteq> Op_open x" using C j assms(3) assms(6) [of x] by (cases "j = i") auto
  show "vals t 1 = BIGCOUNT" if "spc t j = Cl_rm x"
    using that j assms(3) assms(7) [of x] assms(8) [of j x] by (cases "j = i") auto
qed

lemma remover_sees:
  assumes "closed_inv n s" "i < n" "spc s i = Cl_rm c"
  shows "vals s 1 = BIGCOUNT \<and> cur s = Some c"
  using assms by (auto simp: closed_inv_def)

text \<open>A process moves on; it changes the process counter only in a set of its own.\<close>

lemma closed_move:
  assumes "closed_inv n s" "ipc_inv n s" "int n < BIGCOUNT" "i < n" "spc t = (spc s)(i := p)" "cur t = cur s"
    and "\<And>x. owns x p \<Longrightarrow> cur s = Some x" "\<And>x. p \<noteq> Op_open x" "\<And>x. p = Cl_rm x \<Longrightarrow> vals t 1 = BIGCOUNT"
    and "vals t 1 = vals s 1 \<or> (\<exists>x. owns x (spc s i))"
  shows "closed_inv n t"
proof (rule closed_change [OF assms(1,4-9)])
  show "vals t 1 = BIGCOUNT" if "j < n" "j \<noteq> i" "spc s j = Cl_rm c" for j c
    using remover_sees [OF assms(1) that(1,3)] remover_alone [OF assms(1-3) that(1) assms(4) that(2,3)] assms(10) by auto
qed

lemma closed_dead:
  assumes "closed_inv n s" "ipc_inv n s" "int n < BIGCOUNT" "i < n" "p = Died \<or> p = Dumped"
  shows "closed_inv n (die i p s)"
proof (rule closed_change [OF assms(1,4), where p = p])
  show "vals (die i p s) 1 = BIGCOUNT" if "j < n" "j \<noteq> i" "spc s j = Cl_rm c" for j c
  proof -
    note r = remover_sees [OF assms(1) that(1,3)]
    have "uses c (spc s i) = 0" using remover_alone [OF assms(1-3) that(1) assms(4) that(2,3), of c]
        uses_cases [of c "spc s i"] by (auto simp: owns_def)
    then have "adj s i 1 = 0" using r assms(2,4) adj_of [of n c s i] by (simp add: ipc_inv_def)
    with r show ?thesis by (simp add: die_def BIGCOUNT_def)
  qed
qed (use assms(5) in auto)

lemma closed_create:
  assumes "closed_inv n s" "ipc_inv n s" "int n < BIGCOUNT" "i < n" "semget_create s = (s', sid)"
  shows "closed_inv n (sgo s' i (Cr_lock sid))"
proof (cases "cur s")
  case None
  then have o: "\<not> owns x (spc s j)" if "j < n" for j x using assms(1) that by (auto simp: closed_inv_def)
  then have "spc s j \<noteq> Cl_rm x" if "j < n" for j x using that by (metis owns_simps(13))
  with o show ?thesis using assms(1,5) None by (auto simp: closed_inv_def semget_create_def)
next
  case (Some y)
  then have "s' = s" using assms(5) by (simp add: semget_create_def)
  then show ?thesis by (intro closed_move [OF assms(1-4), where p = "Cr_lock sid"]) simp_all
qed

lemma closed_remove:
  assumes "closed_inv n s" "ipc_inv n s" "int n < BIGCOUNT" "i < n" "spc s i = Cl_rm c"
    and "spc t = (spc s)(i := Out)"
  shows "closed_inv n t"
proof -
  have "\<not> owns x (spc s j)" if "j < n" "j \<noteq> i" for j x
    using remover_alone [OF assms(1-4) that(1) that(2) [symmetric] assms(5)] .
  moreover from this have "spc s j \<noteq> Cl_rm x" if "j < n" "j \<noteq> i" for j x using that by (metis owns_simps(13))
  ultimately show ?thesis using assms(1,6) by (auto simp: closed_inv_def)
qed

lemma closed_step:
  assumes "ipc_step False False initval n s t" "closed_inv n s" "ipc_inv n s" "int n < BIGCOUNT"
  shows "closed_inv n t"
proof -
  note C = assms(2) [unfolded closed_inv_def]
  note move = closed_move [OF assms(2-4)] and dead = closed_dead [OF assms(2-4)]
  from assms(1) show ?thesis
  proof cases
    case (cr_semget i s' sid)
    with closed_create [OF assms(2-4) cr_semget(2)] show ?thesis by simp
  next
    case (cr_lock i sid v)
    then show ?thesis by (intro move [where p = "Cr_get sid"]) (auto simp: op_lock_def semop_done_def split: if_splits)
  next
    case (cr_call i)
    then show ?thesis by (intro move [where i = i and p = "Cr_start"]) (auto)
  next
    case (cr_again i sid)
    then show ?thesis by (intro move [where i = i and p = "Cr_start"]) (auto)
  next
    case (cr_sleep i sid)
    then show ?thesis by (intro move [where i = i and p = "Cr_asleep sid"]) (auto)
  next
    case (cr_getval i sid)
    then show ?thesis by (intro move [where i = i and p = "if vals s 1 = 0 then Cr_set0 sid else Cr_end sid"]) (auto split: if_splits)
  next
    case (cr_setval0 i sid)
    then show ?thesis by (intro move [where i = i and p = "Cr_set1 sid"]) (auto simp: setval_def)
  next
    case (cr_setval1 i sid)
    then show ?thesis by (intro move [where i = i and p = "Cr_end sid"]) (auto simp: setval_def)
  next
    case (cr_end i sid v)
    then show ?thesis by (intro move [where i = i and p = "In sid"]) (auto)
  next
    case (op_call i sid amount v)
    then show ?thesis by (intro move [where i = i and p = "In sid"]) (auto)
  next
    case (cl_lock i sid v)
    then show ?thesis by (intro move [where i = i and p = "Cl_get sid"]) (auto)
  next
    case (cl_getval i sid)
    then show ?thesis by (intro move [where i = i and p = "if vals s 1 = BIGCOUNT then Cl_rm sid else Cl_unlock sid"]) (auto split: if_splits)
  next
    case (cl_unlock i sid v)
    then show ?thesis by (intro move [where i = i and p = "Out"]) (auto)
  next
    case (cl_call i sid)
    moreover from this have "cur s = Some sid" using C by (metis owns_simps(10))
    ultimately show ?thesis by (intro move [where i = i and p = "Cl_lock sid"]) auto
  next
    case (op_open i sid v)
    then show ?thesis using C by blast
  next
    case (cl_rm i sid)
    with closed_remove [OF assms(2-4) cl_rm(2,3)] show ?thesis by simp
  qed (simp_all add: dead)
qed

section \<open>Calls that run without interruption\<close>

abbreviation ipc_run :: "bool \<Rightarrow> bool \<Rightarrow> int \<Rightarrow> nat \<Rightarrow> ipc \<Rightarrow> ipc \<Rightarrow> bool" where
  "ipc_run opens removes initval n \<equiv> (ipc_step opens removes initval n)\<^sup>*\<^sup>*"

lemmas then_step = converse_rtranclp_into_rtranclp

lemma run_eq: "s = t \<Longrightarrow> ipc_run opens removes initval n s t"
  by simp

lemmas call_defs = ops_defs semop_done_def setval_def rmid_def semget_create_def fun_upd_def fun_eq_iff BIGCOUNT_def

lemma create_new:
  assumes "i < n" "spc s i = Out" "cur s = None" "0 \<le> initval" "initval \<le> SEMVMX"
  shows "ipc_run opens removes initval n s
    (s\<lparr>cur := Some (next_id s), vals := (\<lambda>_. 0)(0 := initval, 1 := BIGCOUNT - 1),
       adj := (\<lambda>_ _. 0)(i := (\<lambda>_. 0)(1 := 1)), next_id := next_id s + 1, spc := (spc s)(i := In (next_id s))\<rparr>)"
  apply (rule then_step, rule ipc_step.cr_call [of i], simp_all add: assms)
  apply (rule then_step, rule ipc_step.cr_semget [of i], simp_all add: assms semget_create_def)
  apply (rule then_step, rule ipc_step.cr_lock [of i _ _ "next_id s"], simp_all add: assms op_lock_def)
  apply (rule then_step, rule ipc_step.cr_getval [of i _ _ "next_id s"], simp_all add: assms semop_done_def)
  apply (rule then_step, rule ipc_step.cr_setval0 [of i _ _ "next_id s"], simp_all add: assms setval_def)
  apply (rule then_step, rule ipc_step.cr_setval1 [of i _ _ "next_id s"], simp_all add: assms setval_def)
  apply (rule then_step, rule ipc_step.cr_end [of i _ _ "next_id s"],
    simp_all add: assms op_endcreate_def BIGCOUNT_def)
  apply (rule run_eq, simp add: semop_done_def fun_eq_iff)
  done

lemma create_old:
  assumes "i < n" "spc s i = Out" "cur s = Some c" "vals s 2 = 0" "1 \<le> vals s 1" "vals s 1 \<le> SEMVMX"
  shows "ipc_run opens removes initval n s
    (s\<lparr>vals := (vals s)(1 := vals s 1 - 1), adj := (adj s)(i := (adj s i)(1 := adj s i 1 + 1)),
       spc := (spc s)(i := In c)\<rparr>)"
  apply (rule then_step, rule ipc_step.cr_call [of i], simp_all add: assms)
  apply (rule then_step, rule ipc_step.cr_semget [of i], simp_all add: assms semget_create_def)
  apply (rule then_step, rule ipc_step.cr_lock [of i _ _ c], simp_all add: assms op_lock_def)
  apply (rule then_step, rule ipc_step.cr_getval [of i _ _ c], use assms in \<open>simp_all add: semop_done_def\<close>)
  apply (rule then_step, rule ipc_step.cr_end [of i _ _ c], use assms in \<open>simp_all add: op_endcreate_def\<close>)
  apply (rule run_eq, simp add: semop_done_def fun_eq_iff)
  done

lemma close_last:
  assumes "i < n" "spc s i = In c" "cur s = Some c" "vals s 2 = 0" "vals s 1 = BIGCOUNT - 1"
  shows "ipc_run opens removes initval n s (sgo (rmid s) i Out)"
  apply (rule then_step, rule ipc_step.cl_call [of i], simp_all add: assms)
  apply (rule then_step, rule ipc_step.cl_lock [of i _ _ c], use assms in \<open>simp_all add: op_close_def BIGCOUNT_def\<close>)
  apply (rule then_step, rule ipc_step.cl_getval [of i _ _ c],
    use assms in \<open>simp_all add: semop_done_def BIGCOUNT_def\<close>)
  apply (rule then_step, rule ipc_step.cl_rm [of i _ _ c], use assms in \<open>simp_all\<close>)
  apply (rule run_eq, simp add: rmid_def)
  done

lemma close_other:
  assumes "i < n" "spc s i = In c" "cur s = Some c" "vals s 2 = 0" "0 \<le> vals s 1" "vals s 1 < BIGCOUNT - 1"
  shows "ipc_run opens removes initval n s
    (s\<lparr>vals := (vals s)(1 := vals s 1 + 1), adj := (adj s)(i := (adj s i)(1 := adj s i 1 - 1)),
       spc := (spc s)(i := Out)\<rparr>)"
  apply (rule then_step, rule ipc_step.cl_call [of i], simp_all add: assms)
  apply (rule then_step, rule ipc_step.cl_lock [of i _ _ c], use assms in \<open>simp_all add: op_close_def BIGCOUNT_def\<close>)
  apply (rule then_step, rule ipc_step.cl_getval [of i _ _ c],
    use assms in \<open>simp_all add: semop_done_def BIGCOUNT_def\<close>)
  apply (rule then_step, rule ipc_step.cl_unlock [of i _ _ c], use assms in \<open>simp_all add: op_unlock_def\<close>)
  apply (rule run_eq, simp add: semop_done_def fun_eq_iff)
  done

section \<open>Properties\<close>

lemma closed_start: "closed_inv n ipc_start"
  by (simp add: closed_inv_def ipc_start_def)

interpretation closed: safe_machine "\<lambda>s. s = ipc_start \<and> int n < BIGCOUNT" "ipc_step False False initval n"
  "\<lambda>s. closed_inv n s \<and> ipc_inv n s \<and> int n < BIGCOUNT" for initval n
  by unfold_locales (auto intro: closed_step ipc_inv_step ipc_inv_start closed_start)

abbreviation sem_reach :: "bool \<Rightarrow> bool \<Rightarrow> int \<Rightarrow> nat \<Rightarrow> ipc \<Rightarrow> bool" where
  "sem_reach opens removes initval n \<equiv> reach (\<lambda>s. s = ipc_start) (ipc_step opens removes initval n)"

lemma sem_reach_inv: "sem_reach opens removes initval n s \<Longrightarrow> int n < BIGCOUNT \<Longrightarrow> ipc_inv n s"
  using semset.reach_inv reach_mono [where init' = "\<lambda>s. s = ipc_start \<and> int n < BIGCOUNT"] by blast

lemma sem_reach_closed:
  "sem_reach False False initval n s \<Longrightarrow> int n < BIGCOUNT \<Longrightarrow> closed_inv n s"
  using closed.reach_inv reach_mono [where init' = "\<lambda>s. s = ipc_start \<and> int n < BIGCOUNT"] by blast

lemma closed_ids:
  assumes "closed_inv n s" "i < n" "fatal_id (spc s i) = Some x" "spc s i \<noteq> Cr_asleep x"
  shows "cur s = Some x"
proof -
  have "spc s i \<noteq> Op_open x" using assms(1,2) by (auto simp: closed_inv_def)
  then have "owns x (spc s i)" using assms(3,4) by (cases "spc s i") auto
  then show ?thesis using assms(1,2) by (auto simp: closed_inv_def)
qed

text \<open>Two processes; process 0 has created the semaphore.\<close>

definition one_in :: ipc where
  "one_in = \<lparr>cur = Some 0, vals = (\<lambda>_. 0)(0 := 1, 1 := 9999), adj = (\<lambda>_ _. 0)(0 := (\<lambda>_. 0)(1 := 1)),
     next_id = 1, spc = (\<lambda>_. Out)(0 := In 0)\<rparr>"

lemma one_in_reached: "sem_reach opens removes 1 2 one_in"
proof -
  have "ipc_run opens removes 1 2 ipc_start one_in"
    using create_new [of 0 2 ipc_start 1 opens removes] by (simp add: ipc_start_def one_in_def BIGCOUNT_def)
  then show ?thesis by (rule reach_trans) (simp add: reach_init)
qed

section \<open>Properties\<close>

text \<open>C35. With fewer than 10000 processes that use the functions of the file and may be killed
  at any point, in every reachable state: the lock member of the existing set is the number of
  processes inside the lock and at most 1; the process counter is 0 before the set is
  initialised and otherwise counts down from \<open>BIGCOUNT\<close> by the number of users, so that
  \<open>err_dump\<close> in \<open>sem_close\<close> is never reached. If no process calls
  \<open>sem_open\<close> or \<open>sem_rm\<close>, the set a process uses is never removed: a system call can
  only find its identifier gone in \<open>sem_create\<close>, at the \<open>semop\<close> that takes the lock.\<close>

theorem semaph_counts:
  assumes "int n < BIGCOUNT" and "sem_reach opens removes initval n s"
  shows "(\<forall>c. cur s = Some c \<longrightarrow> vals s 2 = tally (locks c) n (spc s) \<and> vals s 2 \<le> 1 \<and>
       (vals s 1 = 0 \<and> tally (uses c) n (spc s) = 0 \<or> vals s 1 = BIGCOUNT - tally (uses c) n (spc s))) \<and>
     (\<forall>i<n. spc s i \<noteq> Dumped) \<and>
     (\<not> opens \<and> \<not> removes \<longrightarrow>
       (\<forall>i<n. \<forall>x. fatal_id (spc s i) = Some x \<and> spc s i \<noteq> Cr_asleep x \<longrightarrow> cur s = Some x))"
proof (intro conjI impI)
  show "\<forall>c. cur s = Some c \<longrightarrow> vals s 2 = tally (locks c) n (spc s) \<and> vals s 2 \<le> 1 \<and>
       (vals s 1 = 0 \<and> tally (uses c) n (spc s) = 0 \<or> vals s 1 = BIGCOUNT - tally (uses c) n (spc s))"
    using sem_reach_inv [OF assms(2,1)] by (auto simp: ipc_inv_def set_inv_def)
  show "\<forall>i<n. spc s i \<noteq> Dumped"
    using sem_reach_inv [OF assms(2,1)] by (simp add: ipc_inv_def)
  assume "\<not> opens \<and> \<not> removes"
  then have "closed_inv n s" using sem_reach_closed assms by simp
  then show "\<forall>i<n. \<forall>x. fatal_id (spc s i) = Some x \<and> spc s i \<noteq> Cr_asleep x \<longrightarrow> cur s = Some x"
    using closed_ids by blast
qed

theorem semaph_counts_witness:
  "vals one_in 2 = tally (locks 0) 2 (spc one_in) \<and> vals one_in 1 = BIGCOUNT - tally (uses 0) 2 (spc one_in) \<and>
   spc one_in 0 \<noteq> Dumped \<and> cur one_in = Some 0"
proof -
  have "int 2 < BIGCOUNT" by (simp add: BIGCOUNT_def)
  from semaph_counts [OF this one_in_reached, of False False]
  show ?thesis by (auto simp: one_in_def)
qed

lemma semaph_calls:
  shows "i < n \<Longrightarrow> spc s i = Out \<Longrightarrow> cur s = None \<Longrightarrow> 0 \<le> initval \<Longrightarrow> initval \<le> SEMVMX \<Longrightarrow>
      \<exists>t. ipc_run opens removes initval n s t \<and> spc t = (spc s)(i := In (next_id s)) \<and> cur t = Some (next_id s) \<and>
        vals t 0 = initval \<and> vals t 1 = BIGCOUNT - 1 \<and> vals t 2 = 0"
    and "i < n \<Longrightarrow> spc s i = Out \<Longrightarrow> cur s = Some c \<Longrightarrow> vals s 2 = 0 \<Longrightarrow> 1 \<le> vals s 1 \<Longrightarrow> vals s 1 \<le> BIGCOUNT \<Longrightarrow>
      \<exists>t. ipc_run opens removes initval n s t \<and> spc t = (spc s)(i := In c) \<and> cur t = Some c \<and>
        vals t 0 = vals s 0 \<and> vals t 1 = vals s 1 - 1 \<and> vals t 2 = 0"
    and "i < n \<Longrightarrow> spc s i = In c \<Longrightarrow> cur s = Some c \<Longrightarrow> vals s 2 = 0 \<Longrightarrow> 0 \<le> vals s 1 \<Longrightarrow> vals s 1 < BIGCOUNT \<Longrightarrow>
      \<exists>t. ipc_run opens removes initval n s t \<and> spc t = (spc s)(i := Out) \<and>
        (if vals s 1 + 1 = BIGCOUNT then cur t = None
         else cur t = Some c \<and> vals t = (vals s)(1 := vals s 1 + 1))"
    and "0 \<le> w 0 \<Longrightarrow> w 0 \<le> SEMVMX \<Longrightarrow> (sem_wait w = Sleep \<longleftrightarrow> w 0 = 0) \<and>
      (\<forall>u. sem_wait w = Done u \<longrightarrow> u = w(0 := w 0 - 1) \<and> sem_signal u = Done w)"
proof -
  show "(sem_wait w = Sleep \<longleftrightarrow> w 0 = 0) \<and>
      (\<forall>u. sem_wait w = Done u \<longrightarrow> u = w(0 := w 0 - 1) \<and> sem_signal u = Done w)"
    if "0 \<le> w 0" "w 0 \<le> SEMVMX"
    using that by (auto simp: sem_wait_def sem_signal_def sem_op_def op_op_def)
  show "\<exists>t. ipc_run opens removes initval n s t \<and> spc t = (spc s)(i := In (next_id s)) \<and> cur t = Some (next_id s) \<and>
        vals t 0 = initval \<and> vals t 1 = BIGCOUNT - 1 \<and> vals t 2 = 0"
    if "i < n" "spc s i = Out" "cur s = None" "0 \<le> initval" "initval \<le> SEMVMX"
    by (intro exI conjI) (rule create_new [OF that], simp_all)
  show "\<exists>t. ipc_run opens removes initval n s t \<and> spc t = (spc s)(i := In c) \<and> cur t = Some c \<and>
        vals t 0 = vals s 0 \<and> vals t 1 = vals s 1 - 1 \<and> vals t 2 = 0"
    if "i < n" "spc s i = Out" "cur s = Some c" "vals s 2 = 0" "1 \<le> vals s 1" "vals s 1 \<le> BIGCOUNT"
    by (intro exI conjI) (rule create_old [OF that(1-5)], use that in \<open>simp_all add: BIGCOUNT_def\<close>)
  show "\<exists>t. ipc_run opens removes initval n s t \<and> spc t = (spc s)(i := Out) \<and>
        (if vals s 1 + 1 = BIGCOUNT then cur t = None
         else cur t = Some c \<and> vals t = (vals s)(1 := vals s 1 + 1))"
    if "i < n" "spc s i = In c" "cur s = Some c" "vals s 2 = 0" "0 \<le> vals s 1" "vals s 1 < BIGCOUNT"
  proof (cases "vals s 1 + 1 = BIGCOUNT")
    case True
    then have "vals s 1 = BIGCOUNT - 1" by simp
    from close_last [OF that(1-4) this] True show ?thesis by (intro exI [of _ "sgo (rmid s) i Out"]) simp
  next
    case False
    with that(6) have "vals s 1 < BIGCOUNT - 1" by simp
    show ?thesis by (intro exI conjI) (rule close_other [OF that(1-5) \<open>vals s 1 < BIGCOUNT - 1\<close>],
      use False that(3) in simp_all)
  qed
qed

text \<open>
  A call of \<open>sem_create\<close> that is not interrupted gives a new semaphore the initial
  value, and leaves the value of an existing one as it is; a call of \<open>sem_close\<close> removes the
  set exactly when its caller is the last user. In between, \<open>sem_wait\<close> returns exactly when
  the value is positive, and \<open>sem_signal\<close> undoes it.\<close>

theorem semaph_create_close:
  assumes "i < n"
  shows "(spc s i = Out \<and> cur s = None \<and> 0 \<le> initval \<and> initval \<le> SEMVMX \<longrightarrow>
       (\<exists>t. ipc_run opens removes initval n s t \<and> spc t = (spc s)(i := In (next_id s)) \<and> cur t = Some (next_id s) \<and>
         vals t 0 = initval \<and> vals t 1 = BIGCOUNT - 1 \<and> vals t 2 = 0)) \<and>
     (\<forall>c. spc s i = Out \<and> cur s = Some c \<and> vals s 2 = 0 \<and> 1 \<le> vals s 1 \<and> vals s 1 \<le> BIGCOUNT \<longrightarrow>
       (\<exists>t. ipc_run opens removes initval n s t \<and> spc t = (spc s)(i := In c) \<and> cur t = Some c \<and>
         vals t 0 = vals s 0 \<and> vals t 1 = vals s 1 - 1 \<and> vals t 2 = 0)) \<and>
     (\<forall>c. spc s i = In c \<and> cur s = Some c \<and> vals s 2 = 0 \<and> 0 \<le> vals s 1 \<and> vals s 1 < BIGCOUNT \<longrightarrow>
       (\<exists>t. ipc_run opens removes initval n s t \<and> spc t = (spc s)(i := Out) \<and>
         (if vals s 1 + 1 = BIGCOUNT then cur t = None
          else cur t = Some c \<and> vals t = (vals s)(1 := vals s 1 + 1)))) \<and>
     (\<forall>w. 0 \<le> w 0 \<and> w 0 \<le> SEMVMX \<longrightarrow> (sem_wait w = Sleep \<longleftrightarrow> w 0 = 0) \<and>
       (\<forall>u. sem_wait w = Done u \<longrightarrow> u = w(0 := w 0 - 1) \<and> sem_signal u = Done w))"
  apply (intro conjI)
     apply (intro impI, elim conjE, rule semaph_calls(1) [OF assms], assumption+)
    apply (intro allI impI, elim conjE, rule semaph_calls(2) [OF assms], assumption+)
   apply (intro allI impI, elim conjE, rule semaph_calls(3) [OF assms], assumption+)
  apply (intro allI impI, elim conjE, rule semaph_calls(4), assumption+)
  done

theorem semaph_create_close_witness:
  "(\<exists>t. ipc_run False False 1 2 ipc_start t \<and> cur t = Some 0 \<and> vals t 0 = 1) \<and>
   (\<exists>t. ipc_run False False 1 2 one_in t \<and> spc t = (spc one_in)(1 := In 0) \<and> vals t 0 = 1) \<and>
   (\<exists>t. ipc_run False False 1 2 one_in t \<and> cur t = None) \<and> sem_wait (vals one_in) \<noteq> Sleep"
proof (intro conjI)
  show "\<exists>t. ipc_run False False 1 2 ipc_start t \<and> cur t = Some 0 \<and> vals t 0 = 1"
    using semaph_create_close [of 0 2 ipc_start 1 False False, THEN conjunct1] by (auto simp: ipc_start_def)
  show "\<exists>t. ipc_run False False 1 2 one_in t \<and> spc t = (spc one_in)(1 := In 0) \<and> vals t 0 = 1"
    using semaph_create_close [of 1 2 one_in 1 False False, THEN conjunct2, THEN conjunct1]
    by (auto simp: one_in_def BIGCOUNT_def)
  show "\<exists>t. ipc_run False False 1 2 one_in t \<and> cur t = None"
    using semaph_create_close [of 0 2 one_in 1 False False, THEN conjunct2, THEN conjunct2, THEN conjunct1]
    by (auto simp: one_in_def BIGCOUNT_def)
  show "sem_wait (vals one_in) \<noteq> Sleep"
    using semaph_create_close [of 0 2 one_in 1 False False, THEN conjunct2, THEN conjunct2, THEN conjunct2]
    by (simp add: one_in_def)
qed

lemma opened_then_removed:
  "\<exists>s. ipc_run True False 1 2 one_in s \<and> spc s 1 = In 0 \<and> cur s = None"
  apply (intro exI conjI)
    apply (rule then_step, rule ipc_step.op_semget [of 1 _ _ _ 0], simp_all add: one_in_def)
    apply (rule then_step, rule ipc_step.cl_call [of 0], simp_all)
    apply (rule then_step, rule ipc_step.cl_lock [of 0 _ _ 0], simp_all add: op_close_def)
    apply (rule then_step, rule ipc_step.cl_getval [of 0 _ _ 0], simp_all add: semop_done_def BIGCOUNT_def)
    apply (rule then_step, rule ipc_step.op_open [of 1 _ _ 0], simp_all add: op_open_def)
    apply (rule then_step, rule ipc_step.cl_rm [of 0 _ _ 0], simp_all add: semop_done_def)
    apply (rule run_eq, rule refl)
   apply simp_all
  done

lemma asleep_then_removed:
  "\<exists>s. ipc_run False False 1 2 one_in s \<and> spc s = (\<lambda>_. Out)(1 := Cr_asleep 0) \<and> cur s = None"
  apply (intro exI conjI)
    apply (rule then_step, rule ipc_step.cl_call [of 0], simp_all add: one_in_def)
    apply (rule then_step, rule ipc_step.cl_lock [of 0 _ _ 0], simp_all add: op_close_def)
    apply (rule then_step, rule ipc_step.cr_call [of 1], simp_all add: semop_done_def)
    apply (rule then_step, rule ipc_step.cr_semget [of 1], simp_all add: semget_create_def)
    apply (rule then_step, rule ipc_step.cr_sleep [of 1 _ _ 0], simp_all add: op_lock_def)
    apply (rule then_step, rule ipc_step.cl_getval [of 0 _ _ 0], simp_all add: BIGCOUNT_def)
    apply (rule then_step, rule ipc_step.cl_rm [of 0 _ _ 0], simp_all)
    apply (rule run_eq, rule refl)
   apply (simp_all add: fun_eq_iff)
  done

text \<open>Without a lock in \<open>sem_open\<close>, a process can have opened the semaphore with
  success and still find that \<open>sem_close\<close> of another process removed it. And a process that
  already sleeps in the \<open>semop\<close> of \<open>sem_create\<close> when the set is removed ends with an
  error instead of creating the set again, although only \<open>sem_create\<close> and
  \<open>sem_close\<close> are used: the call then fails with \<open>EIDRM\<close>, not
  \<open>EINVAL\<close>.\<close>

theorem semaph_races:
  "(\<exists>s. sem_reach True False 1 2 s \<and> spc s 1 = In 0 \<and> cur s = None) \<and>
   (\<exists>s. sem_reach False False 1 2 s \<and> spc s 1 = Cr_asleep 0 \<and> cur s = None \<and>
     (\<exists>t. ipc_step False False 1 2 s t \<and> spc t 1 \<noteq> Cr_asleep 0) \<and>
     (\<forall>t. ipc_step False False 1 2 s t \<longrightarrow> spc t 1 = Cr_asleep 0 \<or> spc t 1 = Died))"
proof
  show "\<exists>s. sem_reach True False 1 2 s \<and> spc s 1 = In 0 \<and> cur s = None"
    using opened_then_removed reach_trans [OF _ one_in_reached] by meson
  obtain s where s: "sem_reach False False 1 2 s" "spc s = (\<lambda>_. Out)(1 := Cr_asleep 0)" "cur s = None"
    using asleep_then_removed reach_trans [OF _ one_in_reached] by meson
  have "ipc_step False False 1 2 s (die 1 Died s)" using s by (intro err_sys [of 1 _ _ 0]) simp_all
  moreover have "spc t 1 = Cr_asleep 0 \<or> spc t 1 = Died" if "ipc_step False False 1 2 s t" for t
    using that by cases (use s(2,3) in \<open>auto simp: semget_create_def split: if_splits\<close>)
  ultimately show "\<exists>s. sem_reach False False 1 2 s \<and> spc s 1 = Cr_asleep 0 \<and> cur s = None \<and>
      (\<exists>t. ipc_step False False 1 2 s t \<and> spc t 1 \<noteq> Cr_asleep 0) \<and>
      (\<forall>t. ipc_step False False 1 2 s t \<longrightarrow> spc t 1 = Cr_asleep 0 \<or> spc t 1 = Died)"
    using s by (intro exI [of _ s]) force
qed

theorem semaph_races_witness:
  "\<exists>s t. sem_reach False False 1 2 s \<and> ipc_step False False 1 2 s t \<and> spc t 1 = Died"
proof -
  obtain s t where s: "sem_reach False False 1 2 s" "ipc_step False False 1 2 s t" "spc t 1 \<noteq> Cr_asleep 0"
    and "\<forall>t. ipc_step False False 1 2 s t \<longrightarrow> spc t 1 = Cr_asleep 0 \<or> spc t 1 = Died"
    using semaph_races by meson
  then have "spc t 1 = Died" by blast
  with s show ?thesis by blast
qed

end
