(* ===== verification/Counter.thy ===== *)
theory Counter imports Prelude
begin

text \<open>
  \<open>mutex/noMutex.cpp\<close>, \<open>mutex/withMutex.cpp\<close> and its copy in
  \<open>producerConsumer/\<close>: two threads increment one \<open>int\<close> \<open>x\<close> times each. The
  statement \<open>*p = *p+1\<close> is a read and a write, and the threads interleave at every access.
\<close>

section \<open>State\<close>





section \<open>Steps\<close>




section \<open>Any interleaving\<close>












lemma other_thread [simp]: "Suc 0 - t \<noteq> t" "t \<noteq> Suc 0 - t"
  by arith+






section \<open>With the mutex\<close>














section \<open>Runs\<close>








section \<open>Property\<close>



end
