(* ===== verification/PrimeQueue.thy ===== *)
theory PrimeQueue imports Primes
begin

text \<open>
  \<open>producerConsumer/producerConsumer.cpp\<close> (and its copy \<open>semaphore/noSemaphore.cpp\<close>) and
  \<open>semaphore/withSemaphore.cpp\<close>: one thread puts a prime into a queue and another takes it,
  synchronised by a condition variable or by the class \<open>Semaphore\<close>, which behaves
  atomically (theory \<open>CppSemaphore\<close>).
\<close>

section \<open>With a condition variable\<close>

text \<open>The next action of \<open>PrimeProducer\<close> and of \<open>PrimeConsumer\<close>.\<close>

datatype prod_pc = P_next | P_lock int | P_push int | P_unlock int | P_notify int | P_show int | P_end

datatype cons_pc = C_lock | C_test | C_block | C_woken | C_front | C_pop int | C_unlock int | C_show int | C_end

record prime_queue =
  plist :: "int list"
  pm :: "nat option"
  ppc :: prod_pc
  cpc :: cons_pc
  put :: "int option"
  got :: "int option"

text \<open>Thread 0 is the producer. \<open>spurious\<close> says whether \<open>cv.wait\<close> may wake without a
  notification.\<close>

inductive pq_step :: "bool \<Rightarrow> int \<Rightarrow> prime_queue \<Rightarrow> prime_queue \<Rightarrow> bool" for spurious :: bool and p :: int where
  p_next: "ppc s = P_next \<Longrightarrow> getNextPrime p = Ret d \<Longrightarrow> pq_step spurious p s (s\<lparr>ppc := P_lock d\<rparr>)"
| p_lock: "ppc s = P_lock d \<Longrightarrow> pm s = None \<Longrightarrow>
    pq_step spurious p s (s\<lparr>pm := Some 0, ppc := P_push d\<rparr>)"
| p_push: "ppc s = P_push d \<Longrightarrow> pq_step spurious p s (s\<lparr>plist := plist s @ [d], ppc := P_unlock d\<rparr>)"
| p_unlock: "ppc s = P_unlock d \<Longrightarrow> pq_step spurious p s (s\<lparr>pm := None, ppc := P_notify d\<rparr>)"
| p_notify: "ppc s = P_notify d \<Longrightarrow>
    pq_step spurious p s (s\<lparr>cpc := (if cpc s = C_block then C_woken else cpc s), ppc := P_show d\<rparr>)"
| p_show: "ppc s = P_show d \<Longrightarrow> pq_step spurious p s (s\<lparr>put := Some d, ppc := P_end\<rparr>)"
| c_lock: "cpc s = C_lock \<or> cpc s = C_woken \<Longrightarrow> pm s = None \<Longrightarrow> pq_step spurious p s (s\<lparr>pm := Some 1, cpc := C_test\<rparr>)"
| c_wait: "cpc s = C_test \<Longrightarrow> \<not> length (plist s) > 0 \<Longrightarrow> pq_step spurious p s (s\<lparr>pm := None, cpc := C_block\<rparr>)"
| c_spurious: "cpc s = C_block \<Longrightarrow> spurious \<Longrightarrow> pq_step spurious p s (s\<lparr>cpc := C_woken\<rparr>)"
| c_ready: "cpc s = C_test \<Longrightarrow> length (plist s) > 0 \<Longrightarrow> pq_step spurious p s (s\<lparr>cpc := C_front\<rparr>)"
| c_front: "cpc s = C_front \<Longrightarrow> plist s = d # ds \<Longrightarrow> pq_step spurious p s (s\<lparr>cpc := C_pop d\<rparr>)"
| c_pop: "cpc s = C_pop d \<Longrightarrow> pq_step spurious p s (s\<lparr>plist := tl (plist s), cpc := C_unlock d\<rparr>)"
| c_unlock: "cpc s = C_unlock d \<Longrightarrow> pq_step spurious p s (s\<lparr>pm := None, cpc := C_show d\<rparr>)"
| c_show: "cpc s = C_show d \<Longrightarrow> pq_step spurious p s (s\<lparr>got := Some d, cpc := C_end\<rparr>)"

definition pq_start :: prime_queue where
  "pq_start = \<lparr>plist = [], pm = None, ppc = P_next, cpc = C_lock, put = None, got = None\<rparr>"

fun pushed :: "prod_pc \<Rightarrow> bool" where
  "pushed P_next = False"
| "pushed (P_lock d) = False"
| "pushed (P_push d) = False"
| "pushed _ = True"

fun taken :: "cons_pc \<Rightarrow> bool" where
  "taken (C_unlock d) = True"
| "taken (C_show d) = True"
| "taken C_end = True"
| "taken _ = False"

fun prod_locked :: "prod_pc \<Rightarrow> bool" where
  "prod_locked (P_push d) = True"
| "prod_locked (P_unlock d) = True"
| "prod_locked _ = False"

fun cons_locked :: "cons_pc \<Rightarrow> bool" where
  "cons_locked C_test = True"
| "cons_locked C_front = True"
| "cons_locked (C_pop d) = True"
| "cons_locked (C_unlock d) = True"
| "cons_locked _ = False"

fun prod_val :: "int \<Rightarrow> int option \<Rightarrow> prod_pc \<Rightarrow> bool" where
  "prod_val q a (P_lock d) \<longleftrightarrow> d = q"
| "prod_val q a (P_push d) \<longleftrightarrow> d = q"
| "prod_val q a (P_unlock d) \<longleftrightarrow> d = q"
| "prod_val q a (P_notify d) \<longleftrightarrow> d = q"
| "prod_val q a (P_show d) \<longleftrightarrow> d = q"
| "prod_val q a P_end \<longleftrightarrow> a = Some q"
| "prod_val q a _ \<longleftrightarrow> True"

fun cons_val :: "int \<Rightarrow> int option \<Rightarrow> cons_pc \<Rightarrow> bool" where
  "cons_val q a (C_pop d) \<longleftrightarrow> d = q"
| "cons_val q a (C_unlock d) \<longleftrightarrow> d = q"
| "cons_val q a (C_show d) \<longleftrightarrow> d = q"
| "cons_val q a C_end \<longleftrightarrow> a = Some q"
| "cons_val q a _ \<longleftrightarrow> True"

definition pq_inv :: "int \<Rightarrow> prime_queue \<Rightarrow> bool" where
  "pq_inv q s \<longleftrightarrow>
     plist s = (if pushed (ppc s) \<and> \<not> taken (cpc s) then [q] else []) \<and>
     pm s = (if prod_locked (ppc s) then Some 0 else if cons_locked (cpc s) then Some 1 else None) \<and>
     \<not> (prod_locked (ppc s) \<and> cons_locked (cpc s)) \<and>
     prod_val q (put s) (ppc s) \<and> cons_val q (got s) (cpc s) \<and>
     (taken (cpc s) \<or> cpc s = C_front \<or> (\<exists>d. cpc s = C_pop d) \<longrightarrow> pushed (ppc s)) \<and>
     (cpc s = C_block \<and> pushed (ppc s) \<longrightarrow> (\<exists>d. ppc s = P_unlock d \<or> ppc s = P_notify d))"

lemma pq_inv_step:
  assumes "pq_step spurious p s t" "getNextPrime p = Ret q" "pq_inv q s"
  shows "pq_inv q t"
  using assms(1)
proof cases
qed (use assms(2,3) in \<open>auto simp: pq_inv_def split: if_splits\<close>)

text \<open>What is left to do; notifying outweighs the rounds of the wait it causes.\<close>

fun prod_left :: "prod_pc \<Rightarrow> nat" where
  "prod_left P_next = 6"
| "prod_left (P_lock d) = 5"
| "prod_left (P_push d) = 4"
| "prod_left (P_unlock d) = 3"
| "prod_left (P_notify d) = 2"
| "prod_left (P_show d) = 1"
| "prod_left P_end = 0"

fun cons_left :: "cons_pc \<Rightarrow> nat" where
  "cons_left C_lock = 8"
| "cons_left C_woken = 7"
| "cons_left C_test = 6"
| "cons_left C_block = 5"
| "cons_left C_front = 4"
| "cons_left (C_pop d) = 3"
| "cons_left (C_unlock d) = 2"
| "cons_left (C_show d) = 1"
| "cons_left C_end = 0"

definition pq_left :: "prime_queue \<Rightarrow> nat" where
  "pq_left s = 9 * prod_left (ppc s) + cons_left (cpc s)"

lemma pq_left_step: "pq_step False p s t \<Longrightarrow> pq_left t < pq_left s"
  by (induction rule: pq_step.induct) (auto simp: pq_left_def)

lemma pq_not_stuck:
  assumes "getNextPrime p = Ret q" "pq_inv q s" "ppc s \<noteq> P_end \<or> cpc s \<noteq> C_end"
  shows "\<exists>t. pq_step False p s t"
proof (cases "ppc s = P_end \<or> (\<exists>d. ppc s = P_lock d) \<and> pm s \<noteq> None")
  case False
  then show ?thesis using assms(1) by (cases "ppc s") (auto intro: pq_step.intros)
next
  case True
  then have "cpc s \<noteq> C_end" "cpc s \<noteq> C_block" "cpc s = C_lock \<or> cpc s = C_woken \<Longrightarrow> pm s = None"
    "cpc s = C_front \<Longrightarrow> plist s = [q]"
    using assms(2,3) by (auto simp: pq_inv_def split: if_splits)
  moreover have "\<exists>t. pq_step False p s t" if "cpc s = C_test"
    using c_wait [OF that, of False p] c_ready [OF that, of False p] by blast
  ultimately show ?thesis by (cases "cpc s") (auto intro: pq_step.intros)
qed

lemma pq_inv_start: "pq_inv q pq_start"
  by (simp add: pq_inv_def pq_start_def)

interpretation pq: safe_machine "\<lambda>s. s = pq_start \<and> getNextPrime p = Ret q" "pq_step spurious p"
  "\<lambda>s. pq_inv q s \<and> getNextPrime p = Ret q" for spurious p q
  by unfold_locales (use pq_inv_step pq_inv_start in blast)+

section \<open>With a semaphore\<close>

datatype sprod_pc = Q_next | Q_push int | Q_post int | Q_show int | Q_end

datatype scons_pc = D_wait | D_front | D_pop int | D_show int | D_end

record sem_queue =
  slist :: "int list"
  ssem :: int
  sppc :: sprod_pc
  scpc :: scons_pc
  sput :: "int option"
  sgot :: "int option"

inductive sq_step :: "int \<Rightarrow> sem_queue \<Rightarrow> sem_queue \<Rightarrow> bool" for p :: int where
  q_next: "sppc s = Q_next \<Longrightarrow> getNextPrime p = Ret d \<Longrightarrow> sq_step p s (s\<lparr>sppc := Q_push d\<rparr>)"
| q_push: "sppc s = Q_push d \<Longrightarrow> sq_step p s (s\<lparr>slist := slist s @ [d], sppc := Q_post d\<rparr>)"
| q_post: "sppc s = Q_post d \<Longrightarrow> sq_step p s (s\<lparr>ssem := ssem s + 1, sppc := Q_show d\<rparr>)"
| q_show: "sppc s = Q_show d \<Longrightarrow> sq_step p s (s\<lparr>sput := Some d, sppc := Q_end\<rparr>)"
| d_wait: "scpc s = D_wait \<Longrightarrow> 0 < ssem s \<Longrightarrow> sq_step p s (s\<lparr>ssem := ssem s - 1, scpc := D_front\<rparr>)"
| d_front: "scpc s = D_front \<Longrightarrow> slist s = d # ds \<Longrightarrow> sq_step p s (s\<lparr>scpc := D_pop d\<rparr>)"
| d_pop: "scpc s = D_pop d \<Longrightarrow> sq_step p s (s\<lparr>slist := tl (slist s), scpc := D_show d\<rparr>)"
| d_show: "scpc s = D_show d \<Longrightarrow> sq_step p s (s\<lparr>sgot := Some d, scpc := D_end\<rparr>)"

definition sq_start :: sem_queue where
  "sq_start = \<lparr>slist = [], ssem = 0, sppc = Q_next, scpc = D_wait, sput = None, sgot = None\<rparr>"

fun sq_prod :: "int \<Rightarrow> int option \<Rightarrow> sprod_pc \<Rightarrow> bool" where
  "sq_prod q a Q_next \<longleftrightarrow> True"
| "sq_prod q a (Q_push d) \<longleftrightarrow> d = q"
| "sq_prod q a (Q_post d) \<longleftrightarrow> d = q"
| "sq_prod q a (Q_show d) \<longleftrightarrow> d = q"
| "sq_prod q a Q_end \<longleftrightarrow> a = Some q"

fun sq_cons :: "int \<Rightarrow> int option \<Rightarrow> scons_pc \<Rightarrow> bool" where
  "sq_cons q a (D_pop d) \<longleftrightarrow> d = q"
| "sq_cons q a (D_show d) \<longleftrightarrow> d = q"
| "sq_cons q a D_end \<longleftrightarrow> a = Some q"
| "sq_cons q a _ \<longleftrightarrow> True"

fun filled :: "sprod_pc \<Rightarrow> bool" where
  "filled Q_next = False"
| "filled (Q_push d) = False"
| "filled _ = True"

fun posted :: "sprod_pc \<Rightarrow> bool" where
  "posted (Q_show d) = True"
| "posted Q_end = True"
| "posted _ = False"

fun drained :: "scons_pc \<Rightarrow> bool" where
  "drained (D_show d) = True"
| "drained D_end = True"
| "drained _ = False"

lemma filled_posted: "posted p \<Longrightarrow> filled p"
  by (cases p) simp_all

definition sq_inv :: "int \<Rightarrow> sem_queue \<Rightarrow> bool" where
  "sq_inv q s \<longleftrightarrow>
     slist s = (if filled (sppc s) \<and> \<not> drained (scpc s) then [q] else []) \<and>
     ssem s = (if posted (sppc s) \<and> scpc s = D_wait then 1 else 0) \<and>
     (scpc s \<noteq> D_wait \<longrightarrow> posted (sppc s)) \<and>
     sq_prod q (sput s) (sppc s) \<and> sq_cons q (sgot s) (scpc s)"

fun sprod_left :: "sprod_pc \<Rightarrow> nat" where
  "sprod_left Q_next = 4"
| "sprod_left (Q_push d) = 3"
| "sprod_left (Q_post d) = 2"
| "sprod_left (Q_show d) = 1"
| "sprod_left Q_end = 0"

fun scons_left :: "scons_pc \<Rightarrow> nat" where
  "scons_left D_wait = 4"
| "scons_left D_front = 3"
| "scons_left (D_pop d) = 2"
| "scons_left (D_show d) = 1"
| "scons_left D_end = 0"

definition sq_left :: "sem_queue \<Rightarrow> nat" where
  "sq_left s = sprod_left (sppc s) + scons_left (scpc s)"

lemma sq_left_step: "sq_step p s t \<Longrightarrow> sq_left t < sq_left s"
  by (induction rule: sq_step.induct) (auto simp: sq_left_def)

lemma sq_inv_step:
  assumes "sq_step p s t" "getNextPrime p = Ret q" "sq_inv q s"
  shows "sq_inv q t"
  using assms(1)
proof cases
qed (use assms(2,3) in \<open>auto simp: sq_inv_def split: if_splits\<close>)

lemma sq_not_stuck:
  assumes "getNextPrime p = Ret q" "sq_inv q s" "sppc s \<noteq> Q_end \<or> scpc s \<noteq> D_end"
  shows "\<exists>t. sq_step p s t"
proof (cases "sppc s = Q_end")
  case False
  then show ?thesis using assms(1) by (cases "sppc s") (auto intro: sq_step.intros)
next
  case True
  then have "scpc s \<noteq> D_end" "scpc s = D_wait \<Longrightarrow> 0 < ssem s" "scpc s = D_front \<Longrightarrow> slist s = [q]"
    using assms(2,3) by (auto simp: sq_inv_def split: if_splits)
  then show ?thesis by (cases "scpc s") (auto intro: sq_step.intros)
qed

lemma sq_inv_start: "sq_inv q sq_start"
  by (simp add: sq_inv_def sq_start_def)

interpretation sq: safe_machine "\<lambda>s. s = sq_start \<and> getNextPrime p = Ret q" "sq_step p"
  "\<lambda>s. sq_inv q s \<and> getNextPrime p = Ret q" for p q
  by unfold_locales (use sq_inv_step sq_inv_start in blast)+

section \<open>Property\<close>

lemma pq_reached:
  assumes "getNextPrime p = Ret q" "reach (\<lambda>s. s = pq_start) (pq_step spurious p) s"
  shows "(cpc s = C_front \<longrightarrow> plist s = [q]) \<and> \<not> (prod_locked (ppc s) \<and> cons_locked (cpc s)) \<and>
    (if ppc s = P_end \<and> cpc s = C_end then put s = Some q \<and> got s = Some q \<and> plist s = []
     else \<exists>t. pq_step False p s t)"
proof -
  have "reach (\<lambda>s. s = pq_start \<and> getNextPrime p = Ret q) (pq_step spurious p) s"
    using assms(2) by (rule reach_mono) (simp add: assms(1))
  then have I: "pq_inv q s" using pq.reach_inv by blast
  then show ?thesis using pq_not_stuck [OF assms(1) I]
    by (cases "ppc s = P_end \<and> cpc s = C_end") (auto simp: pq_inv_def)
qed

lemma sq_reached:
  assumes "getNextPrime p = Ret q" "reach (\<lambda>s. s = sq_start) (sq_step p) s"
  shows "(scpc s = D_front \<longrightarrow> slist s = [q]) \<and> (scpc s \<noteq> D_wait \<longrightarrow> posted (sppc s)) \<and>
    (if sppc s = Q_end \<and> scpc s = D_end then sput s = Some q \<and> sgot s = Some q \<and> slist s = []
     else \<exists>t. sq_step p s t)"
proof -
  have "reach (\<lambda>s. s = sq_start \<and> getNextPrime p = Ret q) (sq_step p) s"
    using assms(2) by (rule reach_mono) (simp add: assms(1))
  then have I: "sq_inv q s" using sq.reach_inv by blast
  then show ?thesis using sq_not_stuck [OF assms(1) I]
    by (cases "sppc s = Q_end \<and> scpc s = D_end") (auto simp: sq_inv_def filled_posted)
qed

lemma pq_ends: "wfp (\<lambda>t s. pq_step False p s t)"
  by (rule wfp_if_convertible_to_nat [where f = pq_left]) (rule pq_left_step)

lemma sq_ends: "wfp (\<lambda>t s. sq_step p s t)"
  by (rule wfp_if_convertible_to_nat [where f = sq_left]) (rule sq_left_step)

text \<open>C37. If \<open>getNextPrime\<close> gives a prime, both programs hand it over: in every
  interleaving, with spurious wakeups of \<open>cv.wait\<close> or without, \<open>front\<close> is only called
  on a non-empty queue, the two threads are never inside the queue's operations together, some
  thread can always go on until both have ended, and then both have shown that prime. Every step
  but a spurious wakeup makes progress, so the programs end unless \<open>cv.wait\<close> wakes
  spuriously for ever.\<close>

theorem prime_handed_over:
  assumes "getNextPrime p = Ret q"
  shows "(\<forall>spurious s. reach (\<lambda>s. s = pq_start) (pq_step spurious p) s \<longrightarrow>
      (cpc s = C_front \<longrightarrow> plist s = [q]) \<and> \<not> (prod_locked (ppc s) \<and> cons_locked (cpc s)) \<and>
      (if ppc s = P_end \<and> cpc s = C_end then put s = Some q \<and> got s = Some q \<and> plist s = []
       else \<exists>t. pq_step False p s t)) \<and>
    wfp (\<lambda>t s. pq_step False p s t) \<and>
    (\<forall>s. reach (\<lambda>s. s = sq_start) (sq_step p) s \<longrightarrow>
      (scpc s = D_front \<longrightarrow> slist s = [q]) \<and> (scpc s \<noteq> D_wait \<longrightarrow> posted (sppc s)) \<and>
      (if sppc s = Q_end \<and> scpc s = D_end then sput s = Some q \<and> sgot s = Some q \<and> slist s = []
       else \<exists>t. sq_step p s t)) \<and>
    wfp (\<lambda>t s. sq_step p s t)"
proof (intro conjI pq_ends sq_ends)
qed (intro allI impI, (rule pq_reached [OF assms] sq_reached [OF assms], assumption))+

theorem prime_handed_over_witness:
  "(\<exists>s. reach (\<lambda>s. s = pq_start) (pq_step True 13) s \<and> cpc s = C_block \<and> (\<exists>t. pq_step False 13 s t)) \<and>
   (\<exists>t. sq_step 13 sq_start t)"
proof -
  have g: "getNextPrime 13 = Ret 17"
    by (simp add: getNextPrime.simps isPrime_def prime_loop.simps INT_MAX_def)
  note facts = prime_handed_over [OF g]
  let ?R = "reach (\<lambda>s. s = pq_start) (pq_step True 13)"
  define s1 where "s1 = pq_start\<lparr>pm := Some 1, cpc := C_test\<rparr>"
  define s2 where "s2 = s1\<lparr>pm := None, cpc := C_block\<rparr>"
  have "?R pq_start" by (rule reach_init) simp
  then have "?R s1" by (rule reach_step) (unfold s1_def, rule c_lock, simp_all add: pq_start_def)
  then have r: "?R s2" by (rule reach_step) (unfold s2_def, rule c_wait, simp_all add: s1_def pq_start_def)
  have "cpc s2 = C_block" by (simp add: s2_def)
  moreover from facts [THEN conjunct1, rule_format, OF r] this have "\<exists>t. pq_step False 13 s2 t" by simp
  moreover have "reach (\<lambda>s. s = sq_start) (sq_step 13) sq_start" by (rule reach_init) simp
  from facts [THEN conjunct2, THEN conjunct2, THEN conjunct1, rule_format, OF this]
  have "\<exists>t. sq_step 13 sq_start t" by (simp add: sq_start_def)
  ultimately show ?thesis using r by blast
qed

end
