(* ===== verification/FdTable.thy ===== *)
theory FdTable imports Prelude
begin

text \<open>
  The table of file descriptors of a process, as the system calls of the modelled programs use
  it: a new descriptor is always the lowest free one. The entries are whatever the descriptors
  of a component stand for.
\<close>

type_synonym 'a fdtable = "'a option list"

definition fd_get :: "'a fdtable \<Rightarrow> int \<Rightarrow> 'a option" where
  "fd_get t fd = (if 0 \<le> fd \<and> fd < int (length t) then t ! nat fd else None)"

text \<open>The descriptor a successful \<open>open\<close>, \<open>dup\<close> or \<open>socket\<close> returns.\<close>

fun fd_free :: "'a fdtable \<Rightarrow> int" where
  "fd_free [] = 0"
| "fd_free (None # t) = 0"
| "fd_free (Some x # t) = fd_free t + 1"

text \<open>Entry \<open>fd\<close>, extending the table if need be.\<close>

definition fd_set :: "int \<Rightarrow> 'a option \<Rightarrow> 'a fdtable \<Rightarrow> 'a fdtable" where
  "fd_set fd e t = (t @ replicate (nat (fd + 1) - length t) None)[nat fd := e]"

definition fd_alloc :: "'a \<Rightarrow> 'a fdtable \<Rightarrow> 'a fdtable \<times> int" where
  "fd_alloc x t = (fd_set (fd_free t) (Some x) t, fd_free t)"

text \<open>\<open>close\<close>: 0, or -1 for a descriptor that is not open.\<close>

definition fd_close :: "int \<Rightarrow> 'a fdtable \<Rightarrow> 'a fdtable \<times> int" where
  "fd_close fd t = (case fd_get t fd of None \<Rightarrow> (t, -1) | Some x \<Rightarrow> (fd_set fd None t, 0))"

definition fd_dup :: "int \<Rightarrow> 'a fdtable \<Rightarrow> 'a fdtable \<times> int" where
  "fd_dup fd t = (case fd_get t fd of None \<Rightarrow> (t, -1) | Some x \<Rightarrow> fd_alloc x t)"

definition fd_dup2 :: "int \<Rightarrow> int \<Rightarrow> 'a fdtable \<Rightarrow> 'a fdtable \<times> int" where
  "fd_dup2 old new t = (case fd_get t old of None \<Rightarrow> (t, -1)
     | Some x \<Rightarrow> if new < 0 then (t, -1) else (fd_set new (Some x) t, new))"

section \<open>Laws\<close>

lemma fd_free_nonneg [simp]: "0 \<le> fd_free t"
  by (induction t rule: fd_free.induct) auto

lemma fd_get_nat: "fd_get t (int m) = (if m < length t then t ! m else None)"
  by (simp add: fd_get_def)

lemma fd_get_set:
  assumes "0 \<le> fd"
  shows "fd_get (fd_set fd e t) k = (if k = fd then e else fd_get t k)"
proof (cases "0 \<le> k")
  case True
  with assms obtain m n where mn: "k = int m" "fd = int n" by (metis nonneg_int_cases)
  have l: "nat (int n + 1) = Suc n" by simp
  show ?thesis unfolding mn fd_get_nat fd_set_def nat_int l
    by (cases "m = n") (auto simp: nth_append)
qed (use assms in \<open>simp add: fd_get_def\<close>)

lemma fd_get_free [simp]: "fd_get t (fd_free t) = None"
proof (induction t rule: fd_free.induct)
  case (3 x t)
  then show ?case using fd_free_nonneg [of t] by (auto simp: fd_get_def nat_add_distrib)
qed (auto simp: fd_get_def)

lemma fd_get_below: "0 \<le> k \<Longrightarrow> k < fd_free t \<Longrightarrow> fd_get t k \<noteq> None"
proof (induction t arbitrary: k rule: fd_free.induct)
  case (3 x t)
  show ?case
  proof (cases "k = 0")
    case False
    then have "fd_get t (k - 1) \<noteq> None" using 3 by simp
    with False 3(2) show ?thesis
      by (auto simp: fd_get_def nth_Cons' nat_diff_distrib split: if_splits)
  qed (simp add: fd_get_def)
qed auto

lemma fd_get_neg [simp]: "fd < 0 \<Longrightarrow> fd_get t fd = None"
  by (simp add: fd_get_def)

lemma fd_get_Nil [simp]: "fd_get [] fd = None"
  by (auto simp: fd_get_def)

lemma fd_get_alloc: "fd_alloc x t = (u, fd) \<Longrightarrow> fd_get u k = (if k = fd then Some x else fd_get t k)"
  by (auto simp: fd_alloc_def fd_get_set)

lemma fd_get_some: "fd_get t fd = Some x \<Longrightarrow> 0 \<le> fd"
  by (auto simp: fd_get_def split: if_splits)

lemma fd_get_close: "fd_close fd t = (u, r) \<Longrightarrow> fd_get u k = (if k = fd then None else fd_get t k)"
  by (auto simp: fd_close_def fd_get_set fd_get_some split: option.splits)

text \<open>
  What the components rely on: descriptors are handed out where none is open and with no other
  change, and closing one forgets it.
\<close>

locale descriptors =
  fixes get :: "'t \<Rightarrow> int \<Rightarrow> 'a option" and alloc :: "'a \<Rightarrow> 't \<Rightarrow> 't \<times> int" and close :: "int \<Rightarrow> 't \<Rightarrow> 't \<times> int"
  assumes alloc_free: "alloc x t = (u, fd) \<Longrightarrow> get t fd = None \<and> 0 \<le> fd"
    and alloc_lowest: "alloc x t = (u, fd) \<Longrightarrow> 0 \<le> k \<Longrightarrow> k < fd \<Longrightarrow> get t k \<noteq> None"
    and alloc_get: "alloc x t = (u, fd) \<Longrightarrow> get u k = (if k = fd then Some x else get t k)"
    and close_get: "close fd t = (u, r) \<Longrightarrow> get u k = (if k = fd then None else get t k)"
begin

text \<open>Closing what was just handed out leaves no trace.\<close>

lemma alloc_close:
  assumes "alloc x t = (u, fd)" "close fd u = (v, r)"
  shows "get v = get t"
  using assms alloc_free [OF assms(1)] by (auto simp: fun_eq_iff close_get alloc_get)

text \<open>A descriptor that is closed is the next one handed out if those below it are open.\<close>

lemma close_alloc:
  assumes "close fd t = (u, r)" "alloc x u = (v, fd')" "0 \<le> fd" "\<And>k. 0 \<le> k \<Longrightarrow> k < fd \<Longrightarrow> get t k \<noteq> None"
  shows "fd' = fd"
proof -
  have "\<not> fd < fd'" using alloc_lowest [OF assms(2,3)] close_get [OF assms(1)] by auto
  moreover have "\<not> fd' < fd"
    using alloc_free [OF assms(2)] close_get [OF assms(1), of fd'] assms(4) [of fd'] by auto
  ultimately show ?thesis by simp
qed

end

interpretation fd: descriptors fd_get fd_alloc fd_close
proof unfold_locales
  show "fd_get t fd = None \<and> 0 \<le> fd" if "fd_alloc x t = (u, fd)" for x :: 'a and t u fd
    using that by (auto simp: fd_alloc_def)
  show "fd_get t k \<noteq> None" if "fd_alloc x t = (u, fd)" "0 \<le> k" "k < fd" for x :: 'a and t u fd k
    using that fd_get_below by (auto simp: fd_alloc_def)
qed (rule fd_get_alloc fd_get_close, assumption)+

end
