(* ===== verification/OpenFiles.thy ===== *)
theory OpenFiles imports FdTable
begin

text \<open>
  The programs of \<open>files/\<close> that show how descriptors share offsets (\<open>fdTest.c\<close>,
  \<open>fdTest2.c\<close>, \<open>oneFileTwoFDs.cpp\<close>, \<open>oneFileTwoFDsAndFork.cpp\<close>) and the
  descriptor flags of \<open>lib/setfl.c\<close>, \<open>lib/clrfl.c\<close>, \<open>lib/setfd.c\<close>, over an explicit
  file store: per process a table of descriptors, below it the table of open files with offset
  and status flags, below that the contents of the files. Access rights of the user are not
  modelled.
\<close>

section \<open>The file store\<close>

abbreviation (input) O_RDONLY :: u32 where "O_RDONLY \<equiv> 0"
abbreviation (input) O_WRONLY :: u32 where "O_WRONLY \<equiv> 1"
abbreviation (input) O_RDWR :: u32 where "O_RDWR \<equiv> 2"
abbreviation (input) O_CREAT :: u32 where "O_CREAT \<equiv> 0x40"
abbreviation (input) O_TRUNC :: u32 where "O_TRUNC \<equiv> 0x200"
abbreviation (input) O_APPEND :: u32 where "O_APPEND \<equiv> 0x400"

text \<open>The flags \<open>F_SETFL\<close> can change: \<open>O_APPEND\<close>, \<open>O_NONBLOCK\<close>,
  \<open>O_ASYNC\<close>, \<open>O_DIRECT\<close> and \<open>O_NOATIME\<close> (Linux).\<close>

definition SETFL_MASK :: u32 where "SETFL_MASK = 0x46c00"

record ofile =
  of_ino :: nat
  of_off :: nat
  of_flags :: u32

record store =
  dir :: "string \<Rightarrow> nat option"
  content :: "nat \<Rightarrow> char list"
  next_ino :: nat
  ofiles :: "ofile list"
  tables :: "nat \<Rightarrow> nat fdtable"
  cloexec :: "nat \<Rightarrow> int \<Rightarrow> bool"

definition can_read :: "u32 \<Rightarrow> bool" where "can_read fl \<longleftrightarrow> fl AND 3 \<noteq> O_WRONLY"

definition can_write :: "u32 \<Rightarrow> bool" where "can_write fl \<longleftrightarrow> fl AND 3 \<noteq> O_RDONLY"

definition has :: "u32 \<Rightarrow> u32 \<Rightarrow> bool" where "has fl b \<longleftrightarrow> fl AND b \<noteq> 0"

text \<open>The open file a descriptor of process \<open>p\<close> refers to.\<close>

definition ofile_of :: "store \<Rightarrow> nat \<Rightarrow> int \<Rightarrow> ofile option" where
  "ofile_of k p fd = (case fd_get (tables k p) fd of None \<Rightarrow> None | Some j \<Rightarrow> load (ofiles k) j)"

definition with_table :: "nat \<Rightarrow> nat fdtable \<times> int \<Rightarrow> store \<Rightarrow> store \<times> int" where
  "with_table p tr k = (k\<lparr>tables := (tables k)(p := fst tr), cloexec := (cloexec k)(p := (cloexec k p)(snd tr := False))\<rparr>, snd tr)"

definition new_ofile :: "nat \<Rightarrow> nat \<Rightarrow> u32 \<Rightarrow> store \<Rightarrow> store \<times> int" where
  "new_ofile p ino flags k =
     with_table p (fd_alloc (length (ofiles k)) (tables k p))
       (k\<lparr>ofiles := ofiles k @ [\<lparr>of_ino = ino, of_off = 0, of_flags = flags AND NOT (O_CREAT OR O_TRUNC)\<rparr>]\<rparr>)"

definition sys_open :: "nat \<Rightarrow> string \<Rightarrow> u32 \<Rightarrow> store \<Rightarrow> store \<times> int" where
  "sys_open p name flags k = (case dir k name of
     Some ino \<Rightarrow> new_ofile p ino flags
       (if has flags O_TRUNC then k\<lparr>content := (content k)(ino := [])\<rparr> else k)
   | None \<Rightarrow> if has flags O_CREAT
       then new_ofile p (next_ino k) flags
         (k\<lparr>dir := (dir k)(name \<mapsto> next_ino k), content := (content k)(next_ino k := []), next_ino := next_ino k + 1\<rparr>)
       else (k, -1))"

definition set_off :: "nat \<Rightarrow> nat \<Rightarrow> store \<Rightarrow> store" where
  "set_off j off k = k\<lparr>ofiles := (ofiles k)[j := (ofiles k ! j)\<lparr>of_off := off\<rparr>]\<rparr>"

text \<open>\<open>read\<close>: the bytes, at most \<open>n\<close> and none at the end of the file; \<open>None\<close> on error.\<close>

definition sys_read :: "nat \<Rightarrow> int \<Rightarrow> nat \<Rightarrow> store \<Rightarrow> store \<times> char list option" where
  "sys_read p fd n k = (case fd_get (tables k p) fd of None \<Rightarrow> (k, None)
     | Some j \<Rightarrow> let f = ofiles k ! j; data = take n (drop (of_off f) (content k (of_ino f))) in
         if can_read (of_flags f) then (set_off j (of_off f + length data) k, Some data) else (k, None))"

text \<open>Writing at an offset; a gap behind the end is filled with NULs.\<close>

definition put_at :: "nat \<Rightarrow> char list \<Rightarrow> char list \<Rightarrow> char list" where
  "put_at off data c = take off (c @ replicate (off - length c) NUL) @ data @ drop (off + length data) c"

definition sys_write :: "nat \<Rightarrow> int \<Rightarrow> char list \<Rightarrow> store \<Rightarrow> store \<times> int" where
  "sys_write p fd data k = (case fd_get (tables k p) fd of None \<Rightarrow> (k, -1)
     | Some j \<Rightarrow> let f = ofiles k ! j; c = content k (of_ino f);
           off = (if has (of_flags f) O_APPEND then length c else of_off f) in
         if can_write (of_flags f)
         then (set_off j (off + length data) (k\<lparr>content := (content k)(of_ino f := put_at off data c)\<rparr>), int (length data))
         else (k, -1))"

text \<open>\<open>lseek(fd, off, SEEK_SET)\<close>\<close>

definition sys_lseek :: "nat \<Rightarrow> int \<Rightarrow> nat \<Rightarrow> store \<Rightarrow> store \<times> int" where
  "sys_lseek p fd off k = (case fd_get (tables k p) fd of None \<Rightarrow> (k, -1)
     | Some j \<Rightarrow> (set_off j off k, int off))"

definition sys_dup :: "nat \<Rightarrow> int \<Rightarrow> store \<Rightarrow> store \<times> int" where
  "sys_dup p fd k = with_table p (fd_dup fd (tables k p)) k"

definition sys_dup2 :: "nat \<Rightarrow> int \<Rightarrow> int \<Rightarrow> store \<Rightarrow> store \<times> int" where
  "sys_dup2 p old new k = (if old = new then (k, if fd_get (tables k p) old = None then -1 else new)
     else with_table p (fd_dup2 old new (tables k p)) k)"


text \<open>The child \<open>c\<close> of \<open>fork\<close> gets a copy of the table, which refers to the same open
  files.\<close>

definition sys_fork :: "nat \<Rightarrow> nat \<Rightarrow> store \<Rightarrow> store" where
  "sys_fork p c k = k\<lparr>tables := (tables k)(c := tables k p), cloexec := (cloexec k)(c := cloexec k p)\<rparr>"

definition F_GETFL :: "nat \<Rightarrow> int \<Rightarrow> store \<Rightarrow> u32 option" where
  "F_GETFL p fd k = map_option of_flags (ofile_of k p fd)"

definition F_SETFL :: "nat \<Rightarrow> int \<Rightarrow> u32 \<Rightarrow> store \<Rightarrow> store option" where
  "F_SETFL p fd v k = (case fd_get (tables k p) fd of None \<Rightarrow> None
     | Some j \<Rightarrow> Some (k\<lparr>ofiles := (ofiles k)[j := (ofiles k ! j)\<lparr>of_flags :=
           v AND SETFL_MASK OR of_flags (ofiles k ! j) AND NOT SETFL_MASK\<rparr>]\<rparr>))"

section \<open>Flag functions of the library\<close>

text \<open>\<open>err_sys\<close> ends the process with status 1.\<close>

definition set_fl :: "nat \<Rightarrow> int \<Rightarrow> u32 \<Rightarrow> store \<Rightarrow> store outcome" where
  "set_fl p fd flags k = (case F_GETFL p fd k of None \<Rightarrow> Exits 1
     | Some v \<Rightarrow> (case F_SETFL p fd (v OR flags) k of None \<Rightarrow> Exits 1 | Some k' \<Rightarrow> Ret k'))"

definition clr_fl :: "nat \<Rightarrow> int \<Rightarrow> u32 \<Rightarrow> store \<Rightarrow> store outcome" where
  "clr_fl p fd flags k = (case F_GETFL p fd k of None \<Rightarrow> Exits 1
     | Some v \<Rightarrow> (case F_SETFL p fd (v AND NOT flags) k of None \<Rightarrow> Exits 1 | Some k' \<Rightarrow> Ret k'))"

text \<open>\<open>F_GETFD\<close> and \<open>F_SETFD\<close> read and write the one descriptor flag
  \<open>FD_CLOEXEC\<close>.\<close>

definition set_cloexec :: "nat \<Rightarrow> int \<Rightarrow> store \<Rightarrow> store \<times> int" where
  "set_cloexec p fd k = (case fd_get (tables k p) fd of None \<Rightarrow> (k, -1)
     | Some j \<Rightarrow> (k\<lparr>cloexec := (cloexec k)(p := (cloexec k p)(fd := True))\<rparr>, 0))"

section \<open>The programs\<close>

text \<open>\<open>read(fd, &c, 1)\<close> into a variable that may be indeterminate (\<open>None\<close>).\<close>

definition read_char :: "nat \<Rightarrow> int \<Rightarrow> char option \<Rightarrow> store \<Rightarrow> store \<times> char option" where
  "read_char p fd c k = (case sys_read p fd 1 k of (k', Some (x # _)) \<Rightarrow> (k', Some x) | (k', _) \<Rightarrow> (k', c))"

text \<open>Printing an indeterminate variable is undefined.\<close>

definition fdTest :: "store \<Rightarrow> string outcome" where
  "fdTest k = (let fname = ''file.txt'';
       (k, fd1) = sys_open 0 fname O_RDONLY k;
       (k, fd2) = sys_open 0 fname O_RDONLY k;
       (k, fd3) = sys_open 0 fname O_RDONLY k;
       (k, _) = sys_dup2 0 fd2 fd3 k;
       (k, c1) = read_char 0 fd1 None k;
       (k, c2) = read_char 0 fd2 None k;
       (k, c3) = read_char 0 fd3 None k
     in case (c1, c2, c3) of
          (Some x, Some y, Some z) \<Rightarrow> Ret (''c1 = '' @ [x] @ '', c2 = '' @ [y] @ '', c3 = '' @ [z] @ [CHR 0x0A])
        | _ \<Rightarrow> Undef)"

definition fdTest2 :: "string \<Rightarrow> store \<Rightarrow> store" where
  "fdTest2 fname k = (let
       (k, fd1) = sys_open 0 fname (O_CREAT OR O_TRUNC OR O_RDWR) k;
       (k, _) = sys_write 0 fd1 ''pqrs'' k;
       (k, fd2) = sys_open 0 fname (O_APPEND OR O_WRONLY) k;
       (k, _) = sys_write 0 fd2 ''jklmn'' k;
       (k, fd3) = sys_dup 0 fd1 k;
       (k, _) = sys_write 0 fd3 ''wxyz'' k;
       (k, _) = sys_write 0 fd2 ''ef'' k;
       (k, _) = sys_lseek 0 fd1 0 k;
       (k, _) = sys_write 0 fd3 ''ab'' k
     in k)"

definition oneFileTwoFDs :: "store \<Rightarrow> string outcome" where
  "oneFileTwoFDs k = (let
       (k, fd1) = sys_open 0 ''foobar.txt'' O_RDONLY k;
       (k, fd2) = sys_open 0 ''foobar.txt'' O_RDONLY k;
       (k, c) = read_char 0 fd1 None k;
       (k, d) = read_char 0 fd2 c k
     in case (c, d) of (Some x, Some y) \<Rightarrow> Ret ([x, CHR 0x0A, y, CHR 0x0A]) | _ \<Rightarrow> Undef)"

text \<open>One of the two branches after \<open>fork\<close>, with the name it prints.\<close>

definition reads_both :: "nat \<Rightarrow> string \<Rightarrow> int \<Rightarrow> int \<Rightarrow> store \<Rightarrow> store \<times> string" where
  "reads_both p who fd1 fd2 k = (let
       (k, c) = read_char p fd1 (Some (CHR ''k'')) k;
       (k, d) = read_char p fd2 c k
     in (k, who @ '' has:k'' @ [CHR 0x0A] @ who @ '' read fd1:'' @ [the c] @ [CHR 0x0A] @
            who @ '' read fd2:'' @ [the d] @ [CHR 0x0A]))"

text \<open>The parent (process 0) waits for the child (process 1); if \<open>fork\<close> fails, only the
  parent's branch runs.\<close>

definition oneFileTwoFDsAndFork :: "bool \<Rightarrow> store \<Rightarrow> string" where
  "oneFileTwoFDsAndFork forks k = (let
       (k, fd1) = sys_open 0 ''foobar.txt'' O_RDONLY k;
       (k, fd2) = sys_open 0 ''foobar.txt'' O_RDONLY k;
       (k, child) = (if forks then reads_both 1 ''Child'' fd1 fd2 (sys_fork 0 1 k) else (k, []));
       (k, parent) = reads_both 0 ''Parent'' fd1 fd2 k
     in child @ parent)"

section \<open>The store stays well-formed\<close>

text \<open>Descriptors refer to open files, and open files and names to files.\<close>

definition store_ok :: "store \<Rightarrow> bool" where
  "store_ok k \<longleftrightarrow> (\<forall>p fd j. fd_get (tables k p) fd = Some j \<longrightarrow> j < length (ofiles k)) \<and>
     (\<forall>f \<in> set (ofiles k). of_ino f < next_ino k) \<and> (\<forall>name ino. dir k name = Some ino \<longrightarrow> ino < next_ino k)"

lemma store_ok_index: "store_ok k \<Longrightarrow> fd_get (tables k p) fd = Some j \<Longrightarrow> j < length (ofiles k)"
  by (auto simp: store_ok_def)




lemma open_frame:
  assumes "new_ofile p ino flags k = (k', fd)"
  shows "fd_get (tables k p) fd = None"
    and "fd_get (tables k' q) x = (if q = p \<and> x = fd then Some (length (ofiles k)) else fd_get (tables k q) x)"
    and "ofiles k' = ofiles k @ [\<lparr>of_ino = ino, of_off = 0, of_flags = flags AND NOT (O_CREAT OR O_TRUNC)\<rparr>]"
    and "content k' = content k" "dir k' = dir k" "next_ino k' = next_ino k"
proof -
  obtain t r where a: "fd_alloc (length (ofiles k)) (tables k p) = (t, r)" by fastforce
  with assms have k': "tables k' = (tables k)(p := t)" "fd = r"
    and rest: "ofiles k' = ofiles k @ [\<lparr>of_ino = ino, of_off = 0, of_flags = flags AND NOT (O_CREAT OR O_TRUNC)\<rparr>]"
      "content k' = content k" "dir k' = dir k" "next_ino k' = next_ino k"
    by (auto simp: new_ofile_def with_table_def)
  show "fd_get (tables k p) fd = None" using fd.alloc_free [OF a] k' by simp
  show "fd_get (tables k' q) x = (if q = p \<and> x = fd then Some (length (ofiles k)) else fd_get (tables k q) x)"
    using fd.alloc_get [OF a] k' by simp
  show "ofiles k' = ofiles k @ [\<lparr>of_ino = ino, of_off = 0, of_flags = flags AND NOT (O_CREAT OR O_TRUNC)\<rparr>]"
    "content k' = content k" "dir k' = dir k" "next_ino k' = next_ino k" by (rule rest)+
qed
















section \<open>Flags\<close>

lemma F_GETFL_other:
  assumes "F_SETFL p fd v k = Some k'" "store_ok k"
  shows "F_GETFL q x k' = (if fd_get (tables k q) x = fd_get (tables k p) fd
    then map_option (\<lambda>old. v AND SETFL_MASK OR old AND NOT SETFL_MASK) (F_GETFL q x k) else F_GETFL q x k)"
  using assms by (auto simp: F_SETFL_def F_GETFL_def ofile_of_def load_def store_ok_index nth_list_update split: option.splits)

lemma setfl_or: "(v OR f) AND m OR v AND NOT m = v OR f AND m" for v :: u32
  by (rule bit_word_eqI) (auto simp: bit_simps)

lemma setfl_and: "(v AND NOT f) AND m OR v AND NOT m = v AND NOT (f AND m)" for v :: u32
  by (rule bit_word_eqI) (auto simp: bit_simps)

lemma F_SETFL_open: "fd_get (tables k p) fd = Some j \<Longrightarrow> \<exists>k'. F_SETFL p fd v k = Some k'"
  by (simp add: F_SETFL_def)

lemma F_SETFL_tables: "F_SETFL p fd v k = Some k' \<Longrightarrow> tables k' = tables k \<and> content k' = content k \<and> cloexec k' = cloexec k"
  by (auto simp: F_SETFL_def split: option.splits)

lemma F_GETFL_open: "store_ok k \<Longrightarrow> F_GETFL p fd k = None \<longleftrightarrow> fd_get (tables k p) fd = None"
  by (auto simp: F_GETFL_def ofile_of_def load_def store_ok_index split: option.splits)

lemma F_GETFL_shared: "fd_get (tables k q) x = fd_get (tables k p) fd \<Longrightarrow> F_GETFL q x k = F_GETFL p fd k"
  by (simp add: F_GETFL_def ofile_of_def)

text \<open>Both functions rewrite the flags every descriptor of the open file shows.\<close>

lemma set_fl_effect:
  assumes "store_ok k" "set_fl p fd flags k = Ret k'"
  shows "F_GETFL q x k' = (if fd_get (tables k q) x = fd_get (tables k p) fd
    then map_option (\<lambda>v. v OR flags AND SETFL_MASK) (F_GETFL q x k) else F_GETFL q x k)"
proof -
  from assms(2) obtain v where v: "F_GETFL p fd k = Some v" "F_SETFL p fd (v OR flags) k = Some k'"
    by (auto simp: set_fl_def split: option.splits)
  then show ?thesis using F_GETFL_shared [of k q x p fd] by (simp add: F_GETFL_other [OF v(2) assms(1)] setfl_or)
qed

lemma clr_fl_effect:
  assumes "store_ok k" "clr_fl p fd flags k = Ret k'"
  shows "F_GETFL q x k' = (if fd_get (tables k q) x = fd_get (tables k p) fd
    then map_option (\<lambda>v. v AND NOT (flags AND SETFL_MASK)) (F_GETFL q x k) else F_GETFL q x k)"
proof -
  from assms(2) obtain v where v: "F_GETFL p fd k = Some v" "F_SETFL p fd (v AND NOT flags) k = Some k'"
    by (auto simp: clr_fl_def split: option.splits)
  then show ?thesis using F_GETFL_shared [of k q x p fd] by (simp add: F_GETFL_other [OF v(2) assms(1)] setfl_and)
qed

lemma fl_result:
  assumes "store_ok k"
  shows "fd_get (tables k p) fd = None \<Longrightarrow> set_fl p fd flags k = Exits 1 \<and> clr_fl p fd flags k = Exits 1"
    and "fd_get (tables k p) fd = Some j \<Longrightarrow> (\<exists>k'. set_fl p fd flags k = Ret k') \<and> (\<exists>k'. clr_fl p fd flags k = Ret k')"
proof -
  show "set_fl p fd flags k = Exits 1 \<and> clr_fl p fd flags k = Exits 1" if "fd_get (tables k p) fd = None"
    using F_GETFL_open [OF assms, of p fd] that by (auto simp: set_fl_def clr_fl_def split: option.splits)
  show "(\<exists>k'. set_fl p fd flags k = Ret k') \<and> (\<exists>k'. clr_fl p fd flags k = Ret k')" if "fd_get (tables k p) fd = Some j"
    using F_GETFL_open [OF assms, of p fd] F_SETFL_open [OF that] that
    by (auto simp: set_fl_def clr_fl_def F_SETFL_def split: option.splits)
qed

section \<open>Offsets\<close>

lemma set_off_simps [simp]:
  "tables (set_off j off k) = tables k" "content (set_off j off k) = content k" "dir (set_off j off k) = dir k"
  "length (ofiles (set_off j off k)) = length (ofiles k)"
  by (simp_all add: set_off_def)

lemma set_off_nth [simp]:
  "i < length (ofiles k) \<Longrightarrow> ofiles (set_off j off k) ! i = (if i = j then (ofiles k ! i)\<lparr>of_off := off\<rparr> else ofiles k ! i)"
  by (auto simp: set_off_def nth_list_update)

lemma take_twice: "take n xs @ take m (drop (length (take n xs)) xs) = take (n + m) xs"
  by (cases "n \<le> length xs") (simp_all add: take_add)

text \<open>Two reads: through one open file they continue, through two they start over.\<close>

lemma two_reads:
  assumes "store_ok k" "sys_read p a n k = (k1, Some d)" "sys_read q b m k1 = (k2, Some e)"
  shows "if fd_get (tables k p) a = fd_get (tables k q) b then snd (sys_read p a (n + m) k) = Some (d @ e)
    else snd (sys_read q b m k) = Some e"
proof -
  from assms(2) obtain i where i: "fd_get (tables k p) a = Some i" "can_read (of_flags (ofiles k ! i))"
    and d: "d = take n (drop (of_off (ofiles k ! i)) (content k (of_ino (ofiles k ! i))))"
    and k1: "k1 = set_off i (of_off (ofiles k ! i) + length d) k"
    by (auto simp: sys_read_def Let_def split: option.splits if_splits)
  from assms(3) obtain j where j: "fd_get (tables k q) b = Some j" "can_read (of_flags (ofiles k1 ! j))"
    and e: "e = take m (drop (of_off (ofiles k1 ! j)) (content k (of_ino (ofiles k1 ! j))))"
    by (auto simp: sys_read_def k1 Let_def split: option.splits if_splits)
  have l: "i < length (ofiles k)" "j < length (ofiles k)" using store_ok_index assms(1) i(1) j(1) by auto
  show ?thesis
  proof (cases "i = j")
    case True
    define xs where "xs = drop (of_off (ofiles k ! i)) (content k (of_ino (ofiles k ! i)))"
    have "e = take m (drop (length d) xs)" "d = take n xs"
      using e l True d by (simp_all add: k1 xs_def add.commute)
    then have "d @ e = take (n + m) xs" by (metis take_twice)
    with True i j show ?thesis by (simp add: sys_read_def Let_def xs_def)
  next
    case False
    then have "ofiles k1 ! j = ofiles k ! j" using l by (simp add: k1)
    with False i j e show ?thesis by (simp add: sys_read_def Let_def)
  qed
qed

section \<open>Evaluating the programs\<close>

lemma open_existing: "dir k name = Some i \<Longrightarrow> \<not> has flags O_TRUNC \<Longrightarrow> sys_open p name flags k = new_ofile p i flags k"
  by (simp add: sys_open_def)

lemma open_missing: "dir k name = None \<Longrightarrow> \<not> has flags O_CREAT \<Longrightarrow> sys_open p name flags k = (k, -1)"
  by (simp add: sys_open_def)

lemma read_char_at:
  assumes "fd_get (tables k p) fd = Some j" "can_read (of_flags (ofiles k ! j))"
    "content k (of_ino (ofiles k ! j)) = xs" "of_off (ofiles k ! j) = off"
  shows "read_char p fd c k =
    (if off < length xs then (set_off j (off + 1) k, Some (xs ! off)) else (set_off j off k, c))"
proof (cases "off < length xs")
  case True
  then have "take 1 (drop off xs) = [xs ! off]" by (simp add: take_Suc_conv_app_nth hd_drop_conv_nth take_Suc)
  with True assms show ?thesis by (simp add: read_char_def sys_read_def Let_def)
qed (use assms in \<open>simp add: read_char_def sys_read_def Let_def\<close>)

lemma read_char_bad: "fd_get (tables k p) fd = None \<Longrightarrow> read_char p fd c k = (k, c)"
  by (simp add: read_char_def sys_read_def)

lemma write_at:
  assumes "fd_get (tables k p) fd = Some j" "can_write (of_flags (ofiles k ! j))"
  shows "sys_write p fd data k =
    (let i = of_ino (ofiles k ! j); c = content k i;
         off = (if has (of_flags (ofiles k ! j)) O_APPEND then length c else of_off (ofiles k ! j)) in
     (set_off j (off + length data) (k\<lparr>content := (content k)(i := put_at off data c)\<rparr>), int (length data)))"
  using assms by (simp add: sys_write_def Let_def)

text \<open>A file opened for reading, and then once more.\<close>

abbreviation fresh_read_only :: "nat \<Rightarrow> ofile" where
  "fresh_read_only i \<equiv> \<lparr>of_ino = i, of_off = 0, of_flags = 0\<rparr>"

lemma open_read_only:
  assumes "dir k name = Some i"
  obtains k' fd where "sys_open p name O_RDONLY k = (k', fd)" "fd_get (tables k p) fd = None"
    "\<And>q x. fd_get (tables k' q) x = (if q = p \<and> x = fd then Some (length (ofiles k)) else fd_get (tables k q) x)"
    "ofiles k' = ofiles k @ [fresh_read_only i]" "content k' = content k" "dir k' = dir k"
proof -
  obtain k' fd where n: "new_ofile p i O_RDONLY k = (k', fd)" by fastforce
  moreover have "sys_open p name O_RDONLY k = (k', fd)"
    using open_existing [OF assms, of O_RDONLY p] n by (simp add: has_def)
  ultimately show thesis using that open_frame [OF n] by simp
qed

lemma two_opens:
  assumes "dir k name = Some i"
  obtains k1 fd1 k2 fd2 where "sys_open p name O_RDONLY k = (k1, fd1)" "sys_open p name O_RDONLY k1 = (k2, fd2)"
    "fd1 \<noteq> fd2" "dir k2 = dir k" "content k2 = content k"
    "ofiles k2 = ofiles k @ [fresh_read_only i, fresh_read_only i]"
    "fd_get (tables k2 p) fd1 = Some (length (ofiles k))" "fd_get (tables k2 p) fd2 = Some (length (ofiles k) + 1)"
proof -
  obtain k1 fd1 where 1: "sys_open p name O_RDONLY k = (k1, fd1)"
    "\<And>q x. fd_get (tables k1 q) x = (if q = p \<and> x = fd1 then Some (length (ofiles k)) else fd_get (tables k q) x)"
    "ofiles k1 = ofiles k @ [fresh_read_only i]" "content k1 = content k" "dir k1 = dir k"
    using open_read_only [OF assms, of p] by metis
  have "dir k1 name = Some i" using 1(5) assms by simp
  then obtain k2 fd2 where 2: "sys_open p name O_RDONLY k1 = (k2, fd2)" "fd_get (tables k1 p) fd2 = None"
    "\<And>q x. fd_get (tables k2 q) x = (if q = p \<and> x = fd2 then Some (length (ofiles k1)) else fd_get (tables k1 q) x)"
    "ofiles k2 = ofiles k1 @ [fresh_read_only i]" "content k2 = content k1" "dir k2 = dir k1"
    using open_read_only [of k1 name i p] by metis
  have "fd1 \<noteq> fd2" using 1(2) [of p fd1] 2(2) by auto
  have g: "fd_get (tables k2 p) fd1 = Some (length (ofiles k))" "fd_get (tables k2 p) fd2 = Some (length (ofiles k) + 1)"
    using \<open>fd1 \<noteq> fd2\<close> unfolding 2(3) 1(2) 1(3) by simp_all
  show thesis
    by (rule that [OF 1(1) 2(1) \<open>fd1 \<noteq> fd2\<close> _ _ _ g]) (simp_all add: 1(3-5) 2(4-6))
qed

lemma fdTest_output:
  assumes "dir k ''file.txt'' = Some i" "content k i = x # y # rest"
  shows "fdTest k = Ret (''c1 = '' @ [x] @ '', c2 = '' @ [x] @ '', c3 = '' @ [y] @ [CHR 0x0A])"
proof -
  let ?L = "length (ofiles k)"
  obtain k1 fd1 k2 fd2 where 2: "sys_open 0 ''file.txt'' O_RDONLY k = (k1, fd1)"
    "sys_open 0 ''file.txt'' O_RDONLY k1 = (k2, fd2)" "fd1 \<noteq> fd2" "dir k2 = dir k" "content k2 = content k"
    "ofiles k2 = ofiles k @ [fresh_read_only i, fresh_read_only i]"
    "fd_get (tables k2 0) fd1 = Some ?L" "fd_get (tables k2 0) fd2 = Some (?L + 1)"
    using two_opens [OF assms(1), of 0] by metis
  have "dir k2 ''file.txt'' = Some i" using 2(4) assms(1) by simp
  then obtain k3 fd3 where 3: "sys_open 0 ''file.txt'' O_RDONLY k2 = (k3, fd3)" "fd_get (tables k2 0) fd3 = None"
    "\<And>q x. fd_get (tables k3 q) x = (if q = 0 \<and> x = fd3 then Some (length (ofiles k2)) else fd_get (tables k2 q) x)"
    "ofiles k3 = ofiles k2 @ [fresh_read_only i]" "content k3 = content k2"
    using open_read_only [of k2 "''file.txt''" i 0] by metis
  have ne: "fd1 \<noteq> fd3" "fd2 \<noteq> fd3" "0 \<le> fd3"
    using 2(7,8) 3(2) fd_get_some [of "tables k3 0" fd3] 3(3) [of 0 fd3] by auto
  have g3: "fd_get (tables k3 0) fd1 = Some ?L" "fd_get (tables k3 0) fd2 = Some (?L + 1)"
    using 2(7,8) 3(3) ne by simp_all
  obtain k4 r where k4: "sys_dup2 0 fd2 fd3 k3 = (k4, r)" by fastforce
  then have g4: "fd_get (tables k4 0) fd1 = Some ?L" "fd_get (tables k4 0) fd2 = Some (?L + 1)"
      "fd_get (tables k4 0) fd3 = Some (?L + 1)"
    and o4: "ofiles k4 = ofiles k @ [fresh_read_only i, fresh_read_only i, fresh_read_only i]" "content k4 i = x # y # rest"
    using g3 ne 2(3,5,6) 3(4,5) assms(2) by (auto simp: sys_dup2_def with_table_def fd_dup2_def fd_get_set)
  have rd: "can_read 0" by (simp add: can_read_def)
  have n: "ofiles k4 ! ?L = fresh_read_only i" "ofiles k4 ! (?L + 1) = fresh_read_only i" "length (ofiles k4) = ?L + 3"
    by (simp_all add: o4 nth_append)
  have 5: "read_char 0 fd1 None k4 = (set_off ?L 1 k4, Some x)"
    using read_char_at [OF g4(1), of "x # y # rest" 0] n o4 rd by simp
  have 6: "read_char 0 fd2 None (set_off ?L 1 k4) = (set_off (?L + 1) 1 (set_off ?L 1 k4), Some x)"
    using read_char_at [of "set_off ?L 1 k4" 0 fd2 "?L + 1" "x # y # rest" 0] g4 n o4 rd by simp
  obtain k7 where 7: "read_char 0 fd3 None (set_off (?L + 1) 1 (set_off ?L 1 k4)) = (k7, Some y)"
    using read_char_at [of "set_off (?L + 1) 1 (set_off ?L 1 k4)" 0 fd3 "?L + 1" "x # y # rest" 1] g4 n o4 rd by simp
  show ?thesis using 2(1,2) 3(1) k4 5 6 7 by (simp add: fdTest_def split: prod.split)
qed

lemma oneFileTwoFDs_output:
  assumes "dir k ''foobar.txt'' = Some i" "content k i = x # rest"
  shows "oneFileTwoFDs k = Ret [x, CHR 0x0A, x, CHR 0x0A]"
proof -
  let ?L = "length (ofiles k)"
  obtain k1 fd1 k2 fd2 where 2: "sys_open 0 ''foobar.txt'' O_RDONLY k = (k1, fd1)"
    "sys_open 0 ''foobar.txt'' O_RDONLY k1 = (k2, fd2)" "content k2 = content k"
    "ofiles k2 = ofiles k @ [fresh_read_only i, fresh_read_only i]"
    "fd_get (tables k2 0) fd1 = Some ?L" "fd_get (tables k2 0) fd2 = Some (?L + 1)"
    using two_opens [OF assms(1), of 0] by metis
  have rd: "can_read 0" by (simp add: can_read_def)
  have n: "ofiles k2 ! ?L = fresh_read_only i" "ofiles k2 ! (?L + 1) = fresh_read_only i" "length (ofiles k2) = ?L + 2"
    by (simp_all add: 2(4) nth_append)
  have 5: "read_char 0 fd1 None k2 = (set_off ?L 1 k2, Some x)"
    using read_char_at [OF 2(5), of "x # rest" 0] n 2(3) assms(2) rd by simp
  obtain k3 where 6: "read_char 0 fd2 (Some x) (set_off ?L 1 k2) = (k3, Some x)"
    using read_char_at [of "set_off ?L 1 k2" 0 fd2 "?L + 1" "x # rest" 0] 2 n assms(2) rd by simp
  show ?thesis using 2(1,2) 5 6 by (simp add: oneFileTwoFDs_def)
qed

text \<open>The child's reads move the offsets the parent goes on from.\<close>

lemma fork_output:
  assumes "dir k ''foobar.txt'' = Some i" "content k i = x # y # rest"
  shows "oneFileTwoFDsAndFork True k =
    ''Child has:k'' @ [CHR 0x0A] @ ''Child read fd1:'' @ [x] @ [CHR 0x0A] @ ''Child read fd2:'' @ [x] @ [CHR 0x0A] @
    ''Parent has:k'' @ [CHR 0x0A] @ ''Parent read fd1:'' @ [y] @ [CHR 0x0A] @ ''Parent read fd2:'' @ [y] @ [CHR 0x0A]"
proof -
  let ?L = "length (ofiles k)"
  obtain k1 fd1 k2 fd2 where 2: "sys_open 0 ''foobar.txt'' O_RDONLY k = (k1, fd1)"
    "sys_open 0 ''foobar.txt'' O_RDONLY k1 = (k2, fd2)" "content k2 = content k"
    "ofiles k2 = ofiles k @ [fresh_read_only i, fresh_read_only i]"
    "fd_get (tables k2 0) fd1 = Some ?L" "fd_get (tables k2 0) fd2 = Some (?L + 1)"
    using two_opens [OF assms(1), of 0] by metis
  have rd: "can_read 0" by (simp add: can_read_def)
  define f where "f = sys_fork 0 (Suc 0) k2"
  have g: "fd_get (tables f p) fd1 = Some ?L" "fd_get (tables f p) fd2 = Some (Suc ?L)" if "p < 2" for p
    using that 2(5,6) by (auto simp: f_def sys_fork_def numeral_2_eq_2 less_Suc_eq)
  have n: "ofiles f ! ?L = fresh_read_only i" "ofiles f ! Suc ?L = fresh_read_only i" "length (ofiles f) = ?L + 2"
    "content f i = x # y # rest"
    using 2(3,4) assms(2) by (simp_all add: f_def sys_fork_def nth_append)
  have r1: "read_char 1 fd1 (Some (CHR ''k'')) f = (set_off ?L 1 f, Some x)"
    using read_char_at [of f 1 fd1 ?L "x # y # rest" 0] g [of 1] n rd by simp
  define f1 where "f1 = set_off ?L 1 f"
  have r2: "read_char 1 fd2 (Some x) f1 = (set_off (Suc ?L) 1 f1, Some x)"
    using read_char_at [of f1 1 fd2 "Suc ?L" "x # y # rest" 0] g [of 1] n rd by (simp add: f1_def)
  define f2 where "f2 = set_off (Suc ?L) 1 f1"
  have r3: "read_char 0 fd1 (Some (CHR ''k'')) f2 = (set_off ?L 2 f2, Some y)"
    using read_char_at [of f2 0 fd1 ?L "x # y # rest" 1] g [of 0] n rd
    by (simp add: f2_def f1_def numeral_2_eq_2)
  define f3 where "f3 = set_off ?L 2 f2"
  have r4: "read_char 0 fd2 (Some y) f3 = (set_off (Suc ?L) 2 f3, Some y)"
    using read_char_at [of f3 0 fd2 "Suc ?L" "x # y # rest" 1] g [of 0] n rd
    by (simp add: f3_def f2_def f1_def numeral_2_eq_2)
  show ?thesis
    using 2(1,2) r1 [folded f1_def] r2 [folded f2_def] r3 [folded f3_def] r4
    by (simp add: oneFileTwoFDsAndFork_def reads_both_def f_def [symmetric])
qed

text \<open>Three writers of one file, two through one open file and one appending.\<close>

lemma put_at_end: "put_at (length c) data c = c @ data"
  by (simp add: put_at_def)

lemma open_for_writing:
  assumes "store_ok k"
  obtains k' fd i where "sys_open p name (O_CREAT OR O_TRUNC OR O_RDWR) k = (k', fd)"
    "fd_get (tables k' p) fd = Some (length (ofiles k))" "content k' i = []" "dir k' name = Some i"
    "ofiles k' = ofiles k @ [\<lparr>of_ino = i, of_off = 0, of_flags = O_RDWR\<rparr>]"
proof -
  define i where "i = (case dir k name of Some i \<Rightarrow> i | None \<Rightarrow> next_ino k)"
  obtain u where u: "sys_open p name (O_CREAT OR O_TRUNC OR O_RDWR) k = new_ofile p i (O_CREAT OR O_TRUNC OR O_RDWR) u"
    "content u i = []" "dir u name = Some i" "ofiles u = ofiles k"
  proof (cases "dir k name")
    case None
    then show thesis using that [of "k\<lparr>dir := (dir k)(name \<mapsto> next_ino k),
        content := (content k)(next_ino k := []), next_ino := next_ino k + 1\<rparr>"]
      by (simp add: sys_open_def has_def i_def)
  next
    case (Some j)
    then show thesis using that [of "k\<lparr>content := (content k)(i := [])\<rparr>"]
      by (simp add: sys_open_def has_def i_def)
  qed
  obtain k' fd where n: "new_ofile p i (O_CREAT OR O_TRUNC OR O_RDWR) u = (k', fd)" by fastforce
  show thesis
    using open_frame [OF n] u n by (intro that [of k' fd i]) simp_all
qed

text \<open>The file, with one open file to write at an offset and one to append.\<close>

definition writers :: "store \<Rightarrow> ofile list \<Rightarrow> nat \<Rightarrow> nat \<Rightarrow> nat \<Rightarrow> char list \<Rightarrow> bool" where
  "writers k fs i a b s \<longleftrightarrow> content k i = s \<and>
     ofiles k = fs @ [\<lparr>of_ino = i, of_off = a, of_flags = O_RDWR\<rparr>, \<lparr>of_ino = i, of_off = b, of_flags = 0x401\<rparr>]"

lemma writer_flags: "can_write 2" "\<not> has 2 0x400" "can_write 0x401" "has 0x401 0x400"
  by (simp_all add: can_write_def has_def)

lemma writers_put:
  assumes "writers k fs i a b s" "fd_get (tables k p) fd = Some (length fs)"
  obtains k' where "sys_write p fd data k = (k', int (length data))"
    "writers k' fs i (a + length data) b (put_at a data s)" "tables k' = tables k" "dir k' = dir k"
  using assms writer_flags by (auto simp: writers_def write_at set_off_def Let_def list_update_append intro!: that)

lemma writers_append:
  assumes "writers k fs i a b s" "fd_get (tables k p) fd = Some (Suc (length fs))"
  obtains k' where "sys_write p fd data k = (k', int (length data))"
    "writers k' fs i a (length s + length data) (s @ data)" "tables k' = tables k" "dir k' = dir k"
  using assms writer_flags
  by (auto simp: writers_def write_at set_off_def Let_def list_update_append nth_append put_at_end intro!: that)

lemma writers_seek:
  assumes "writers k fs i a b s" "fd_get (tables k p) fd = Some (length fs)"
  obtains k' where "sys_lseek p fd off k = (k', int off)" "writers k' fs i off b s" "tables k' = tables k" "dir k' = dir k"
  using assms by (auto simp: writers_def sys_lseek_def set_off_def list_update_append intro!: that)

lemma writers_dup:
  assumes "writers k fs i a b s" "fd_get (tables k p) fd = Some j"
  obtains k' fd' where "sys_dup p fd k = (k', fd')" "writers k' fs i a b s" "dir k' = dir k"
    "fd_get (tables k p) fd' = None"
    "\<forall>x. fd_get (tables k' p) x = (if x = fd' then Some j else fd_get (tables k p) x)"
proof -
  obtain t fd' where d: "fd_alloc j (tables k p) = (t, fd')" by fastforce
  with assms(2) have "sys_dup p fd k = with_table p (t, fd') k" by (simp add: sys_dup_def fd_dup_def)
  then show thesis
    using assms(1) fd.alloc_free [OF d] fd.alloc_get [OF d]
    by (intro that [of "fst (with_table p (t, fd') k)" fd']) (simp_all add: with_table_def writers_def)
qed

lemma fdTest2_start:
  assumes "store_ok k"
  obtains k1 k2 k3 fd1 fd2 i where "sys_open 0 fname (O_CREAT OR O_TRUNC OR O_RDWR) k = (k1, fd1)"
    "sys_write 0 fd1 ''pqrs'' k1 = (k2, 4)" "sys_open 0 fname (O_APPEND OR O_WRONLY) k2 = (k3, fd2)"
    "writers k3 (ofiles k) i 4 0 ''pqrs''" "dir k3 fname = Some i"
    "fd_get (tables k3 0) fd1 = Some (length (ofiles k))" "fd_get (tables k3 0) fd2 = Some (Suc (length (ofiles k)))"
proof -
  let ?L = "length (ofiles k)"
  obtain k1 fd1 i where 1: "sys_open 0 fname (O_CREAT OR O_TRUNC OR O_RDWR) k = (k1, fd1)"
    "fd_get (tables k1 0) fd1 = Some ?L" "content k1 i = []" "dir k1 fname = Some i"
    "ofiles k1 = ofiles k @ [\<lparr>of_ino = i, of_off = 0, of_flags = O_RDWR\<rparr>]"
    using open_for_writing [OF assms, of 0 fname] by metis
  obtain k2 r2 where 2: "sys_write 0 fd1 ''pqrs'' k1 = (k2, r2)" by fastforce
  have c2: "content k2 i = ''pqrs''" "tables k2 = tables k1" "dir k2 = dir k1" "r2 = 4"
      "ofiles k2 = ofiles k @ [\<lparr>of_ino = i, of_off = 4, of_flags = O_RDWR\<rparr>]"
    using 1 2 writer_flags by (auto simp: write_at set_off_def put_at_def)
  have "dir k2 fname = Some i" "\<not> has (O_APPEND OR O_WRONLY) O_TRUNC" using c2(3) 1(4) by (simp_all add: has_def)
  note open2 = open_existing [OF this, of 0]
  obtain k3 fd2 where 3: "new_ofile 0 i (O_APPEND OR O_WRONLY) k2 = (k3, fd2)" by fastforce
  note f3 = open_frame [OF 3]
  have ne: "fd1 \<noteq> fd2" using f3(1) 1(2) c2(2) by auto
  have g3: "fd_get (tables k3 0) fd1 = Some ?L" "fd_get (tables k3 0) fd2 = Some (Suc ?L)"
    using f3(2) ne 1(2) c2 by simp_all
  have "writers k3 (ofiles k) i 4 0 ''pqrs''" "dir k3 fname = Some i"
    using f3(3-5) c2 1(4) by (simp_all add: writers_def)
  then show thesis using 1(1) 2 c2(4) open2 3 g3 by (intro that) simp_all
qed

lemma fdTest2_content:
  assumes "store_ok k"
  shows "\<exists>i. dir (fdTest2 fname k) fname = Some i \<and> content (fdTest2 fname k) i = ''abrswxyznef''"
proof -
  let ?fs = "ofiles k"
  obtain k1 k2 k3 fd1 fd2 i where 3: "sys_open 0 fname (O_CREAT OR O_TRUNC OR O_RDWR) k = (k1, fd1)"
    "sys_write 0 fd1 ''pqrs'' k1 = (k2, 4)" "sys_open 0 fname (O_APPEND OR O_WRONLY) k2 = (k3, fd2)"
    and w3: "writers k3 ?fs i 4 0 ''pqrs''" "dir k3 fname = Some i"
    and g3: "fd_get (tables k3 0) fd1 = Some (length ?fs)" "fd_get (tables k3 0) fd2 = Some (Suc (length ?fs))"
    using fdTest2_start [OF assms] by metis
  obtain k4 where 4: "sys_write 0 fd2 ''jklmn'' k3 = (k4, int (length ''jklmn''))"
    and w4: "writers k4 ?fs i 4 (length ''pqrs'' + length ''jklmn'') (''pqrs'' @ ''jklmn'')" "tables k4 = tables k3" "dir k4 = dir k3"
    by (rule writers_append [OF w3(1) g3(2)])
  have g4: "fd_get (tables k4 0) fd1 = Some (length ?fs)" using g3(1) w4(2) by simp
  obtain k5 fd3 where 5: "sys_dup 0 fd1 k4 = (k5, fd3)"
    and w5: "writers k5 ?fs i 4 (length ''pqrs'' + length ''jklmn'') (''pqrs'' @ ''jklmn'')" "dir k5 = dir k4"
    and new: "fd_get (tables k4 0) fd3 = None"
    and t5: "\<forall>x. fd_get (tables k5 0) x = (if x = fd3 then Some (length ?fs) else fd_get (tables k4 0) x)"
    by (rule writers_dup [OF w4(1) g4])
  have g5: "fd_get (tables k5 0) fd1 = Some (length ?fs)" "fd_get (tables k5 0) fd2 = Some (Suc (length ?fs))"
      "fd_get (tables k5 0) fd3 = Some (length ?fs)"
    using g3 w4(2) new t5 by auto
  obtain k6 where 6: "sys_write 0 fd3 ''wxyz'' k5 = (k6, int (length ''wxyz''))"
    and w6: "writers k6 ?fs i (4 + length ''wxyz'') (length ''pqrs'' + length ''jklmn'') (put_at 4 ''wxyz'' (''pqrs'' @ ''jklmn''))"
      "tables k6 = tables k5" "dir k6 = dir k5"
    by (rule writers_put [OF w5(1) g5(3)])
  have s6: "put_at 4 ''wxyz'' (''pqrs'' @ ''jklmn'') = ''pqrswxyzn''" by (simp add: put_at_def)
  have g6: "fd_get (tables k6 0) fd2 = Some (Suc (length ?fs))" using g5(2) w6(2) by simp
  obtain k7 where 7: "sys_write 0 fd2 ''ef'' k6 = (k7, int (length ''ef''))"
    and w7: "writers k7 ?fs i (4 + length ''wxyz'') (length ''pqrswxyzn'' + length ''ef'') (''pqrswxyzn'' @ ''ef'')"
      "tables k7 = tables k6" "dir k7 = dir k6"
    by (rule writers_append [OF w6(1) [unfolded s6] g6])
  have g7: "fd_get (tables k7 0) fd1 = Some (length ?fs)" using g5(1) w6(2) w7(2) by simp
  obtain k8 where 8: "sys_lseek 0 fd1 0 k7 = (k8, int 0)"
    and w8: "writers k8 ?fs i 0 (length ''pqrswxyzn'' + length ''ef'') (''pqrswxyzn'' @ ''ef'')"
      "tables k8 = tables k7" "dir k8 = dir k7"
    by (rule writers_seek [OF w7(1) g7])
  have g8: "fd_get (tables k8 0) fd3 = Some (length ?fs)" using g5(3) w6(2) w7(2) w8(2) by simp
  obtain k9 where 9: "sys_write 0 fd3 ''ab'' k8 = (k9, int (length ''ab''))"
    and w9: "writers k9 ?fs i (0 + length ''ab'') (length ''pqrswxyzn'' + length ''ef'') (put_at 0 ''ab'' (''pqrswxyzn'' @ ''ef''))"
      "dir k9 = dir k8"
    by (rule writers_put [OF w8(1) g8])
  have "put_at 0 ''ab'' (''pqrswxyzn'' @ ''ef'') = ''abrswxyznef''" by (simp add: put_at_def)
  with w9(1) have "content k9 i = ''abrswxyznef''" by (simp add: writers_def)
  moreover have "dir k9 fname = Some i" using w9(2) w8(3) w7(3) w6(3) w5(2) w4(3) w3(2) by simp
  moreover have "fdTest2 fname k = k9" using 3 4 5 6 7 8 9 by (simp add: fdTest2_def)
  ultimately show ?thesis by metis
qed

section \<open>Properties\<close>



text \<open>\<open>set_fl\<close> and \<open>clr_fl\<close> end the process for a closed descriptor; otherwise they
  turn exactly the given flags on or off, as far as \<open>F_SETFL\<close> can change them, and every
  descriptor of any process that refers to the same open file sees it, and no other one.
  \<open>set_cloexec\<close> marks one descriptor only, and its duplicates stay unmarked.\<close>

theorem flag_functions:
  assumes "store_ok k"
  shows "(fd_get (tables k p) fd = None \<longrightarrow>
      set_fl p fd flags k = Exits 1 \<and> clr_fl p fd flags k = Exits 1 \<and> snd (set_cloexec p fd k) = -1) \<and>
    (fd_get (tables k p) fd \<noteq> None \<longrightarrow>
      (\<exists>k' k''. set_fl p fd flags k = Ret k' \<and> clr_fl p fd flags k = Ret k'' \<and>
        (\<forall>q x. if fd_get (tables k q) x = fd_get (tables k p) fd
          then F_GETFL q x k' = map_option (\<lambda>v. v OR flags AND SETFL_MASK) (F_GETFL q x k) \<and>
               F_GETFL q x k'' = map_option (\<lambda>v. v AND NOT (flags AND SETFL_MASK)) (F_GETFL q x k)
          else F_GETFL q x k' = F_GETFL q x k \<and> F_GETFL q x k'' = F_GETFL q x k)) \<and>
      (let (k', r) = set_cloexec p fd k; (k'', fd') = sys_dup p fd k' in
        r = 0 \<and> cloexec k'' p fd \<and> \<not> cloexec k'' p fd' \<and>
        (\<forall>q x. (q, x) \<notin> {(p, fd), (p, fd')} \<longrightarrow> cloexec k'' q x = cloexec k q x)))"
proof (intro conjI impI)
  assume none: "fd_get (tables k p) fd = None"
  then show "set_fl p fd flags k = Exits 1" "clr_fl p fd flags k = Exits 1" using fl_result(1) [OF assms] by auto
  show "snd (set_cloexec p fd k) = -1" using none by (simp add: set_cloexec_def)
next
  assume "fd_get (tables k p) fd \<noteq> None"
  then obtain j where j: "fd_get (tables k p) fd = Some j" by auto
  obtain k' k'' where r: "set_fl p fd flags k = Ret k'" "clr_fl p fd flags k = Ret k''"
    using fl_result(2) [OF assms j] by blast
  show "\<exists>k' k''. set_fl p fd flags k = Ret k' \<and> clr_fl p fd flags k = Ret k'' \<and>
        (\<forall>q x. if fd_get (tables k q) x = fd_get (tables k p) fd
          then F_GETFL q x k' = map_option (\<lambda>v. v OR flags AND SETFL_MASK) (F_GETFL q x k) \<and>
               F_GETFL q x k'' = map_option (\<lambda>v. v AND NOT (flags AND SETFL_MASK)) (F_GETFL q x k)
          else F_GETFL q x k' = F_GETFL q x k \<and> F_GETFL q x k'' = F_GETFL q x k)"
    using r set_fl_effect [OF assms r(1)] clr_fl_effect [OF assms r(2)] by (intro exI [of _ k'] exI [of _ k'']) simp
  obtain t fd' where d: "fd_alloc j (tables k p) = (t, fd')" by fastforce
  have "fd' \<noteq> fd" using fd.alloc_free [OF d] j by auto
  then show "let (k', r) = set_cloexec p fd k; (k'', fd') = sys_dup p fd k' in
        r = 0 \<and> cloexec k'' p fd \<and> \<not> cloexec k'' p fd' \<and>
        (\<forall>q x. (q, x) \<notin> {(p, fd), (p, fd')} \<longrightarrow> cloexec k'' q x = cloexec k q x)"
    using j d by (auto simp: set_cloexec_def sys_dup_def fd_dup_def with_table_def)
qed

theorem flag_functions_witness:
  "\<exists>k k'. fd_get (tables k 0) 0 = Some 0 \<and> set_fl 0 0 O_APPEND k = Ret k' \<and> F_GETFL 1 5 k' = Some 0x402 \<and>
     F_GETFL 1 5 k = Some 2"
proof -
  let ?k = "\<lparr>dir = Map.empty, content = (\<lambda>_. []), next_ino = 1, ofiles = [\<lparr>of_ino = 0, of_off = 0, of_flags = 2\<rparr>],
     tables = (\<lambda>_. [])(0 := [Some 0], 1 := [None, None, None, None, None, Some 0]), cloexec = (\<lambda>_ _. False)\<rparr>"
  have ok: "store_ok ?k" by (auto simp: store_ok_def fd_get_def nth_Cons' split: if_splits)
  have g: "fd_get (tables ?k 0) 0 = Some 0" "fd_get (tables ?k 1) 5 = Some 0" "F_GETFL 1 5 ?k = Some 2"
    by (simp_all add: fd_get_def F_GETFL_def ofile_of_def)
  obtain k' where "set_fl 0 0 O_APPEND ?k = Ret k'"
    "F_GETFL 1 5 k' = map_option (\<lambda>v. v OR O_APPEND AND SETFL_MASK) (F_GETFL 1 5 ?k)"
    using flag_functions [OF ok, of 0 0 O_APPEND] g by (metis (no_types, lifting) option.distinct(1))
  with g show ?thesis by (intro exI [of _ ?k] exI [of _ k']) (simp add: SETFL_MASK_def)
qed

lemma missing_file:
  "dir k ''file.txt'' = None \<Longrightarrow> fdTest k = Undef"
  "dir k ''foobar.txt'' = None \<Longrightarrow> oneFileTwoFDs k = Undef"
  by (simp_all add: fdTest_def oneFileTwoFDs_def open_missing has_def read_char_bad sys_dup2_def)

text \<open>C11. Two reads through descriptors of one open file, made by \<open>dup\<close> or inherited over
  \<open>fork\<close>, return consecutive bytes, and reads through separate \<open>open\<close>s do not affect
  each other. So \<open>fdTest\<close> prints the first byte of its file twice and then the second,
  \<open>oneFileTwoFDs\<close> the first byte twice, the parent of \<open>oneFileTwoFDsAndFork\<close> the
  bytes behind the child's, and \<open>fdTest2\<close> leaves \<open>abrswxyznef\<close>, whatever was in its
  file. Without their file the first two print an indeterminate variable.\<close>

theorem descriptors_share_offsets:
  assumes "store_ok k"
  shows "(\<forall>p a n k1 d q b m k2 e. sys_read p a n k = (k1, Some d) \<and> sys_read q b m k1 = (k2, Some e) \<longrightarrow>
      (if fd_get (tables k p) a = fd_get (tables k q) b then snd (sys_read p a (n + m) k) = Some (d @ e)
       else snd (sys_read q b m k) = Some e)) \<and>
    (\<forall>i x y rest. dir k ''file.txt'' = Some i \<and> content k i = x # y # rest \<longrightarrow>
      fdTest k = Ret (''c1 = '' @ [x] @ '', c2 = '' @ [x] @ '', c3 = '' @ [y] @ [CHR 0x0A])) \<and>
    (\<forall>i x y rest. dir k ''foobar.txt'' = Some i \<and> content k i = x # y # rest \<longrightarrow>
      oneFileTwoFDs k = Ret [x, CHR 0x0A, x, CHR 0x0A] \<and>
      oneFileTwoFDsAndFork True k =
        ''Child has:k'' @ [CHR 0x0A] @ ''Child read fd1:'' @ [x] @ [CHR 0x0A] @ ''Child read fd2:'' @ [x] @ [CHR 0x0A] @
        ''Parent has:k'' @ [CHR 0x0A] @ ''Parent read fd1:'' @ [y] @ [CHR 0x0A] @ ''Parent read fd2:'' @ [y] @ [CHR 0x0A]) \<and>
    (\<exists>i. dir (fdTest2 fname k) fname = Some i \<and> content (fdTest2 fname k) i = ''abrswxyznef'') \<and>
    (dir k ''file.txt'' = None \<longrightarrow> fdTest k = Undef) \<and> (dir k ''foobar.txt'' = None \<longrightarrow> oneFileTwoFDs k = Undef)"
proof (intro conjI allI impI)
  show "if fd_get (tables k p) a = fd_get (tables k q) b then snd (sys_read p a (n + m) k) = Some (d @ e)
      else snd (sys_read q b m k) = Some e"
    if "sys_read p a n k = (k1, Some d) \<and> sys_read q b m k1 = (k2, Some e)" for p a n k1 d q b m k2 e
    using two_reads [OF assms] that by blast
qed (use fdTest_output [of k] oneFileTwoFDs_output [of k] fork_output [of k]
    fdTest2_content [OF assms, of fname] missing_file [of k] in \<open>simp_all only: simp_thms\<close>)

theorem descriptors_share_offsets_witness:
  "\<exists>k i. fdTest k = Ret (''c1 = a, c2 = a, c3 = b'' @ [CHR 0x0A]) \<and> content (fdTest2 ''file.txt'' k) i = ''abrswxyznef''"
proof -
  let ?k = "\<lparr>dir = [''file.txt'' \<mapsto> 0], content = (\<lambda>_. ''abc''), next_ino = 1, ofiles = [],
     tables = (\<lambda>_. []), cloexec = (\<lambda>_ _. False)\<rparr>"
  have ok: "store_ok ?k" by (auto simp: store_ok_def fd_get_def)
  note facts = descriptors_share_offsets [OF ok, of "''file.txt''"]
  from facts obtain i where i: "content (fdTest2 ''file.txt'' ?k) i = ''abrswxyznef''" by blast
  from facts [THEN conjunct2, THEN conjunct1, rule_format, of 0 "CHR ''a''" "CHR ''b''" "''c''"]
  have "fdTest ?k = Ret (''c1 = a, c2 = a, c3 = b'' @ [CHR 0x0A])" by simp
  with i show ?thesis by blast
qed

end
