(* ===== verification/Popen.thy ===== *)
theory Popen imports FdTable
begin

text \<open>
  \<open>lib/popen.c\<close> with \<open>lib/openmax.c\<close>. The state is the static array \<open>childpid\<close> with its
  length, and the descriptors of the calling process; the answers of the system calls are
  parameters. A stream is named by its descriptor.
\<close>

section \<open>State\<close>

text \<open>What a descriptor refers to: the end of a pipe, or something else.\<close>

datatype fobj = Rd nat | Wr nat | Other nat

record pstate =
  openmax :: int
  maxfd :: int
  childpid :: "int list option"
  pfds :: "fobj fdtable"
  next_pipe :: nat
  perrno :: int

text \<open>The answers of the system during one call of \<open>popen\<close>; \<open>sys_errno\<close> is the
  \<open>errno\<close> of the call that fails.\<close>

record panswers =
  sysconf :: int
  sysconf_errno :: int
  calloc_ok :: bool
  pipe_ok :: bool
  fork_pid :: int
  fdopen_ok :: bool
  sys_errno :: int

definition OPEN_MAX_GUESS :: int where "OPEN_MAX_GUESS = 256"

section \<open>open_max\<close>

definition open_max :: "panswers \<Rightarrow> pstate \<Rightarrow> (pstate \<times> int) outcome" where
  "open_max a s = (if openmax s = 0 then
       (let s = s\<lparr>perrno := sysconf_errno a, openmax := sysconf a\<rparr> in
        if openmax s < 0 then
          (if perrno s = 0 then Ret (s\<lparr>openmax := OPEN_MAX_GUESS\<rparr>, OPEN_MAX_GUESS) else Exits 1)
        else Ret (s, openmax s))
     else Ret (s, openmax s))"

section \<open>popen\<close>

definition valid_type :: "string \<Rightarrow> bool" where
  "valid_type t \<longleftrightarrow> t = ''r'' \<or> t = ''w''"

text \<open>\<open>pipe(pfd)\<close>\<close>

definition sys_pipe :: "pstate \<Rightarrow> pstate \<times> int \<times> int" where
  "sys_pipe s = (let (t, r) = fd_alloc (Rd (next_pipe s)) (pfds s); (t, w) = fd_alloc (Wr (next_pipe s)) t in
     (s\<lparr>pfds := t, next_pipe := next_pipe s + 1\<rparr>, r, w))"

definition pclosefd :: "int \<Rightarrow> pstate \<Rightarrow> pstate" where
  "pclosefd fd s = s\<lparr>pfds := fst (fd_close fd (pfds s))\<rparr>"

text \<open>The first part, up to the static array being there.\<close>

definition popen_array :: "panswers \<Rightarrow> pstate \<Rightarrow> (pstate \<times> bool) outcome" where
  "popen_array a s = (case childpid s of Some c \<Rightarrow> Ret (s, True)
     | None \<Rightarrow> and_then (open_max a s) (\<lambda>(s, m). let s = s\<lparr>maxfd := m\<rparr> in
         if calloc_ok a then Ret (s\<lparr>childpid := Some (replicate (nat m) 0)\<rparr>, True)
         else Ret (s\<lparr>perrno := sys_errno a\<rparr>, False)))"

text \<open>What the parent does after \<open>fork\<close>.\<close>

definition popen_parent :: "panswers \<Rightarrow> string \<Rightarrow> int \<Rightarrow> int \<Rightarrow> pstate \<Rightarrow> pstate \<times> int option" where
  "popen_parent a type r w s = (let mine = (if type = ''r'' then r else w); s = pclosefd (if type = ''r'' then w else r) s in
     if \<not> fdopen_ok a then (s\<lparr>perrno := sys_errno a\<rparr>, None)
     else (s\<lparr>childpid := map_option (\<lambda>c. c[nat mine := fork_pid a]) (childpid s)\<rparr>, Some mine))"

definition popen :: "panswers \<Rightarrow> string \<Rightarrow> pstate \<Rightarrow> (pstate \<times> int option) outcome" where
  "popen a type s = (if \<not> valid_type type then Ret (s\<lparr>perrno := EINVAL\<rparr>, None)
     else and_then (popen_array a s) (\<lambda>(s, ok).
       if \<not> ok then Ret (s, None)
       else if \<not> pipe_ok a then Ret (s\<lparr>perrno := sys_errno a\<rparr>, None)
       else (let (s, r, w) = sys_pipe s in
         if maxfd s \<le> r \<or> maxfd s \<le> w then Ret ((pclosefd w (pclosefd r s))\<lparr>perrno := EMFILE\<rparr>, None)
         else if fork_pid a < 0 then Ret (s\<lparr>perrno := sys_errno a\<rparr>, None)
         else Ret (popen_parent a type r w s))))"

text \<open>The descriptors of the child when it calls \<open>execl\<close>.\<close>

definition child_std :: "string \<Rightarrow> int \<Rightarrow> int \<Rightarrow> fobj fdtable \<Rightarrow> fobj fdtable" where
  "child_std type r w t = (let (mine, other, std) = (if type = ''r'' then (w, r, STDOUT_FILENO) else (r, w, STDIN_FILENO));
       t = fst (fd_close other t) in
     if mine \<noteq> std then fst (fd_close mine (fst (fd_dup2 mine std t))) else t)"

fun close_all :: "int list \<Rightarrow> int \<Rightarrow> fobj fdtable \<Rightarrow> fobj fdtable" where
  "close_all [] i t = t"
| "close_all (p # ps) i t = close_all ps (i + 1) (if p > 0 then fst (fd_close i t) else t)"

definition popen_child :: "string \<Rightarrow> int \<Rightarrow> int \<Rightarrow> pstate \<Rightarrow> fobj fdtable" where
  "popen_child type r w s = close_all (the (childpid s)) 0 (child_std type r w (pfds s))"

section \<open>pclose\<close>

text \<open>The successive answers of \<open>waitpid\<close>: a status, or an \<open>errno\<close>.\<close>

fun wait_loop :: "(int + int) list \<Rightarrow> pstate \<Rightarrow> (pstate \<times> int) outcome" where
  "wait_loop [] s = Blocks"
| "wait_loop (Inr stat # ws) s = Ret (s, stat)"
| "wait_loop (Inl e # ws) s = (if e \<noteq> EINTR then Ret (s\<lparr>perrno := e\<rparr>, -1) else wait_loop ws s)"

definition pclose :: "bool \<Rightarrow> (int + int) list \<Rightarrow> int \<Rightarrow> pstate \<Rightarrow> (pstate \<times> int) outcome" where
  "pclose fclose_ok waits fd s = (case childpid s of None \<Rightarrow> Ret (s\<lparr>perrno := EINVAL\<rparr>, -1)
     | Some c \<Rightarrow>
        if maxfd s \<le> fd then Ret (s\<lparr>perrno := EINVAL\<rparr>, -1)
        else if c ! nat fd = 0 then Ret (s\<lparr>perrno := EINVAL\<rparr>, -1)
        else (let s = pclosefd fd (s\<lparr>childpid := Some (c[nat fd := 0])\<rparr>) in
          if \<not> fclose_ok then Ret (s, -1) else wait_loop waits s))"

section \<open>Well-formed states\<close>

definition popen_ok :: "pstate \<Rightarrow> bool" where
  "popen_ok s \<longleftrightarrow> (\<forall>fd i. fd_get (pfds s) fd = Some (Rd i) \<or> fd_get (pfds s) fd = Some (Wr i) \<longrightarrow> i < next_pipe s) \<and>
     (\<forall>c. childpid s = Some c \<longrightarrow> length c = nat (maxfd s) \<and> 0 \<le> maxfd s \<and>
       (\<forall>i < length c. c ! i \<noteq> 0 \<longrightarrow> 0 < c ! i \<and> fd_get (pfds s) (int i) \<noteq> None))"

text \<open>One table per call of \<open>pipe\<close>: two new descriptors.\<close>

lemma sys_pipe_get:
  assumes "sys_pipe s = (s', r, w)"
  shows "r \<noteq> w" "0 \<le> r" "0 \<le> w" "fd_get (pfds s) r = None" "fd_get (pfds s) w = None"
    "fd_get (pfds s') k = (if k = r then Some (Rd (next_pipe s)) else if k = w then Some (Wr (next_pipe s)) else fd_get (pfds s) k)"
    "s' = s\<lparr>pfds := pfds s', next_pipe := next_pipe s + 1\<rparr>"
proof -
  obtain t u where t: "fd_alloc (Rd (next_pipe s)) (pfds s) = (t, r)" and u: "fd_alloc (Wr (next_pipe s)) t = (u, w)"
    and s': "s' = s\<lparr>pfds := u, next_pipe := next_pipe s + 1\<rparr>"
    using assms by (auto simp: sys_pipe_def Let_def split: prod.splits)
  note g = fd.alloc_free [OF t] fd.alloc_free [OF u] fd.alloc_get [OF t] fd.alloc_get [OF u]
  show "r \<noteq> w" "fd_get (pfds s) w = None" using g(2) g(3) [of w] by (auto split: if_splits)
  show "0 \<le> r" "0 \<le> w" "fd_get (pfds s) r = None" using g by auto
  then show "fd_get (pfds s') k =
      (if k = r then Some (Rd (next_pipe s)) else if k = w then Some (Wr (next_pipe s)) else fd_get (pfds s) k)"
    using g(3,4) \<open>r \<noteq> w\<close> s' by simp
  show "s' = s\<lparr>pfds := pfds s', next_pipe := next_pipe s + 1\<rparr>" using s' by simp
qed

lemma pclosefd_get [simp]: "fd_get (pfds (pclosefd fd s)) k = (if k = fd then None else fd_get (pfds s) k)"
  using fd.close_get [of fd "pfds s" "fst (fd_close fd (pfds s))" "snd (fd_close fd (pfds s))" k]
  by (simp add: pclosefd_def)

lemma pclosefd_simps [simp]:
  "childpid (pclosefd fd s) = childpid s" "maxfd (pclosefd fd s) = maxfd s" "next_pipe (pclosefd fd s) = next_pipe s"
  "openmax (pclosefd fd s) = openmax s" "perrno (pclosefd fd s) = perrno s"
  by (simp_all add: pclosefd_def)

section \<open>The array\<close>

lemma open_max_frame: "open_max a s = Ret (t, m) \<Longrightarrow>
    pfds t = pfds s \<and> next_pipe t = next_pipe s \<and> childpid t = childpid s \<and> 0 \<le> m \<or> openmax s < 0"
  by (auto simp: open_max_def Let_def OPEN_MAX_GUESS_def split: if_splits)

lemma popen_array_ok:
  assumes "popen_ok s" "0 \<le> openmax s" "popen_array a s = Ret (t, ok)"
  shows "pfds t = pfds s \<and> next_pipe t = next_pipe s \<and> popen_ok t \<and> (ok \<longrightarrow> childpid t \<noteq> None) \<and>
    (case childpid s of Some c \<Rightarrow> t = s \<and> ok | None \<Rightarrow> ok \<longrightarrow> childpid t = Some (replicate (nat (maxfd t)) 0))"
proof (cases "childpid s")
  case (Some c)
  with assms show ?thesis by (auto simp: popen_array_def)
next
  case None
  then obtain u m where u: "open_max a s = Ret (u, m)"
    and t: "t = (if calloc_ok a then u\<lparr>maxfd := m, childpid := Some (replicate (nat m) 0)\<rparr> else u\<lparr>maxfd := m, perrno := sys_errno a\<rparr>)"
      "ok = calloc_ok a"
    using assms(3) by (auto simp: popen_array_def Let_def split: if_splits)
  with assms(2) open_max_frame [OF u] have f: "pfds u = pfds s" "next_pipe u = next_pipe s" "childpid u = None" "0 \<le> m"
    using None by auto
  have "popen_ok t" using assms(1) t f by (auto simp: popen_ok_def)
  with t f None show ?thesis by auto
qed

lemma popen_ok_slot:
  "popen_ok s \<Longrightarrow> childpid s = Some c \<Longrightarrow> i < length c \<Longrightarrow> c ! i \<noteq> 0 \<Longrightarrow> 0 < c ! i \<and> fd_get (pfds s) (int i) \<noteq> None"
  unfolding popen_ok_def by blast

lemma popen_ok_length: "popen_ok s \<Longrightarrow> childpid s = Some c \<Longrightarrow> length c = nat (maxfd s) \<and> 0 \<le> maxfd s"
  unfolding popen_ok_def by blast

lemma popen_free_slot:
  assumes "popen_ok s" "childpid s = Some c" "fd_get (pfds s) fd = None" "0 \<le> fd" "fd < maxfd s"
  shows "nat fd < length c" "c ! nat fd = 0"
proof -
  show l: "nat fd < length c" using popen_ok_length [OF assms(1,2)] assms(4,5) by auto
  show "c ! nat fd = 0" using popen_ok_slot [OF assms(1,2) l] assms(3,4) by auto
qed

lemma sys_pipe_frame:
  "sys_pipe s = (s', r, w) \<Longrightarrow> childpid s' = childpid s \<and> maxfd s' = maxfd s \<and> next_pipe s' = next_pipe s + 1 \<and> openmax s' = openmax s"
  by (auto simp: sys_pipe_def Let_def split: prod.splits)

section \<open>Round trip\<close>

lemma wait_loop_interrupted: "wait_loop (replicate n (Inl EINTR) @ [Inr stat]) s = Ret (s, stat)"
  by (induction n) auto

text \<open>The states a successful \<open>popen\<close> passes through.\<close>

lemma popen_success:
  assumes "popen_ok s" "0 \<le> openmax s" "popen a type s = Ret (t, Some fd)"
  obtains u v r w c where "popen_array a s = Ret (u, True)" "pfds u = pfds s" "popen_ok u" "childpid u = Some c"
    "sys_pipe u = (v, r, w)" "valid_type type" "r < maxfd u" "w < maxfd u" "0 \<le> fork_pid a" "fdopen_ok a"
    "popen_parent a type r w v = (t, Some fd)" "fd = (if type = ''r'' then r else w)"
proof -
  from assms(3) have v: "valid_type type" by (auto simp: popen_def split: if_splits)
  with assms(3) obtain u ok where u: "popen_array a s = Ret (u, ok)" by (auto simp: popen_def)
  obtain v' r w where p: "sys_pipe u = (v', r, w)" by (metis prod_cases3)
  note frame = sys_pipe_frame [OF p]
  have "ok" "r < maxfd u" "w < maxfd u" "0 \<le> fork_pid a" and q: "popen_parent a type r w v' = (t, Some fd)"
    using assms(3) v frame by (auto simp: popen_def u p split: if_splits)
  moreover from q have "fdopen_ok a" "fd = (if type = ''r'' then r else w)"
    by (auto simp: popen_parent_def Let_def split: if_splits)
  ultimately show thesis using that u v p popen_array_ok [OF assms(1,2) u] by auto
qed

lemma popen_parent_get:
  assumes "popen_parent a type r w s = (t, Some fd)" "r \<noteq> w"
  shows "fd_get (pfds t) k = (if k = (if type = ''r'' then w else r) then None else fd_get (pfds s) k)"
    and "childpid t = map_option (\<lambda>c. c[nat fd := fork_pid a]) (childpid s)" "maxfd t = maxfd s"
  using assms by (auto simp: popen_parent_def Let_def split: if_splits)

lemma popen_then_pclose:
  assumes "popen_ok s" "0 \<le> openmax s" "popen a type s = Ret (t, Some fd)" "fork_pid a \<noteq> 0"
  shows "\<exists>u. pclose True (replicate n (Inl EINTR) @ [Inr stat]) fd t = Ret (u, stat) \<and>
      (\<forall>k. fd_get (pfds u) k = fd_get (pfds s) k) \<and>
      childpid u = Some (case childpid s of Some c \<Rightarrow> c | None \<Rightarrow> replicate (nat (maxfd u)) 0) \<and>
      pclose True (replicate n (Inl EINTR) @ [Inr stat]) fd u = Ret (u\<lparr>perrno := EINVAL\<rparr>, -1)"
    and "\<exists>i. fd_get (pfds t) fd = Some (if type = ''r'' then Rd i else Wr i) \<and>
      (\<forall>k. k \<noteq> fd \<longrightarrow> fd_get (pfds t) k = fd_get (pfds s) k)"
    and "popen_ok t"
proof -
  obtain u v r w c where u: "popen_array a s = Ret (u, True)" "pfds u = pfds s" "popen_ok u" "childpid u = Some c"
    and p: "sys_pipe u = (v, r, w)" and m: "r < maxfd u" "w < maxfd u" "0 \<le> fork_pid a"
    and q: "popen_parent a type r w v = (t, Some fd)" and fd: "fd = (if type = ''r'' then r else w)"
    using popen_success [OF assms(1-3)] by metis
  note pg = sys_pipe_get [OF p] and fr = sys_pipe_frame [OF p] and tg = popen_parent_get [OF q pg(1)]
  have slot: "nat fd < length c" "c ! nat fd = 0"
    using popen_free_slot [OF u(3,4), of fd] pg(2-5) m fd by auto
  have fd0: "0 \<le> fd" "fd < maxfd u" "fd_get (pfds u) fd = None" using pg fd m by auto
  have ct: "childpid t = Some (c[nat fd := fork_pid a])" "maxfd t = maxfd u" using tg fr u(4) by auto
  have gt: "fd_get (pfds t) k = (if k = fd then Some (if type = ''r'' then Rd (next_pipe u) else Wr (next_pipe u)) else fd_get (pfds s) k)" for k
    using tg(1) [of k] pg(1,4,5,6) u(2) fd by auto
  show "\<exists>i. fd_get (pfds t) fd = Some (if type = ''r'' then Rd i else Wr i) \<and> (\<forall>k. k \<noteq> fd \<longrightarrow> fd_get (pfds t) k = fd_get (pfds s) k)"
    using gt by auto
  show "popen_ok t"
  proof -
    have "next_pipe t = next_pipe u + 1" using q fr by (auto simp: popen_parent_def Let_def split: if_splits)
    moreover have "0 < (c[nat fd := fork_pid a]) ! i \<and> fd_get (pfds t) (int i) \<noteq> None"
      if "i < length c" "(c[nat fd := fork_pid a]) ! i \<noteq> 0" for i
    proof (cases "i = nat fd")
      case True
      then show ?thesis using that gt [of "int i"] m(3) assms(4) fd0(1) slot(1) by simp
    next
      case False
      then have "0 < c ! i \<and> fd_get (pfds u) (int i) \<noteq> None" using popen_ok_slot [OF u(3,4) that(1)] that(2) by simp
      with False show ?thesis using gt [of "int i"] u(2) fd0(1) by auto
    qed
    moreover have "i < next_pipe t" if "fd_get (pfds t) k = Some (Rd i) \<or> fd_get (pfds t) k = Some (Wr i)" for k i
      using that gt [of k] u(2,3) calculation(1) unfolding popen_ok_def by (auto split: if_splits intro: less_SucI)
    ultimately show ?thesis using ct popen_ok_length [OF u(3,4)] unfolding popen_ok_def by simp
  qed
  define e where "e = pclosefd fd (t\<lparr>childpid := Some c\<rparr>)"
  have cc: "c[nat fd := 0] = c" using slot(2) by (metis list_update_id)
  have "pclose True (replicate n (Inl EINTR) @ [Inr stat]) fd t = Ret (e, stat)"
    using ct fd0(2) slot assms(4) wait_loop_interrupted by (simp add: pclose_def e_def Let_def cc)
  moreover have "fd_get (pfds e) k = fd_get (pfds s) k" for k using gt [of k] fd0(3) u(2) by (simp add: e_def)
  moreover have "childpid e = Some (case childpid s of Some c \<Rightarrow> c | None \<Rightarrow> replicate (nat (maxfd e)) 0)"
    using popen_array_ok [OF assms(1,2) u(1)] u(4) ct(2) by (cases "childpid s") (auto simp: e_def)
  moreover have "pclose True (replicate n (Inl EINTR) @ [Inr stat]) fd e = Ret (e\<lparr>perrno := EINVAL\<rparr>, -1)"
    using slot fd0(2) ct(2) by (simp add: pclose_def e_def)
  ultimately show "\<exists>u. pclose True (replicate n (Inl EINTR) @ [Inr stat]) fd t = Ret (u, stat) \<and>
      (\<forall>k. fd_get (pfds u) k = fd_get (pfds s) k) \<and>
      childpid u = Some (case childpid s of Some c \<Rightarrow> c | None \<Rightarrow> replicate (nat (maxfd u)) 0) \<and>
      pclose True (replicate n (Inl EINTR) @ [Inr stat]) fd u = Ret (u\<lparr>perrno := EINVAL\<rparr>, -1)"
    by blast
qed

section \<open>Failures\<close>

text \<open>A null pointer with the descriptors of the pipe left open: \<open>fork\<close> or \<open>fdopen\<close>
  failed.\<close>

definition pipe_left :: "panswers \<Rightarrow> pstate \<Rightarrow> bool" where
  "pipe_left a s \<longleftrightarrow> (\<exists>u v r w. popen_array a s = Ret (u, True) \<and> pipe_ok a \<and> sys_pipe u = (v, r, w) \<and>
     r < maxfd u \<and> w < maxfd u \<and> (fork_pid a < 0 \<or> \<not> fdopen_ok a))"

lemma popen_failure:
  assumes "popen_ok s" "0 \<le> openmax s" "popen a type s = Ret (t, None)"
  shows "(\<exists>k. fd_get (pfds t) k \<noteq> fd_get (pfds s) k) \<longleftrightarrow> valid_type type \<and> pipe_left a s"
proof (cases "valid_type type")
  case True
  then obtain u ok where u: "popen_array a s = Ret (u, ok)" using assms(3) by (auto simp: popen_def)
  have us: "pfds u = pfds s" using popen_array_ok [OF assms(1,2) u] by simp
  obtain v r w where p: "sys_pipe u = (v, r, w)" by (metis prod_cases3)
  note pg = sys_pipe_get [OF p] and fr = sys_pipe_frame [OF p]
  show ?thesis
  proof (cases "ok \<and> pipe_ok a \<and> r < maxfd u \<and> w < maxfd u")
    case False
    then have "fd_get (pfds t) k = fd_get (pfds s) k" for k
      using assms(3) True u p fr pg(4,5) pg(6) [of k] us by (auto simp: popen_def split: if_splits)
    moreover have "\<not> pipe_left a s" using False u p by (auto simp: pipe_left_def)
    ultimately show ?thesis by blast
  next
    case fits: True
    show ?thesis
    proof (cases "fork_pid a < 0")
      case True
      then have "pfds t = pfds v" using assms(3) \<open>valid_type type\<close> fits u p fr by (auto simp: popen_def)
      then have "fd_get (pfds t) r \<noteq> fd_get (pfds s) r" using pg(4) pg(6) [of r] us by simp
      then show ?thesis using True fits u p \<open>valid_type type\<close> by (auto simp: pipe_left_def)
    next
      case False
      then have "popen_parent a type r w v = (t, None)"
        using assms(3) \<open>valid_type type\<close> fits u p fr by (auto simp: popen_def)
      then have f: "\<not> fdopen_ok a" and t: "fd_get (pfds t) k = fd_get (pfds (pclosefd (if type = ''r'' then w else r) v)) k" for k
        by (auto simp: popen_parent_def Let_def split: if_splits)
      then have "fd_get (pfds t) (if type = ''r'' then r else w) \<noteq> fd_get (pfds s) (if type = ''r'' then r else w)"
        using pg(1,4,5) pg(6) [of r] pg(6) [of w] us by simp
      then show ?thesis using f fits u p \<open>valid_type type\<close> by (auto simp: pipe_left_def)
    qed
  qed
qed (use assms(3) in \<open>auto simp: popen_def\<close>)

section \<open>The child\<close>

lemma fd_close_get: "fd_get (fst (fd_close fd t)) k = (if k = fd then None else fd_get t k)"
  using fd.close_get [of fd t "fst (fd_close fd t)" "snd (fd_close fd t)" k] by simp

lemma close_all_get:
  "fd_get (close_all ps i t) k = (if i \<le> k \<and> k < i + int (length ps) \<and> ps ! nat (k - i) > 0 then None else fd_get t k)"
proof (induction ps arbitrary: i t)
  case (Cons p ps)
  show ?case
  proof (cases "k = i")
    case False
    have "nat (k - i) = Suc (nat (k - (i + 1)))" if "i < k" using that by simp
    with False Cons show ?thesis by (auto simp: fd_close_get)
  next
    case True
    then show ?thesis using Cons.IH [of "i + 1"] by (simp add: fd_close_get)
  qed
qed simp

lemma fd_dup2_get:
  "fd_get t old = Some x \<Longrightarrow> 0 \<le> new \<Longrightarrow> fd_get (fst (fd_dup2 old new t)) k = (if k = new then Some x else fd_get t k)"
  by (simp add: fd_dup2_def fd_get_set)

text \<open>Before the loop: the standard descriptor is the pipe, the pipe's other descriptors are
  closed, and the rest is as in the parent.\<close>

lemma child_std_get:
  assumes "sys_pipe s = (v, r, w)" "valid_type type" "std = (if type = ''r'' then 1 else 0)"
  shows "fd_get (child_std type r w (pfds v)) k =
    (if k = std then Some (if type = ''r'' then Wr (next_pipe s) else Rd (next_pipe s))
     else if k = r \<or> k = w then None else fd_get (pfds s) k)"
proof -
  note pg = sys_pipe_get [OF assms(1)]
  define mine other where mo: "mine = (if type = ''r'' then w else r)" "other = (if type = ''r'' then r else w)"
  define x where "x = (if type = ''r'' then Wr (next_pipe s) else Rd (next_pipe s))"
  define t where "t = fst (fd_close other (pfds v))"
  have t: "fd_get t k = (if k = other then None else if k = mine then Some x else fd_get (pfds s) k)" for k
    using pg(1,6) by (auto simp: t_def mo x_def fd_close_get)
  have m: "mine \<noteq> other" "fd_get t mine = Some x" using pg(1) t by (auto simp: mo)
  have "child_std type r w (pfds v) = (if mine \<noteq> std then fst (fd_close mine (fst (fd_dup2 mine std t))) else t)"
    by (simp add: child_std_def mo t_def assms(3) Let_def)
  moreover have "fd_get (if mine \<noteq> std then fst (fd_close mine (fst (fd_dup2 mine std t))) else t) k =
      (if k = std then Some x else if k = mine \<or> k = other then None else fd_get (pfds s) k)"
    using m fd_dup2_get [OF m(2), of std] t [of k] assms(3) by (auto simp: fd_close_get)
  ultimately show ?thesis by (auto simp: mo x_def)
qed

lemma popen_child_get:
  assumes "popen_ok s" "childpid s = Some c" "sys_pipe s = (v, r, w)" "r < maxfd s" "w < maxfd s" "valid_type type"
    "std = (if type = ''r'' then 1 else 0)"
  shows "fd_get (popen_child type r w v) k =
    (if 0 \<le> k \<and> k < int (length c) \<and> 0 < c ! nat k then None
     else if k = std then Some (if type = ''r'' then Wr (next_pipe s) else Rd (next_pipe s))
     else if k = r \<or> k = w then None else fd_get (pfds s) k)"
proof -
  have c: "popen_child type r w v = close_all c 0 (child_std type r w (pfds v))"
    using sys_pipe_frame [OF assms(3)] assms(2) by (simp add: popen_child_def)
  show ?thesis unfolding c close_all_get child_std_get [OF assms(3,6,7)] by simp
qed

section \<open>Properties\<close>

text \<open>C12. A successful \<open>popen\<close> adds one descriptor to the caller's, its end of a new
  pipe, and the matching \<open>pclose\<close> returns the status of the child, however often
  \<open>waitpid\<close> is interrupted, and leaves the descriptors and the array of process ids as they
  were; a second \<open>pclose\<close> is refused with \<open>EINVAL\<close>.\<close>

theorem popen_pclose_roundtrip:
  assumes "popen_ok s" "0 \<le> openmax s" "popen a type s = Ret (t, Some fd)" "fork_pid a \<noteq> 0"
  shows "popen_ok t \<and>
    (\<exists>i. fd_get (pfds t) fd = Some (if type = ''r'' then Rd i else Wr i) \<and>
      (\<forall>k. k \<noteq> fd \<longrightarrow> fd_get (pfds t) k = fd_get (pfds s) k)) \<and>
    (\<exists>u. pclose True (replicate n (Inl EINTR) @ [Inr stat]) fd t = Ret (u, stat) \<and>
      (\<forall>k. fd_get (pfds u) k = fd_get (pfds s) k) \<and>
      childpid u = Some (case childpid s of Some c \<Rightarrow> c | None \<Rightarrow> replicate (nat (maxfd u)) 0) \<and>
      pclose True (replicate n (Inl EINTR) @ [Inr stat]) fd u = Ret (u\<lparr>perrno := EINVAL\<rparr>, -1))"
  using popen_then_pclose [OF assms] by blast

definition shell_state :: pstate where
  "shell_state = \<lparr>openmax = 0, maxfd = 0, childpid = None, pfds = [Some (Other 0), Some (Other 1), Some (Other 2)],
     next_pipe = 0, perrno = 0\<rparr>"

definition shell_answers :: "int \<Rightarrow> panswers" where
  "shell_answers pid = \<lparr>sysconf = 8, sysconf_errno = 0, calloc_ok = True, pipe_ok = True, fork_pid = pid, fdopen_ok = True,
     sys_errno = 11\<rparr>"

lemma shell_state_ok: "popen_ok shell_state" "0 \<le> openmax shell_state"
  by (auto simp: popen_ok_def shell_state_def fd_get_def nth_Cons' split: if_splits)

lemmas popen_eval = popen_def popen_array_def open_max_def valid_type_def sys_pipe_def fd_alloc_def fd_set_def
  popen_parent_def pclosefd_def fd_close_def fd_get_def shell_state_def shell_answers_def

theorem popen_pclose_roundtrip_witness:
  "\<exists>t u. popen (shell_answers 77) ''r'' shell_state = Ret (t, Some 3) \<and>
     pclose True [Inl EINTR, Inl EINTR, Inr 256] 3 t = Ret (u, 256) \<and> fd_get (pfds u) 3 = None"
proof -
  obtain t where t: "popen (shell_answers 77) ''r'' shell_state = Ret (t, Some 3)"
    by (simp add: popen_eval Let_def)
  obtain u where "pclose True (replicate 2 (Inl EINTR) @ [Inr 256]) 3 t = Ret (u, 256)"
    "\<forall>k. fd_get (pfds u) k = fd_get (pfds shell_state) k"
    using popen_pclose_roundtrip [OF shell_state_ok t, of 2 256] by (auto simp: shell_answers_def)
  moreover have "fd_get (pfds shell_state) 3 = None" by (simp add: shell_state_def fd_get_def)
  with calculation(2) have "fd_get (pfds u) 3 = None" by metis
  ultimately show ?thesis using t by (auto simp: numeral_2_eq_2)
qed

text \<open>When \<open>popen\<close> returns a null pointer the caller has the descriptors it had before,
  unless \<open>fork\<close> or \<open>fdopen\<close> failed: then the pipe stays open with nobody to close
  it. A type that is not \<open>r\<close> or \<open>w\<close> sets \<open>EINVAL\<close>, descriptors beyond the
  array \<open>EMFILE\<close>, and nothing else changes.\<close>

theorem popen_failures:
  assumes "popen_ok s" "0 \<le> openmax s"
  shows "(\<forall>t. popen a type s = Ret (t, None) \<longrightarrow>
      ((\<exists>k. fd_get (pfds t) k \<noteq> fd_get (pfds s) k) \<longleftrightarrow> valid_type type \<and> pipe_left a s)) \<and>
    (\<not> valid_type type \<longrightarrow> popen a type s = Ret (s\<lparr>perrno := EINVAL\<rparr>, None)) \<and>
    (\<forall>u v r w. valid_type type \<and> popen_array a s = Ret (u, True) \<and> pipe_ok a \<and> sys_pipe u = (v, r, w) \<and>
        (maxfd u \<le> r \<or> maxfd u \<le> w) \<longrightarrow>
      (\<exists>t. popen a type s = Ret (t, None) \<and> perrno t = EMFILE \<and> childpid t = childpid u))"
proof (intro conjI allI impI)
  show "(\<exists>k. fd_get (pfds t) k \<noteq> fd_get (pfds s) k) \<longleftrightarrow> valid_type type \<and> pipe_left a s"
    if "popen a type s = Ret (t, None)" for t
    using popen_failure [OF assms that] .
  show "popen a type s = Ret (s\<lparr>perrno := EINVAL\<rparr>, None)" if "\<not> valid_type type" using that by (simp add: popen_def)
  fix u v r w
  assume *: "valid_type type \<and> popen_array a s = Ret (u, True) \<and> pipe_ok a \<and> sys_pipe u = (v, r, w) \<and>
        (maxfd u \<le> r \<or> maxfd u \<le> w)"
  then have "childpid v = childpid u \<and> maxfd v = maxfd u" using sys_pipe_frame by blast
  with * show "\<exists>t. popen a type s = Ret (t, None) \<and> perrno t = EMFILE \<and> childpid t = childpid u"
    by (auto simp: popen_def)
qed

theorem popen_failures_witness:
  "\<exists>t k. popen (shell_answers (-1)) ''w'' shell_state = Ret (t, None) \<and>
     fd_get (pfds t) k \<noteq> fd_get (pfds shell_state) k"
proof -
  obtain t where t: "popen (shell_answers (-1)) ''w'' shell_state = Ret (t, None)"
    by (simp add: popen_eval Let_def)
  have "pipe_left (shell_answers (-1)) shell_state"
    by (simp add: pipe_left_def popen_eval Let_def)
  with t popen_failures [OF shell_state_ok, of "shell_answers (-1)" "''w''"]
  show ?thesis by (auto simp: valid_type_def)
qed

text \<open>The child of \<open>popen\<close> calls \<open>execl\<close> with its standard output (or input)
  connected to the new pipe, without the pipe's own descriptors and without the streams of
  earlier calls, and with all else it inherited; but if an earlier stream has the number of the
  standard descriptor itself, the loop closes the pipe again.\<close>

theorem popen_child_descriptors:
  assumes "popen_ok s" "childpid s = Some c" "sys_pipe s = (v, r, w)" "r < maxfd s" "w < maxfd s" "valid_type type"
    "std = (if type = ''r'' then STDOUT_FILENO else STDIN_FILENO)"
  shows "(let stream = (\<lambda>k. 0 \<le> k \<and> k < maxfd s \<and> c ! nat k \<noteq> 0) in
    fd_get (popen_child type r w v) std =
      (if stream std then None else Some (if type = ''r'' then Wr (next_pipe s) else Rd (next_pipe s))) \<and>
    (\<forall>k. k \<noteq> std \<longrightarrow> fd_get (popen_child type r w v) k = (if k \<in> {r, w} \<or> stream k then None else fd_get (pfds s) k)))"
proof -
  have l: "int (length c) = maxfd s" using popen_ok_length [OF assms(1,2)] by simp
  have "0 < c ! nat k \<longleftrightarrow> c ! nat k \<noteq> 0" if "0 \<le> k" "k < maxfd s" for k
    using popen_ok_slot [OF assms(1,2), of "nat k"] that l by auto
  then show ?thesis
    using popen_child_get [OF assms(1-6)] assms(7) l by (auto simp: Let_def)
qed

theorem popen_child_descriptors_witness:
  "\<exists>s v r w. sys_pipe s = (v, r, w) \<and> fd_get (popen_child ''r'' r w v) 1 = Some (Wr 0) \<and>
     (\<exists>s v r w. sys_pipe s = (v, r, w) \<and> fd_get (popen_child ''r'' r w v) 1 = None)"
proof -
  define s where "s = shell_state\<lparr>maxfd := 8, childpid := Some (replicate 8 0)\<rparr>"
  have ok: "popen_ok s" using shell_state_ok(1) by (simp add: popen_ok_def s_def shell_state_def)
  obtain v where v: "sys_pipe s = (v, 3, 4)"
    by (simp add: s_def popen_eval Let_def)
  define s' where "s' = s\<lparr>childpid := Some ((replicate 8 0)[1 := 55])\<rparr>"
  have ok': "popen_ok s'"
    using ok by (auto simp: popen_ok_def s_def s'_def shell_state_def nth_list_update fd_get_def split: if_splits)
  obtain v' where v': "sys_pipe s' = (v', 3, 4)"
    by (simp add: s_def s'_def popen_eval Let_def)
  have "fd_get (popen_child ''r'' 3 4 v) 1 = Some (Wr 0)"
    using popen_child_descriptors [OF ok _ v, of "replicate 8 0" "''r''" 1]
    by (simp add: s_def shell_state_def valid_type_def Let_def)
  moreover have "fd_get (popen_child ''r'' 3 4 v') 1 = None"
    using popen_child_descriptors [OF ok' _ v', of "(replicate 8 0)[1 := 55]" "''r''" 1]
    by (simp add: s_def s'_def shell_state_def valid_type_def Let_def)
  ultimately show ?thesis using v v' by blast
qed

end
