(* ===== verification/Runs.thy ===== *)
theory Runs imports Prelude
begin

text \<open>
  Machines whose run is determined: the only run from a state, its length and its end. Programs
  in which the processes take turns have such runs.
\<close>

text \<open>The only run from a state takes \<open>n\<close> steps and stops in \<open>fin\<close>.\<close>

primrec runs_to :: "('s \<Rightarrow> 's \<Rightarrow> bool) \<Rightarrow> nat \<Rightarrow> 's \<Rightarrow> 's \<Rightarrow> bool" where
  "runs_to R 0 s fin \<longleftrightarrow> s = fin \<and> (\<forall>t. \<not> R s t)"
| "runs_to R (Suc n) s fin \<longleftrightarrow> (\<exists>t. (\<forall>t'. R s t' \<longleftrightarrow> t' = t) \<and> runs_to R n t fin)"

text \<open>The steps up to the first state in which \<open>P\<close> holds.\<close>

definition before :: "('s \<Rightarrow> bool) \<Rightarrow> ('s \<Rightarrow> 's \<Rightarrow> bool) \<Rightarrow> 's \<Rightarrow> 's \<Rightarrow> bool" where
  "before P R s t \<longleftrightarrow> \<not> P s \<and> R s t"

lemma only_point [simp]: "(\<exists>t. (\<forall>t'. (t' = u) = (t' = t)) \<and> P t) \<longleftrightarrow> P u"
  by auto

lemma runs_to_numeral: "runs_to R (numeral k) s fin \<longleftrightarrow>
    (\<exists>t. (\<forall>t'. R s t' \<longleftrightarrow> t' = t) \<and> runs_to R (pred_numeral k) t fin)"
  by (simp add: numeral_eq_Suc)

lemma runs_to_all: "runs_to R n s fin \<Longrightarrow> (R ^^ m) s t \<Longrightarrow> m \<le> n \<and> runs_to R (n - m) t fin"
proof (induction n arbitrary: m s)
  case 0
  then show ?case by (cases m) (auto elim: relpowp_E2)
next
  case (Suc n)
  show ?case
  proof (cases m)
    case 0
    with Suc.prems show ?thesis by simp
  next
    case (Suc k)
    obtain u where u: "\<forall>t'. R s t' \<longleftrightarrow> t' = u" "runs_to R n u fin" using Suc.prems by auto
    from Suc.prems(2) obtain v where "R s v" "(R ^^ k) v t" unfolding Suc by (rule relpowp_Suc_E2)
    with u Suc.IH [of u k] Suc show ?thesis by auto
  qed
qed

end
