(* ===== verification/Chat.thy ===== *)
theory Chat imports Runs
begin

text \<open>
  \<open>client-server/tcp-Client.cpp\<close> and \<open>client-server/tcp-Server.cpp\<close>, from the moment they
  are connected: the two processes take turns sending lines typed by their users. The connection
  is a byte stream in each direction; with \<open>split\<close> a \<open>recv\<close> may return any non-empty
  prefix of what has arrived, as TCP allows, otherwise all of it.
\<close>

section \<open>State\<close>

definition MSGSZ :: nat where "MSGSZ = 1500"

text \<open>The next action of a side: reading a line and sending it, waiting in \<open>recv\<close>, or none
  (ended, or out of defined behaviour because \<open>strcpy\<close> overran \<open>msg\<close>).\<close>

datatype side_pc = Typing | Receiving | Closed | Overrun

text \<open>One side: its place, the lines its user is going to type, the text of the messages it has
  printed, \<open>bytesWritten\<close>, and \<open>bytesRead\<close>, which is never initialised and so stays
  indeterminate (\<open>None\<close>) whatever is added to it.\<close>

record side =
  pc :: side_pc
  typed :: "string list"
  seen :: "string list"
  bytesWritten :: int
  bytesRead :: "int option"

record session =
  client :: side
  server :: side
  to_server :: string
  to_client :: string

definition side_start :: "side_pc \<Rightarrow> string list \<Rightarrow> side" where
  "side_start p lines = \<lparr>pc = p, typed = lines, seen = [], bytesWritten = 0, bytesRead = None\<rparr>"

definition session_start :: "string list \<Rightarrow> string list \<Rightarrow> session" where
  "session_start cs ss = \<lparr>client = side_start Typing cs, server = side_start Receiving ss, to_server = [], to_client = []\<rparr>"

section \<open>One turn of a side\<close>

text \<open>\<open>getline\<close>: at the end of the input the line is empty.\<close>

definition next_line :: "side \<Rightarrow> string \<times> side" where
  "next_line x = (case typed x of [] \<Rightarrow> ([], x) | l # ls \<Rightarrow> (l, x\<lparr>typed := ls\<rparr>))"

text \<open>From the prompt to after \<open>send\<close>: the bytes sent. \<open>data.c_str()\<close> ends at the first
  NUL, and an \<open>exit\<close> is not counted.\<close>

definition type_line :: "side \<Rightarrow> side \<times> string" where
  "type_line x = (let (data, x) = next_line x; msg = c_str data in
     if MSGSZ < length msg + 1 then (x\<lparr>pc := Overrun\<rparr>, [])
     else if data = ''exit'' then (x\<lparr>pc := Closed\<rparr>, msg)
     else (x\<lparr>pc := Receiving, bytesWritten := bytesWritten x + int (length msg)\<rparr>, msg))"

text \<open>After \<open>recv\<close> stored the given bytes in the cleared \<open>msg\<close>.\<close>

definition got_bytes :: "string \<Rightarrow> side \<Rightarrow> side" where
  "got_bytes bytes x = (let x = x\<lparr>bytesRead := map_option (\<lambda>n. n + int (length bytes)) (bytesRead x)\<rparr> in
     if c_str bytes = ''exit'' then x\<lparr>pc := Closed\<rparr> else x\<lparr>pc := Typing, seen := seen x @ [c_str bytes]\<rparr>)"

text \<open>What \<open>recv\<close> can return: at most \<open>sizeof(msg)\<close> bytes of the stream, or none once the
  other side has closed it.\<close>

definition receivable :: "bool \<Rightarrow> string \<Rightarrow> side_pc \<Rightarrow> string \<Rightarrow> bool" where
  "receivable split stream other bytes \<longleftrightarrow>
     (if stream = [] then other = Closed \<and> bytes = []
      else (\<exists>k. 0 < k \<and> bytes = take k stream \<and> length bytes \<le> MSGSZ \<and> (\<not> split \<longrightarrow> bytes = take MSGSZ stream)))"

inductive chat_step :: "bool \<Rightarrow> session \<Rightarrow> session \<Rightarrow> bool" for split :: bool where
  client_types: "pc (client s) = Typing \<Longrightarrow> type_line (client s) = (x, bytes) \<Longrightarrow>
    chat_step split s (s\<lparr>client := x, to_server := to_server s @ bytes\<rparr>)"
| server_types: "pc (server s) = Typing \<Longrightarrow> type_line (server s) = (x, bytes) \<Longrightarrow>
    chat_step split s (s\<lparr>server := x, to_client := to_client s @ bytes\<rparr>)"
| client_gets: "pc (client s) = Receiving \<Longrightarrow> receivable split (to_client s) (pc (server s)) bytes \<Longrightarrow>
    chat_step split s (s\<lparr>client := got_bytes bytes (client s), to_client := drop (length bytes) (to_client s)\<rparr>)"
| server_gets: "pc (server s) = Receiving \<Longrightarrow> receivable split (to_server s) (pc (client s)) bytes \<Longrightarrow>
    chat_step split s (s\<lparr>server := got_bytes bytes (server s), to_server := drop (length bytes) (to_server s)\<rparr>)"

section \<open>The conversation\<close>

text \<open>What each side has printed in the end, when the users type the given lines in turn.\<close>

fun talk :: "string list \<Rightarrow> string list \<Rightarrow> string list \<times> string list" where
  "talk (c # cs) (d # ds) = (if c = ''exit'' then ([], []) else if d = ''exit'' then ([c], [])
     else let (a, b) = talk cs ds in (c # a, d # b))"
| "talk (c # cs) [] = (if c = ''exit'' then ([], []) else ([c], []))"
| "talk [] ds = ([], [])"

text \<open>Lines the programs can carry: not empty, without NUL, and short enough for \<open>msg\<close>.\<close>

definition plain_line :: "string \<Rightarrow> bool" where
  "plain_line l \<longleftrightarrow> l \<noteq> [] \<and> nul_free l \<and> length l < MSGSZ"

text \<open>Some side says \<open>exit\<close>, and all lines before are plain.\<close>

fun ends :: "string list \<Rightarrow> string list \<Rightarrow> bool" where
  "ends (c # cs) ds \<longleftrightarrow> c = ''exit'' \<or> plain_line c \<and>
     (case ds of [] \<Rightarrow> False | d # ds \<Rightarrow> d = ''exit'' \<or> plain_line d \<and> ends cs ds)"
| "ends [] ds \<longleftrightarrow> False"

lemma c_str_plain [simp]: "nul_free l \<Longrightarrow> c_str l = l"
  by (induction l) (auto simp: c_str_def nul_free_def)

lemma type_line_plain:
  "typed x = l # ls \<Longrightarrow> plain_line l \<Longrightarrow> l \<noteq> ''exit'' \<Longrightarrow>
    type_line x = (x\<lparr>typed := ls, pc := Receiving, bytesWritten := bytesWritten x + int (length l)\<rparr>, l)"
  by (simp add: type_line_def next_line_def plain_line_def Let_def)

lemma type_line_exit: "typed x = ''exit'' # ls \<Longrightarrow> type_line x = (x\<lparr>typed := ls, pc := Closed\<rparr>, ''exit'')"
  by (simp add: type_line_def next_line_def MSGSZ_def c_str_def NUL_def)

lemma receivable_whole:
  "stream \<noteq> [] \<Longrightarrow> length stream \<le> MSGSZ \<Longrightarrow> receivable False stream other bytes \<longleftrightarrow> bytes = stream"
  by (auto simp: receivable_def intro!: exI [of _ "length stream"])

section \<open>Whole messages: the conversation takes place\<close>

inductive_simps chat_step_iff:
  "chat_step split \<lparr>client = c, server = d, to_server = x, to_client = y\<rparr> t"

definition sides :: "side_pc \<Rightarrow> string list \<Rightarrow> string list \<Rightarrow> int \<Rightarrow> side" where
  "sides p l a w = \<lparr>pc = p, typed = l, seen = a, bytesWritten = w, bytesRead = None\<rparr>"

lemma sides_sel [simp]: "pc (sides p l a w) = p" "typed (sides p l a w) = l" "seen (sides p l a w) = a"
  "bytesRead (sides p l a w) = None" "bytesWritten (sides p l a w) = w"
  "(sides p l a w)\<lparr>pc := q\<rparr> = sides q l a w"
  by (simp_all add: sides_def)

lemma type_line_sides [simp]:
  "plain_line l \<Longrightarrow> l \<noteq> ''exit'' \<Longrightarrow>
     type_line (sides p (l # ls) a w) = (sides Receiving ls a (w + int (length l)), l)"
  "type_line (sides p (''exit'' # ls) a w) = (sides Closed ls a w, ''exit'')"
  by (simp_all add: type_line_plain type_line_exit sides_def)

lemma got_bytes_sides [simp]:
  "plain_line l \<Longrightarrow> l \<noteq> ''exit'' \<Longrightarrow> got_bytes l (sides p ls a w) = sides Typing ls (a @ [l]) w"
  "got_bytes ''exit'' (sides p ls a w) = sides Closed ls a w"
  by (simp_all add: got_bytes_def plain_line_def sides_def Let_def) (simp add: c_str_def NUL_def)

lemma receivable_message [simp]:
  "plain_line l \<Longrightarrow> receivable False l other bytes \<longleftrightarrow> bytes = l"
  "receivable False ''exit'' other bytes \<longleftrightarrow> bytes = ''exit''"
  by (rule receivable_whole; simp add: plain_line_def MSGSZ_def)+

lemma nothing_receivable [simp]: "receivable sp [] other bytes \<longleftrightarrow> other = Closed \<and> bytes = []"
  by (simp add: receivable_def)

text \<open>The client's exit, the server's exit, and a whole exchange.\<close>

lemma client_exits:
  "runs_to (chat_step False) 2
    \<lparr>client = sides Typing (''exit'' # cs) a w, server = sides Receiving ds b v, to_server = [], to_client = []\<rparr>
    \<lparr>client = sides Closed cs a w, server = sides Closed ds b v, to_server = [], to_client = []\<rparr>"
  by (simp add: numeral_2_eq_2 chat_step_iff)

lemma server_exits:
  assumes "plain_line c" "c \<noteq> ''exit''"
  shows "runs_to (chat_step False) 4
    \<lparr>client = sides Typing (c # cs) a w, server = sides Receiving (''exit'' # ds) b v, to_server = [], to_client = []\<rparr>
    \<lparr>client = sides Closed cs a (w + int (length c)), server = sides Closed ds (b @ [c]) v, to_server = [], to_client = []\<rparr>"
  using assms by (simp add: numeral_eq_Suc chat_step_iff)

lemma exchange:
  assumes "plain_line c" "c \<noteq> ''exit''" "plain_line d" "d \<noteq> ''exit''"
    and "runs_to (chat_step False) n
     \<lparr>client = sides Typing cs (a @ [d]) (w + int (length c)),
      server = sides Receiving ds (b @ [c]) (v + int (length d)), to_server = [], to_client = []\<rparr> fin"
  shows "runs_to (chat_step False) (Suc (Suc (Suc (Suc n))))
    \<lparr>client = sides Typing (c # cs) a w, server = sides Receiving (d # ds) b v, to_server = [], to_client = []\<rparr> fin"
  using assms by (simp add: chat_step_iff)

text \<open>The end of a conversation that began in the given texts and counts.\<close>

definition over :: "string list \<times> string list \<Rightarrow> string list \<Rightarrow> string list \<Rightarrow> int \<Rightarrow> int \<Rightarrow> session \<Rightarrow> bool" where
  "over told a b w v fin \<longleftrightarrow> (\<exists>cs ds.
     fin = \<lparr>client = sides Closed cs (a @ snd told) (w + int (length (concat (fst told)))),
            server = sides Closed ds (b @ fst told) (v + int (length (concat (snd told)))),
            to_server = [], to_client = []\<rparr>)"

lemma conversation:
  assumes "ends cs ds"
  shows "\<exists>n fin. n \<le> 4 * length cs \<and> over (talk cs ds) a b w v fin \<and> runs_to (chat_step False) n
    \<lparr>client = sides Typing cs a w, server = sides Receiving ds b v, to_server = [], to_client = []\<rparr> fin"
  using assms
proof (induction cs ds arbitrary: a b w v rule: talk.induct)
  case (1 c cs d ds)
  consider "c = ''exit''" | "c \<noteq> ''exit''" "plain_line c" "d = ''exit''"
    | "c \<noteq> ''exit''" "plain_line c" "d \<noteq> ''exit''" "plain_line d" "ends cs ds" using "1.prems" by auto
  then show ?case
  proof cases
    case 1
    then show ?thesis
      by (intro exI [of _ 2] exI conjI, simp_all add: over_def) (use client_exits [of cs a w "d # ds" b v] in auto)
  next
    case 2
    then show ?thesis
      by (intro exI [of _ 4] exI conjI, simp_all add: over_def) (use server_exits [of c cs a w ds b v] in auto)
  next
    case 3
    obtain n fin where r: "n \<le> 4 * length cs"
        "over (talk cs ds) (a @ [d]) (b @ [c]) (w + int (length c)) (v + int (length d)) fin"
        "runs_to (chat_step False) n \<lparr>client = sides Typing cs (a @ [d]) (w + int (length c)),
          server = sides Receiving ds (b @ [c]) (v + int (length d)), to_server = [], to_client = []\<rparr> fin"
      using "1.IH" [OF 3(1,3,5)] by blast
    obtain x y where t: "talk cs ds = (x, y)" by (cases "talk cs ds")
    with 3(1,3) have "talk (c # cs) (d # ds) = (c # x, d # y)" by simp
    moreover from r(2) have "over (c # x, d # y) a b w v fin"
      unfolding t over_def fst_conv snd_conv by (simp add: add.assoc)
    ultimately have "over (talk (c # cs) (d # ds)) a b w v fin" by (simp only:)
    with exchange [OF 3(2,1,4,3) r(3)] r(1) show ?thesis
      by (intro exI [of _ "Suc (Suc (Suc (Suc n)))"] exI [of _ fin]) simp
  qed
next
  case (2 c cs)
  then have "c = ''exit''" by auto
  then show ?case
    by (intro exI [of _ 2] exI conjI, simp_all add: over_def) (use client_exits [of cs a w "[]" b v] in auto)
qed simp

text \<open>
  C14. While the lines are plain and messages arrive whole, until one user says \<open>exit\<close>, there
  is one run of client and server: it stops with both closed after at most four steps a line,
  each side has printed what the other's user typed before, and has counted the bytes sent;
  the count of the bytes read is never a defined value.
\<close>
theorem chat_takes_place:
  assumes "ends cs ss"
  shows "\<exists>n fin. runs_to (chat_step False) n (session_start cs ss) fin \<and> n \<le> 4 * length cs \<and>
    pc (client fin) = Closed \<and> pc (server fin) = Closed \<and>
    (seen (server fin), seen (client fin)) = talk cs ss \<and>
    bytesWritten (client fin) = int (length (concat (seen (server fin)))) \<and>
    bytesWritten (server fin) = int (length (concat (seen (client fin)))) \<and>
    bytesRead (client fin) = None \<and> bytesRead (server fin) = None"
proof -
  from conversation [OF assms, of "[]" "[]" 0 0] obtain n fin where "n \<le> 4 * length cs"
    "over (talk cs ss) [] [] 0 0 fin" "runs_to (chat_step False) n (session_start cs ss) fin"
    unfolding session_start_def side_start_def sides_def by blast
  then show ?thesis by (intro exI [of _ n] exI [of _ fin]) (auto simp: over_def)
qed

lemma chat_takes_place_witness:
  "\<exists>n fin. runs_to (chat_step False) n (session_start [''hi'', ''bye''] [''ho'', ''exit'']) fin \<and>
    seen (server fin) = [''hi'', ''bye''] \<and> seen (client fin) = [''ho'']"
proof -
  have "ends [''hi'', ''bye''] [''ho'', ''exit'']" by (simp add: plain_line_def nul_free_def MSGSZ_def NUL_def)
  from chat_takes_place [OF this] show ?thesis by auto
qed

section \<open>What breaks a conversation\<close>

lemma chat_starts: "session_start cs ss =
    \<lparr>client = sides Typing cs [] 0, server = sides Receiving ss [] 0, to_server = [], to_client = []\<rparr>"
  by (simp add: session_start_def side_start_def sides_def)

lemma empty_line_deadlock:
  "runs_to (chat_step split) 1 (session_start ([] # cs) ss)
     \<lparr>client = sides Receiving cs [] 0, server = sides Receiving ss [] 0, to_server = [], to_client = []\<rparr>"
proof -
  have "type_line (sides Typing ([] # cs) [] 0) = (sides Receiving cs [] 0, [])"
    by (simp add: type_line_def next_line_def sides_def c_str_def MSGSZ_def)
  then show ?thesis by (simp add: chat_starts chat_step_iff)
qed

lemma long_line_overruns:
  "nul_free l \<Longrightarrow> MSGSZ \<le> length l \<Longrightarrow> fst (type_line (side_start Typing (l # ls))) = side_start Overrun ls"
  by (simp add: type_line_def next_line_def side_start_def)

lemma split_exit:
  "(chat_step True)\<^sup>*\<^sup>* (session_start (''exit'' # cs) ss)
     \<lparr>client = sides Closed cs [] 0, server = sides Typing ss [''ex''] 0, to_server = ''it'', to_client = []\<rparr>"
proof -
  let ?t = "\<lparr>client = sides Closed cs [] 0, server = sides Typing ss [''ex''] 0, to_server = ''it'', to_client = []\<rparr>"
  let ?m = "\<lparr>client = sides Closed cs [] 0, server = sides Receiving ss [] 0, to_server = ''exit'', to_client = []\<rparr>"
  have "chat_step True (session_start (''exit'' # cs) ss) ?m" by (simp add: chat_starts chat_step_iff)
  moreover have "chat_step True ?m ?t"
  proof -
    have "receivable True ''exit'' Closed ''ex''" by (auto simp: receivable_def MSGSZ_def intro: exI [of _ 2])
    moreover have "got_bytes ''ex'' (sides Receiving ss [] 0) = sides Typing ss [''ex''] 0"
      by (simp add: got_bytes_def sides_def c_str_def NUL_def)
    ultimately show ?thesis using chat_step.server_gets [of ?m True "''ex''"] by simp
  qed
  ultimately show ?thesis by (rule converse_rtranclp_into_rtranclp [OF _ r_into_rtranclp])
qed

text \<open>
  A conversation breaks in three ways: an empty line sends nothing, so that both sides wait
  in \<open>recv\<close> for good; a line of 1500 characters or more overruns \<open>msg\<close>; and when TCP
  delivers \<open>exit\<close> in two pieces, the server prints the first and prompts its user although
  the client has left.
\<close>
theorem chat_breaks:
  assumes "nul_free l" "MSGSZ \<le> length l"
  shows "(\<exists>fin. runs_to (chat_step split) 1 (session_start ([] # cs) ss) fin \<and>
      pc (client fin) = Receiving \<and> pc (server fin) = Receiving) \<and>
    pc (fst (type_line (side_start Typing (l # cs)))) = Overrun \<and>
    (\<exists>s. (chat_step True)\<^sup>*\<^sup>* (session_start (''exit'' # cs) ss) s \<and>
      pc (client s) = Closed \<and> pc (server s) = Typing \<and> seen (server s) = [''ex''])"
proof (intro conjI)
  show "\<exists>fin. runs_to (chat_step split) 1 (session_start ([] # cs) ss) fin \<and>
      pc (client fin) = Receiving \<and> pc (server fin) = Receiving"
    by (rule exI, rule conjI, rule empty_line_deadlock) simp
  show "pc (fst (type_line (side_start Typing (l # cs)))) = Overrun"
    by (simp add: long_line_overruns [OF assms]) (simp add: side_start_def)
  show "\<exists>s. (chat_step True)\<^sup>*\<^sup>* (session_start (''exit'' # cs) ss) s \<and>
      pc (client s) = Closed \<and> pc (server s) = Typing \<and> seen (server s) = [''ex'']"
    by (rule exI, rule conjI, rule split_exit) simp
qed

lemma chat_breaks_witness:
  "pc (fst (type_line (side_start Typing [replicate 1500 CHR ''a'']))) = Overrun"
proof -
  have "nul_free (replicate 1500 CHR ''a'')" "MSGSZ \<le> length (replicate 1500 CHR ''a'')"
    by (simp_all add: nul_free_def MSGSZ_def NUL_def)
  from chat_breaks [OF this, THEN conjunct2, THEN conjunct1] show ?thesis .
qed

end
