(* ===== verification/SigInput.thy ===== *)
theory SigInput imports CString
begin

text \<open>
  \<open>stdin-signals/capture.cpp\<close> and \<open>capture2.cpp\<close>: standard input is switched to
  \<open>O_ASYNC\<close>, so that \<open>SIGIO\<close> announces input; its handler reads one character,
  while \<open>main\<close> counts the rounds of an idle loop until the handler has set
  \<open>flag_quit\<close>. A signal that is pending already is not queued again, and while the handler
  runs the signal is blocked.
\<close>

section \<open>State\<close>

text \<open>What \<open>read\<close> can find next: a character, the end of the input, or an error.\<close>

datatype item = Byte char | Eof | Fails

text \<open>The counters and the flag of the program, what it has written to standard output and
  standard error, and whether it is in the handler or has ended; of the environment, everything
  that was typed, what of it is still unread, and whether \<open>SIGIO\<close> is pending.\<close>

record cap =
  count_major_loop :: int
  count_signals_caught :: int
  count_characters_input :: int
  flag_quit :: bool
  stdout :: string
  stderr :: string
  in_handler :: bool
  ended :: bool
  arrived :: "item list"
  unread :: "item list"
  sigio :: bool

definition cap_start :: cap where
  "cap_start = \<lparr>count_major_loop = 0, count_signals_caught = 0, count_characters_input = 0, flag_quit = False,
     stdout = [], stderr = [], in_handler = False, ended = False, arrived = [], unread = [], sigio = False\<rparr>"

definition crlf :: string where "crlf = [CHR 0x0D, CHR 0x0A]"

section \<open>The handler\<close>

text \<open>The loop \<open>while(*something++) result++\<close> over a buffer; without a terminator it leaves
  the buffer.\<close>

fun length_loop :: "char list \<Rightarrow> nat \<Rightarrow> nat option" where
  "length_loop [] result = None"
| "length_loop (c # s) result = (if c = NUL then Some result else length_loop s (result + 1))"

definition length_of :: "char list \<Rightarrow> nat option" where
  "length_of something = length_loop something 0"

text \<open>\<open>write\<close> of a string literal with its \<open>length\<close>.\<close>

definition literal :: "string \<Rightarrow> string" where
  "literal s = (case length_of (s @ [NUL]) of None \<Rightarrow> [] | Some n \<Rightarrow> take n (s @ [NUL]))"

text \<open>The handler after it has counted the signal: with nothing to read \<open>select\<close> returns 0.\<close>

definition sig_io :: "'a cap_scheme \<Rightarrow> 'a cap_scheme" where
  "sig_io s = (case unread s of
     [] \<Rightarrow> s
   | Fails # rest \<Rightarrow> s\<lparr>unread := rest, stderr := stderr s @ literal (''got error'' @ crlf), flag_quit := True\<rparr>
   | Eof # rest \<Rightarrow> s\<lparr>unread := rest, stderr := stderr s @ literal (''got eof'' @ crlf), flag_quit := True\<rparr>
   | Byte c # rest \<Rightarrow>
       if c = CHR ''q'' then s\<lparr>unread := rest, stderr := stderr s @ literal (''got quit request'' @ crlf), flag_quit := True\<rparr>
       else s\<lparr>unread := rest, count_characters_input := count_characters_input s + 1,
         stdout := stdout s @ literal ''read character '' @ [c] @ literal crlf\<rparr>)"

definition counts_report :: "'a cap_scheme \<Rightarrow> string" where
  "counts_report s = ''major loop count: '' @ dec (count_major_loop s) @ crlf @
     ''signals caught  : '' @ dec (count_signals_caught s) @ crlf @
     ''characters input: '' @ dec (count_characters_input s) @ crlf"

section \<open>Steps\<close>

text \<open>The steps that both programs share. With \<open>paced\<close> the user waits with each input until
  the signal of the last has been handled.\<close>

inductive signal_step :: "bool \<Rightarrow> 'a cap_scheme \<Rightarrow> 'a cap_scheme \<Rightarrow> bool" for paced :: bool where
  arrives: "paced \<longrightarrow> \<not> sigio s \<and> \<not> in_handler s \<Longrightarrow>
    signal_step paced s (s\<lparr>arrived := arrived s @ [i], unread := unread s @ [i], sigio := True\<rparr>)"
| signalled: "sigio s \<Longrightarrow> \<not> in_handler s \<Longrightarrow> \<not> ended s \<Longrightarrow>
    signal_step paced s (s\<lparr>sigio := False, in_handler := True, count_signals_caught := count_signals_caught s + 1\<rparr>)"
| handles: "in_handler s \<Longrightarrow> signal_step paced s ((sig_io s)\<lparr>in_handler := False\<rparr>)"
| leaves: "\<not> in_handler s \<Longrightarrow> \<not> ended s \<Longrightarrow> flag_quit s \<Longrightarrow>
    signal_step paced s (s\<lparr>ended := True, stdout := stdout s @ counts_report s\<rparr>)"

definition idling :: "'a cap_scheme \<Rightarrow> bool" where
  "idling s \<longleftrightarrow> \<not> in_handler s \<and> \<not> ended s \<and> \<not> flag_quit s"

definition capture_round :: "'a cap_scheme \<Rightarrow> 'a cap_scheme" where
  "capture_round s = s\<lparr>count_major_loop := count_major_loop s + 1\<rparr>"

inductive capture_step :: "bool \<Rightarrow> cap \<Rightarrow> cap \<Rightarrow> bool" for paced :: bool where
  capture_signal: "signal_step paced s t \<Longrightarrow> capture_step paced s t"
| capture_loops: "idling s \<Longrightarrow> capture_step paced s (capture_round s)"

text \<open>\<open>capture2.cpp\<close> has the same handler and also remembers the time of the last second
  mark: when the clock has moved, its loop reads the clock again and prints a \<open>1\<close>. The clock
  is part of the environment and may move between the two readings.\<close>

record cap2 = cap +
  tick_tick :: int
  clock :: int

definition capture2_start :: "int \<Rightarrow> cap2" where
  "capture2_start t = cap.extend cap_start \<lparr>tick_tick = t, clock = t\<rparr>"



section \<open>Setting up\<close>

text \<open>Which of the calls that switch standard input to signals succeed; the message of the one that
  fails, after which the programs exit with 1, or the state in which the loop starts.\<close>

record io_calls =
  sigaction_ok :: bool
  setown_ok :: bool
  setfl_ok :: bool

definition capture_main :: "io_calls \<Rightarrow> string + cap" where
  "capture_main env = (if \<not> sigaction_ok env then Inl ''[ERROR]: sigaction error''
     else if \<not> setown_ok env then Inl ''[ERROR]: fcntl F_SETOWN error''
     else if \<not> setfl_ok env then Inl ''[ERROR]: fcntl error for O_NONBLOCK|O_ASYNC''
     else Inr cap_start)"

definition capture2_main :: "io_calls \<Rightarrow> int \<Rightarrow> string + cap2" where
  "capture2_main env now = (if \<not> sigaction_ok env then Inl ''[ERROR]: sigaction error''
     else if \<not> setown_ok env then Inl ''[ERROR]: fcntl F_SETOWN error''
     else if \<not> setfl_ok env then Inl ''[ERROR]: fcntl error for O_NONBLOCK|O_ASYNC''
     else Inr (capture2_start now))"

lemma mains_start: "(\<exists>e. capture_main env = Inl e \<and> capture2_main env now = Inl e) \<or>
    capture_main env = Inr cap_start \<and> capture2_main env now = Inr (capture2_start now)"
  by (simp add: capture_main_def capture2_main_def)

section \<open>What the handler does with an item\<close>

lemma length_loop_at: "nul_free s \<Longrightarrow> length_loop (s @ NUL # rest) n = Some (n + length s)"
  by (induction s arbitrary: n) auto

lemma literal_is [simp]: "nul_free s \<Longrightarrow> literal s = s"
  using length_loop_at [of s "[]" 0] by (simp add: literal_def length_of_def)

lemma crlf_nul_free [simp]: "nul_free crlf"
  by (simp add: crlf_def NUL_def)

definition stops :: "item \<Rightarrow> bool" where
  "stops i \<longleftrightarrow> i = Byte CHR ''q'' \<or> i = Eof \<or> i = Fails"

definition echo :: "item \<Rightarrow> string" where
  "echo i = (case i of Byte c \<Rightarrow> if c = CHR ''q'' then [] else ''read character '' @ [c] @ crlf | _ \<Rightarrow> [])"

definition complaint :: "item \<Rightarrow> string" where
  "complaint i = (case i of Byte c \<Rightarrow> if c = CHR ''q'' then ''got quit request'' @ crlf else []
     | Eof \<Rightarrow> ''got eof'' @ crlf | Fails \<Rightarrow> ''got error'' @ crlf)"


lemma sig_io_item:
  "unread s = i # rest \<Longrightarrow> sig_io s = s\<lparr>unread := rest, stderr := stderr s @ complaint i,
     flag_quit := flag_quit s \<or> stops i, stdout := stdout s @ echo i,
     count_characters_input := count_characters_input s + of_bool (\<not> stops i)\<rparr>"
  by (cases i) (auto simp: sig_io_def complaint_def echo_def stops_def NUL_def)

section \<open>Every character is accounted for\<close>

lemma shuffles_snoc1: "zs \<in> shuffles xs ys \<Longrightarrow> zs @ [x] \<in> shuffles (xs @ [x]) ys"
  by (induction zs arbitrary: xs ys) (auto simp: Cons_in_shuffles_iff)


text \<open>The items \<open>hs\<close> handled so far have been printed, counted and complained about in their
  order, with \<open>m\<close> second marks in between; none is handled without a signal of its own, and
  no signal comes without an arrival.\<close>

definition accounts :: "nat \<Rightarrow> item list \<Rightarrow> 'a cap_scheme \<Rightarrow> bool" where
  "accounts m hs s \<longleftrightarrow> arrived s = hs @ unread s \<and>
     count_characters_input s = int (length (filter (\<lambda>i. \<not> stops i) hs)) \<and>
     flag_quit s = list_ex stops hs \<and> stderr s = concat (map complaint hs) \<and>
     (\<exists>ps \<in> shuffles (map echo hs) (replicate m ''1'').
       stdout s = concat ps @ (if ended s then counts_report s else [])) \<and>
     int (length hs) + of_bool (in_handler s) \<le> count_signals_caught s \<and>
     count_signals_caught s + of_bool (sigio s) \<le> int (length (arrived s)) \<and>
     (ended s \<longrightarrow> flag_quit s \<and> \<not> in_handler s)"

lemma counts_report_cong [simp]:
  "counts_report (s\<lparr>arrived := a\<rparr>) = counts_report s" "counts_report (s\<lparr>unread := u\<rparr>) = counts_report s"
  "counts_report (s\<lparr>sigio := b\<rparr>) = counts_report s" "counts_report (s\<lparr>ended := b\<rparr>) = counts_report s"
  "counts_report (s\<lparr>stdout := out\<rparr>) = counts_report s"
  by (simp_all add: counts_report_def)

lemma handler_finds: "accounts m hs s \<Longrightarrow> in_handler s \<Longrightarrow> unread s \<noteq> []"
  by (cases "sigio s") (auto simp: accounts_def)

lemma handled_one:
  assumes "accounts m hs s" "in_handler s" "unread s = i # rest"
  shows "accounts m (hs @ [i]) ((sig_io s)\<lparr>in_handler := False\<rparr>)"
proof -
  obtain ps where "ps \<in> shuffles (map echo hs) (replicate m ''1'')" "stdout s = concat ps"
    using assms by (auto simp: accounts_def split: if_splits)
  then have "\<exists>qs \<in> shuffles (map echo hs @ [echo i]) (replicate m ''1''). stdout s @ echo i = concat qs"
    using shuffles_snoc1 by (intro bexI [of _ "ps @ [echo i]"]) simp_all
  with assms show ?thesis by (auto simp: accounts_def sig_io_item)
qed

lemma accounts_signal_step: "signal_step paced s t \<Longrightarrow> accounts m hs s \<Longrightarrow> \<exists>hs. accounts m hs t"
proof (induction rule: signal_step.induct)
  case (arrives s i)
  then have "accounts m hs (s\<lparr>arrived := arrived s @ [i], unread := unread s @ [i], sigio := True\<rparr>)"
    by (cases "sigio s") (auto simp: accounts_def)
  then show ?case ..
next
  case (signalled s)
  then have "accounts m hs (s\<lparr>sigio := False, in_handler := True, count_signals_caught := count_signals_caught s + 1\<rparr>)"
    by (auto simp: accounts_def)
  then show ?case ..
next
  case (handles s)
  then obtain i rest where "unread s = i # rest" by (cases "unread s") (auto dest: handler_finds)
  with handled_one handles show ?case by blast
next
  case (leaves s)
  then have "accounts m hs (s\<lparr>ended := True, stdout := stdout s @ counts_report s\<rparr>)"
    by (auto simp: accounts_def)
  then show ?case ..
qed

lemma accounts_round: "accounts m hs s \<Longrightarrow> idling s \<Longrightarrow> accounts m hs (capture_round s)"
  by (auto simp: accounts_def capture_round_def idling_def)

lemma accounts_start: "accounts 0 [] cap_start"
  by (simp add: accounts_def cap_start_def)

lemma reach_at_start: "reach (\<lambda>s. s = a) step a"
  by (simp add: reach_init)





interpretation capture: safe_machine "\<lambda>s. s = cap_start" "capture_step paced" "\<lambda>s. \<exists>hs. accounts 0 hs s" for paced
proof unfold_locales
  fix s t :: cap
  assume "\<exists>hs. accounts 0 hs s" "capture_step paced s t"
  from this(2,1) show "\<exists>hs. accounts 0 hs t"
    by induction (use accounts_signal_step accounts_round in blast)+
qed (use accounts_start in blast)




section \<open>A signal for several characters\<close>

text \<open>With paced input, every item that is not yet handled has its signal.\<close>

definition kept_up :: "'a cap_scheme \<Rightarrow> bool" where
  "kept_up s \<longleftrightarrow> length (unread s) = of_bool (sigio s \<or> in_handler s) \<and> \<not> (sigio s \<and> in_handler s) \<and>
     count_signals_caught s + of_bool (sigio s) = int (length (arrived s))"

lemma kept_up_signal_step: "signal_step True s t \<Longrightarrow> kept_up s \<Longrightarrow> kept_up t"
proof (induction rule: signal_step.induct)
  case (handles s)
  then obtain i where "unread s = [i]" by (cases "unread s") (auto simp: kept_up_def)
  with handles show ?case by (auto simp: kept_up_def sig_io_item)
qed (auto simp: kept_up_def)

lemma kept_up_step: "capture_step True s t \<Longrightarrow> kept_up s \<Longrightarrow> kept_up t"
proof (induction rule: capture_step.induct)
  case (capture_signal s t)
  then show ?case by (rule kept_up_signal_step)
qed (simp add: kept_up_def capture_round_def)

interpretation paced: safe_machine "\<lambda>s. s = cap_start" "capture_step True" kept_up
  by unfold_locales (simp add: kept_up_def cap_start_def, rule kept_up_step)

text \<open>Steps in which nothing new is typed.\<close>

definition quiet_step :: "cap \<Rightarrow> cap \<Rightarrow> bool" where
  "quiet_step s t \<longleftrightarrow> capture_step False s t \<and> arrived t = arrived s"

inductive_cases capture_stepE: "capture_step paced s t"
inductive_cases signal_stepE: "signal_step paced s t"

lemma idle_stays:
  assumes "quiet_step\<^sup>*\<^sup>* s t" "\<not> sigio s" "\<not> in_handler s" "\<not> flag_quit s"
  shows "\<not> sigio t \<and> \<not> in_handler t \<and> \<not> flag_quit t"
  using assms
proof (induction rule: rtranclp_induct)
  case (step t u)
  then have "\<not> sigio t" "\<not> in_handler t" "\<not> flag_quit t" by simp_all
  with step(2) show ?case unfolding quiet_step_def
    by (auto elim!: capture_stepE signal_stepE simp: capture_round_def)
qed simp

lemma capture_next:
  "reach (\<lambda>s. s = cap_start) (capture_step False) s \<Longrightarrow> signal_step False s t \<Longrightarrow>
    reach (\<lambda>s. s = cap_start) (capture_step False) t"
  by (rule reach_step, assumption, rule capture_signal)

lemma aq_lost:
  "\<exists>s. reach (\<lambda>s. s = cap_start) (capture_step False) s \<and> arrived s = [Byte CHR ''a'', Byte CHR ''q''] \<and>
     \<not> sigio s \<and> \<not> in_handler s \<and> \<not> flag_quit s"
proof -
  let ?a = "Byte CHR ''a''" and ?q = "Byte CHR ''q''"
  let ?s1 = "cap_start\<lparr>arrived := arrived cap_start @ [?a], unread := unread cap_start @ [?a], sigio := True\<rparr>"
  let ?s2 = "?s1\<lparr>arrived := arrived ?s1 @ [?q], unread := unread ?s1 @ [?q], sigio := True\<rparr>"
  let ?s3 = "?s2\<lparr>sigio := False, in_handler := True, count_signals_caught := count_signals_caught ?s2 + 1\<rparr>"
  let ?s4 = "(sig_io ?s3)\<lparr>in_handler := False\<rparr>"
  have r1: "reach (\<lambda>s. s = cap_start) (capture_step False) ?s1"
    by (rule capture_next [OF reach_at_start], rule arrives) simp
  have r2: "reach (\<lambda>s. s = cap_start) (capture_step False) ?s2"
    by (rule capture_next [OF r1], rule arrives) simp
  have r3: "reach (\<lambda>s. s = cap_start) (capture_step False) ?s3"
    by (rule capture_next [OF r2], rule signalled) (simp_all add: cap_start_def)
  have "reach (\<lambda>s. s = cap_start) (capture_step False) ?s4"
    by (rule capture_next [OF r3], rule handles) simp
  moreover have "unread ?s3 = [?a, ?q]" by (simp add: cap_start_def)
  then have "sig_io ?s3 = ?s3\<lparr>unread := [?q], stderr := stderr ?s3 @ complaint ?a,
     flag_quit := flag_quit ?s3 \<or> stops ?a, stdout := stdout ?s3 @ echo ?a,
     count_characters_input := count_characters_input ?s3 + of_bool (\<not> stops ?a)\<rparr>" by (rule sig_io_item)
  ultimately show ?thesis
    by (intro exI [of _ ?s4]) (simp add: cap_start_def stops_def)
qed

text \<open>
  If each input waits until the signal of the last is handled, then whenever the handler is
  not due all input has been handled, one signal each, and the flag tells whether a quit came.
  Otherwise two characters can share one signal, of which the handler reads only the first: with
  \<open>a\<close> and \<open>q\<close> typed at once the program loops until more is typed.
\<close>
theorem quit_request_lost:
  assumes "reach (\<lambda>s. s = cap_start) (capture_step True) u" "\<not> sigio u" "\<not> in_handler u"
  shows "(unread u = [] \<and> count_signals_caught u = int (length (arrived u)) \<and>
      flag_quit u = list_ex stops (arrived u)) \<and>
    (\<exists>s. reach (\<lambda>s. s = cap_start) (capture_step False) s \<and> list_ex stops (arrived s) \<and>
      (\<forall>t. quiet_step\<^sup>*\<^sup>* s t \<longrightarrow> \<not> flag_quit t))"
proof
  from paced.reach_inv [OF assms(1)] assms(2,3)
  have k: "unread u = []" "count_signals_caught u = int (length (arrived u))" by (simp_all add: kept_up_def)
  from capture.reach_inv [OF assms(1)] k(1) have "flag_quit u = list_ex stops (arrived u)" by (auto simp: accounts_def)
  with k show "unread u = [] \<and> count_signals_caught u = int (length (arrived u)) \<and>
      flag_quit u = list_ex stops (arrived u)" by simp
  from aq_lost obtain s where s: "reach (\<lambda>s. s = cap_start) (capture_step False) s"
    "arrived s = [Byte CHR ''a'', Byte CHR ''q'']" "\<not> sigio s" "\<not> in_handler s" "\<not> flag_quit s" by blast
  then show "\<exists>s. reach (\<lambda>s. s = cap_start) (capture_step False) s \<and> list_ex stops (arrived s) \<and>
      (\<forall>t. quiet_step\<^sup>*\<^sup>* s t \<longrightarrow> \<not> flag_quit t)"
    using idle_stays [OF _ s(3-5)] by (intro exI [of _ s]) (simp add: stops_def)
qed

lemma quit_request_lost_witness: "flag_quit cap_start = list_ex stops (arrived cap_start)"
  using quit_request_lost [OF reach_at_start] by (simp add: cap_start_def)

end
