(* ===== verification/TellWait.thy ===== *)
theory TellWait imports Prelude
begin

text \<open>
  \<open>lib/tellwait.c\<close>: parent and child synchronise by \<open>SIGUSR1\<close> and \<open>SIGUSR2\<close>. The machine
  starts after \<open>TELL_WAIT\<close> and \<open>fork\<close>; each process then works through a list of calls of
  the module. Delivery of signals, the test of \<open>sigflag\<close> and \<open>sigsuspend\<close> are steps of their
  own.
\<close>

section \<open>State\<close>

datatype who = Parent | Child

fun other :: "who \<Rightarrow> who" where
  "other Parent = Child"
| "other Child = Parent"

datatype usr = SIGUSR1 | SIGUSR2

instantiation usr :: enum
begin

definition enum_usr :: "usr list" where "enum_usr = [SIGUSR1, SIGUSR2]"
definition enum_all_usr :: "(usr \<Rightarrow> bool) \<Rightarrow> bool" where "enum_all_usr P \<longleftrightarrow> P SIGUSR1 \<and> P SIGUSR2"
definition enum_ex_usr :: "(usr \<Rightarrow> bool) \<Rightarrow> bool" where "enum_ex_usr P \<longleftrightarrow> P SIGUSR1 \<or> P SIGUSR2"

instance
proof
  have "x \<in> {SIGUSR1, SIGUSR2}" for x by (cases x) simp_all
  then have u: "(UNIV :: usr set) = {SIGUSR1, SIGUSR2}" by blast
  show "(UNIV :: usr set) = set enum_class.enum" by (simp add: u enum_usr_def)
  show "distinct (enum_class.enum :: usr list)" by (simp add: enum_usr_def)
  show "enum_class.enum_all P \<longleftrightarrow> Ball UNIV P" for P :: "usr \<Rightarrow> bool" by (simp add: u enum_all_usr_def)
  show "enum_class.enum_ex P \<longleftrightarrow> Bex UNIV P" for P :: "usr \<Rightarrow> bool" by (simp add: u enum_ex_usr_def)
qed

end

text \<open>The calls: \<open>TELL_PARENT\<close> or \<open>TELL_CHILD\<close>, and \<open>WAIT_PARENT\<close> or \<open>WAIT_CHILD\<close>.\<close>

datatype call = Tell | Wait

text \<open>Inside a wait: before the test of \<open>sigflag\<close>, before \<open>sigsuspend\<close>, in it, before the
  flag is cleared, and before the mask is restored.\<close>

datatype place = Running | Testing | Suspending | Suspended | Resetting | Restoring

text \<open>\<open>masked\<close> says that both signals are in the process's mask; \<open>told\<close> and \<open>waited\<close> count its
  completed calls.\<close>

record process =
  place :: place
  todo :: "call list"
  sigflag :: bool
  masked :: bool
  pending :: "usr set"
  told :: nat
  waited :: nat

text \<open>\<open>TELL_WAIT\<close> blocks both signals; \<open>fork\<close> copies the mask and the flag, and the child
  starts with nothing pending.\<close>

definition after_TELL_WAIT :: "call list \<Rightarrow> process" where
  "after_TELL_WAIT calls = \<lparr>place = Running, todo = calls, sigflag = False, masked = True, pending = {},
     told = 0, waited = 0\<rparr>"

definition forked :: "(who \<Rightarrow> call list) \<Rightarrow> who \<Rightarrow> process" where
  "forked calls = (\<lambda>p. after_TELL_WAIT (calls p))"

section \<open>Steps\<close>

text \<open>\<open>TELL_CHILD\<close> sends \<open>SIGUSR1\<close> and \<open>TELL_PARENT\<close> sends \<open>SIGUSR2\<close>.\<close>

fun tells_with :: "who \<Rightarrow> usr" where
  "tells_with Parent = SIGUSR1"
| "tells_with Child = SIGUSR2"

definition TELL :: "who \<Rightarrow> (who \<Rightarrow> process) \<Rightarrow> who \<Rightarrow> process" where
  "TELL p s = s(p := (s p)\<lparr>todo := tl (todo (s p)), told := told (s p) + 1\<rparr>,
     other p := (s (other p))\<lparr>pending := insert (tells_with p) (pending (s (other p)))\<rparr>)"

text \<open>The handler, and the return of \<open>sigsuspend\<close>, after which the old mask is back.\<close>

definition sig_usr :: "usr \<Rightarrow> process \<Rightarrow> process" where
  "sig_usr x q = q\<lparr>pending := pending q - {x}, sigflag := True,
     place := if place q = Suspended then Testing else place q\<rparr>"

text \<open>The steps of a wait; \<open>keep\<close> says whether the mask before \<open>TELL_WAIT\<close> blocked the
  signals.\<close>

definition WAIT_step :: "bool \<Rightarrow> process \<Rightarrow> process" where
  "WAIT_step keep q = (case place q of
     Running \<Rightarrow> q\<lparr>place := Testing\<rparr>
   | Testing \<Rightarrow> q\<lparr>place := if sigflag q then Resetting else Suspending\<rparr>
   | Suspending \<Rightarrow> q\<lparr>place := Suspended\<rparr>
   | Suspended \<Rightarrow> q
   | Resetting \<Rightarrow> q\<lparr>sigflag := False, place := Restoring\<rparr>
   | Restoring \<Rightarrow> q\<lparr>masked := keep, place := Running, todo := tl (todo q), waited := waited q + 1\<rparr>)"

inductive tw_step :: "bool \<Rightarrow> (who \<Rightarrow> process) \<Rightarrow> (who \<Rightarrow> process) \<Rightarrow> bool" for keep :: bool where
  tells: "place (s p) = Running \<Longrightarrow> todo (s p) = Tell # rest \<Longrightarrow> tw_step keep s (TELL p s)"
| delivered: "x \<in> pending (s p) \<Longrightarrow> \<not> masked (s p) \<or> place (s p) = Suspended \<Longrightarrow>
    tw_step keep s (s(p := sig_usr x (s p)))"
| waits: "todo (s p) = Wait # rest \<Longrightarrow> place (s p) \<noteq> Suspended \<Longrightarrow>
    tw_step keep s (s(p := WAIT_step keep (s p)))"

inductive_cases tw_stepE: "tw_step keep s t"

section \<open>Waits do not outrun tells\<close>

text \<open>One process \<open>q\<close> whose partner, which tells it with \<open>x\<close>, has completed \<open>n\<close> tells. The last
  two conditions hold while both signals are masked.\<close>

definition in_step :: "usr \<Rightarrow> nat \<Rightarrow> process \<Rightarrow> bool" where
  "in_step x n q \<longleftrightarrow> pending q \<subseteq> {x} \<and>
     (place q \<noteq> Running \<longrightarrow> (\<exists>rest. todo q = Wait # rest)) \<and>
     (place q = Resetting \<longrightarrow> sigflag q) \<and>
     waited q + of_bool (place q = Restoring) + of_bool (sigflag q) + card (pending q) \<le> n \<and>
     (waited q = 0 \<longrightarrow> masked q) \<and>
     (masked q \<and> (place q = Suspending \<or> place q = Suspended) \<longrightarrow> \<not> sigflag q) \<and>
     (waited q = 0 \<and> place q \<noteq> Restoring \<and> 0 < n \<longrightarrow> sigflag q \<or> x \<in> pending q)"

definition tw_inv :: "(who \<Rightarrow> process) \<Rightarrow> bool" where
  "tw_inv s \<longleftrightarrow> (\<forall>p. in_step (tells_with (other p)) (told (s (other p))) (s p))"

lemma other_simps [simp]: "other (other p) = p" "other p \<noteq> p" "p \<noteq> other p"
  by (cases p; simp)+

lemma one_of_two: "q = p \<or> q = other p"
  by (cases p; cases q) simp_all

lemma in_step_pending: "in_step x n q \<Longrightarrow> pending q = {} \<or> pending q = {x}"
  by (auto simp: in_step_def)

lemma in_step_tell:
  "in_step x n q \<Longrightarrow> place q = Running \<Longrightarrow> in_step x n (q\<lparr>todo := l, told := m\<rparr>)"
  by (simp add: in_step_def)

lemma in_step_told: "in_step x n q \<Longrightarrow> in_step x (Suc n) (q\<lparr>pending := insert x (pending q)\<rparr>)"
proof -
  assume i: "in_step x n q"
  from in_step_pending [OF this] have c: "card (insert x (pending q)) \<le> Suc (card (pending q))" and
    p: "insert x (pending q) \<subseteq> {x}" by auto
  have "waited q + of_bool (place q = Restoring) + of_bool (sigflag q) + card (pending q) \<le> n"
    using i by (simp add: in_step_def)
  with c have "waited q + of_bool (place q = Restoring) + of_bool (sigflag q) + card (insert x (pending q)) \<le> Suc n"
    by linarith
  with i p show ?thesis by (simp add: in_step_def)
qed

lemma in_step_delivered:
  "in_step x n q \<Longrightarrow> y \<in> pending q \<Longrightarrow> \<not> masked q \<or> place q = Suspended \<Longrightarrow> in_step x n (sig_usr y q)"
proof -
  assume i: "in_step x n q" and y: "y \<in> pending q" and m: "\<not> masked q \<or> place q = Suspended"
  from in_step_pending [OF i] y have e: "pending q = {x}" "y = x" by auto
  show ?thesis using i m unfolding in_step_def sig_usr_def e
    by (cases "place q"; cases "sigflag q") simp_all
qed

lemma in_step_wait:
  "in_step x n q \<Longrightarrow> todo q = Wait # rest \<Longrightarrow> in_step x n (WAIT_step keep q)"
  by (cases "place q") (auto simp: in_step_def WAIT_step_def)

lemma sig_usr_told [simp]: "told (sig_usr x q) = told q"
  by (simp add: sig_usr_def)

lemma WAIT_step_told [simp]: "told (WAIT_step keep q) = told q"
  by (simp add: WAIT_step_def split: place.split)

lemma tw_inv_update:
  "tw_inv s \<Longrightarrow> in_step (tells_with (other p)) (told (s (other p))) q \<Longrightarrow> told q = told (s p) \<Longrightarrow> tw_inv (s(p := q))"
  by (auto simp: tw_inv_def)

lemma tw_inv_step: "tw_step keep s t \<Longrightarrow> tw_inv s \<Longrightarrow> tw_inv t"
proof (induction rule: tw_step.induct)
  case (tells s p rest)
  let ?t = "TELL p s"
  have i: "in_step (tells_with (other q)) (told (s (other q))) (s q)" for q
    using tells(3) unfolding tw_inv_def by blast
  have "in_step (tells_with (other p)) (told (?t (other p))) (?t p)"
    using in_step_tell [OF i [of p] tells(1)] by (simp add: TELL_def)
  moreover have "in_step (tells_with (other (other p))) (told (?t (other (other p)))) (?t (other p))"
    using in_step_told [OF i [of "other p"]] by (simp add: TELL_def)
  ultimately have "in_step (tells_with (other q)) (told (?t (other q))) (?t q)" for q
    using one_of_two [of q p] by (elim disjE) simp_all
  then show ?case unfolding tw_inv_def by blast
next
  case (delivered x s p)
  then show ?case using in_step_delivered by (intro tw_inv_update) (auto simp: tw_inv_def)
next
  case (waits s p rest)
  then show ?case using in_step_wait by (intro tw_inv_update) (auto simp: tw_inv_def)
qed

interpretation tell_wait: safe_machine "\<lambda>s. s = forked calls" "tw_step keep" tw_inv for calls keep
  by unfold_locales (simp add: tw_inv_def in_step_def forked_def after_TELL_WAIT_def, rule tw_inv_step)

section \<open>No endless runs\<close>

definition effort :: "process \<Rightarrow> nat" where
  "effort q = 20 * length (todo q) + 5 * card (pending q) + (case place q of
     Running \<Rightarrow> 5 | Testing \<Rightarrow> 4 | Suspending \<Rightarrow> 3 | Suspended \<Rightarrow> 2 | Resetting \<Rightarrow> 3 | Restoring \<Rightarrow> 2)"

lemma effort_sig_usr: "x \<in> pending q \<Longrightarrow> effort (sig_usr x q) < effort q"
  using card_Suc_Diff1 [of "pending q" x]
  by (cases "place q") (simp_all add: effort_def sig_usr_def)

lemma effort_WAIT_step: "todo q = Wait # rest \<Longrightarrow> place q \<noteq> Suspended \<Longrightarrow> effort (WAIT_step keep q) < effort q"
  by (cases "place q") (simp_all add: effort_def WAIT_step_def)

lemma effort_told: "effort ((q :: process)\<lparr>pending := insert x (pending q)\<rparr>) \<le> effort q + 5"
  by (simp add: effort_def card_insert_if)

lemma effort_tell: "todo q = Tell # rest \<Longrightarrow> effort (q\<lparr>todo := rest, told := n\<rparr>) + 20 = effort q"
  by (simp add: effort_def)

lemma effort_both: "effort (s p) + effort (s (other p)) = effort (s Parent) + effort (s Child)"
  by (cases p) simp_all

lemma effort_step:
  "tw_step keep s t \<Longrightarrow> effort (t Parent) + effort (t Child) < effort (s Parent) + effort (s Child)"
proof (induction rule: tw_step.induct)
  case (tells s p rest)
  then have "effort (TELL p s p) + effort (TELL p s (other p)) < effort (s p) + effort (s (other p))"
    using effort_tell [OF tells(2), of "Suc (told (s p))"] effort_told [of "tells_with p" "s (other p)"]
    by (simp add: TELL_def)
  then show ?case by (simp add: effort_both)
next
  case (delivered x s p)
  then show ?case using effort_sig_usr [of x "s p"] by (cases p) simp_all
next
  case (waits s p rest)
  then show ?case using effort_WAIT_step [of "s p"] by (cases p) simp_all
qed

lemma effort_run:
  "(tw_step keep ^^ n) s t \<Longrightarrow> n + effort (t Parent) + effort (t Child) \<le> effort (s Parent) + effort (s Child)"
proof (induction n arbitrary: t)
  case (Suc n)
  then obtain u where "(tw_step keep ^^ n) s u" "tw_step keep u t" by auto
  with Suc.IH [OF this(1)] effort_step [OF this(2)] show ?case by linarith
qed simp

lemma first_wait_goes_on:
  assumes "tw_inv s" "waited (s p) = 0" "todo (s p) \<noteq> []" "0 < told (s (other p))"
  shows "\<exists>t. tw_step keep s t \<and> t p \<noteq> s p"
proof -
  from assms(1) have i: "in_step (tells_with (other p)) (told (s (other p))) (s p)" by (simp add: tw_inv_def)
  show ?thesis
  proof (cases "place (s p) = Suspended")
    case True
    with i assms(2,4) have *: "tells_with (other p) \<in> pending (s p)" by (auto simp: in_step_def)
    with effort_sig_usr [OF this] have "sig_usr (tells_with (other p)) (s p) \<noteq> s p" by auto
    with delivered [of "tells_with (other p)" s p keep] * True show ?thesis by (metis fun_upd_same)
  next
    case False
    from assms(3) obtain c rest where t: "todo (s p) = c # rest" by (cases "todo (s p)") auto
    show ?thesis
    proof (cases c)
      case Tell
      with i t have "place (s p) = Running" by (auto simp: in_step_def)
      moreover have "told (TELL p s p) \<noteq> told (s p)" by (simp add: TELL_def)
      ultimately show ?thesis using tells [of s p rest keep] t Tell by metis
    next
      case Wait
      with t False have "WAIT_step keep (s p) \<noteq> s p" using effort_WAIT_step [of "s p" rest keep] by auto
      with waits [of s p rest keep] t Wait False show ?thesis by (metis fun_upd_same)
    qed
  qed
qed

text \<open>
  No wait returns before the other process's tell; whatever calls the two processes make,
  they take no more than 20 steps a call and ten more; and a process that has been told never
  stays in its first wait: it can go on itself.
\<close>
lemma tell_wait_first_round:
  assumes "reach (\<lambda>s. s = forked calls) (tw_step keep) s"
  shows "waited (s p) \<le> told (s (other p)) \<and>
    (\<forall>n t. (tw_step keep ^^ n) (forked calls) t \<longrightarrow> n \<le> 20 * (length (calls Parent) + length (calls Child)) + 10) \<and>
    (waited (s p) = 0 \<and> todo (s p) \<noteq> [] \<and> 0 < told (s (other p)) \<longrightarrow>
      (\<exists>t. tw_step keep s t \<and> t p \<noteq> s p))"
proof (intro conjI allI impI)
  from tell_wait.reach_inv [OF assms] have i: "tw_inv s" .
  then show "waited (s p) \<le> told (s (other p))" unfolding tw_inv_def in_step_def
    by (metis add.assoc add_leD1)
  show "n \<le> 20 * (length (calls Parent) + length (calls Child)) + 10" if "(tw_step keep ^^ n) (forked calls) t" for n t
    using effort_run [OF that] by (simp add: forked_def after_TELL_WAIT_def effort_def)
  show "\<exists>t. tw_step keep s t \<and> t p \<noteq> s p" if "waited (s p) = 0 \<and> todo (s p) \<noteq> [] \<and> 0 < told (s (other p))"
    using first_wait_goes_on [OF i] that by blast
qed

section \<open>A second wait can miss its tell\<close>

text \<open>Runs by name: a step of the calls of a process, or a delivery.\<close>

datatype act = Turn who | Signal who

definition act :: "bool \<Rightarrow> act \<Rightarrow> (who \<Rightarrow> process) \<Rightarrow> (who \<Rightarrow> process) option" where
  "act keep a s = (case a of
     Turn p \<Rightarrow> (case todo (s p) of [] \<Rightarrow> None
       | Tell # rest \<Rightarrow> if place (s p) = Running then Some (TELL p s) else None
       | Wait # rest \<Rightarrow> if place (s p) = Suspended then None else Some (s(p := WAIT_step keep (s p))))
   | Signal p \<Rightarrow> if tells_with (other p) \<in> pending (s p) \<and> (\<not> masked (s p) \<or> place (s p) = Suspended)
       then Some (s(p := sig_usr (tells_with (other p)) (s p))) else None)"

fun acts :: "bool \<Rightarrow> act list \<Rightarrow> (who \<Rightarrow> process) \<Rightarrow> (who \<Rightarrow> process) option" where
  "acts keep [] s = Some s"
| "acts keep (a # as) s = (case act keep a s of None \<Rightarrow> None | Some t \<Rightarrow> acts keep as t)"

lemma act_step: "act keep a s = Some t \<Longrightarrow> tw_step keep s t"
  by (auto simp: act_def intro: tw_step.intros split: act.splits list.splits call.splits if_splits)

lemma acts_run: "acts keep as s = Some t \<Longrightarrow> (tw_step keep)\<^sup>*\<^sup>* s t"
proof (induction as arbitrary: s)
  case (Cons a as)
  then show ?case using act_step [of keep a s] by (auto split: option.splits intro: converse_rtranclp_into_rtranclp)
qed simp

definition ping_pong :: "who \<Rightarrow> call list" where
  "ping_pong p = (case p of Parent \<Rightarrow> [Wait, Tell, Wait] | Child \<Rightarrow> [Tell, Wait, Tell])"

definition unlucky :: "act list" where
  "unlucky = [Turn Child] @ replicate 3 (Turn Parent) @ [Signal Parent] @ replicate 3 (Turn Parent) @ [Turn Parent] @
     replicate 3 (Turn Child) @ [Signal Child] @ replicate 3 (Turn Child) @
     replicate 2 (Turn Parent) @ [Turn Child, Signal Parent, Turn Parent]"

definition missed :: "who \<Rightarrow> process" where
  "missed p = (case p of
     Parent \<Rightarrow> \<lparr>place = Suspended, todo = [Wait], sigflag = True, masked = False, pending = {}, told = 1, waited = 1\<rparr>
   | Child \<Rightarrow> \<lparr>place = Running, todo = [], sigflag = False, masked = False, pending = {}, told = 2, waited = 1\<rparr>)"

lemma case_who_upd [simp]: "(case_who a b)(Parent := x) = case_who x b" "(case_who a b)(Child := x) = case_who a x"
  by (auto split: who.split)

lemma unlucky_run: "acts False unlucky (forked ping_pong) = Some missed"
proof -
  have f: "forked ping_pong = case_who (after_TELL_WAIT [Wait, Tell, Wait]) (after_TELL_WAIT [Tell, Wait, Tell])"
    by (auto simp: forked_def ping_pong_def split: who.split)
  have m: "missed = case_who
     \<lparr>place = Suspended, todo = [Wait], sigflag = True, masked = False, pending = {}, told = 1, waited = 1\<rparr>
     \<lparr>place = Running, todo = [], sigflag = False, masked = False, pending = {}, told = 2, waited = 1\<rparr>"
    by (auto simp: missed_def split: who.split)
  show ?thesis unfolding f m
    by (simp add: unlucky_def numeral_eq_Suc act_def TELL_def WAIT_step_def sig_usr_def after_TELL_WAIT_def)
qed

lemma missed_stuck: "\<not> tw_step keep missed t"
proof
  assume "tw_step keep missed t"
  then show False
  proof cases
    case (tells p rest)
    then show False by (cases p) (simp_all add: missed_def)
  next
    case (delivered x p)
    then show False by (cases p) (simp_all add: missed_def)
  next
    case (waits p rest)
    then show False by (cases p) (simp_all add: missed_def)
  qed
qed

text \<open>
  Waiting restores the mask that \<open>TELL_WAIT\<close> saved, which does not block the signals as a
  rule, so the module serves one round: in a second one the signal can arrive after the test of
  \<open>sigflag\<close> and before \<open>sigsuspend\<close>, which then never returns although the tell was made.
\<close>
lemma tell_wait_second_round:
  "\<exists>s. reach (\<lambda>s. s = forked ping_pong) (tw_step False) s \<and> (\<forall>t. \<not> tw_step False s t) \<and>
     place (s Parent) = Suspended \<and> waited (s Parent) < told (s Child) \<and> todo (s Child) = []"
proof -
  have "reach (\<lambda>s. s = forked ping_pong) (tw_step False) missed"
    by (rule reach_trans [OF acts_run [OF unlucky_run]]) (simp add: reach_init)
  then show ?thesis using missed_stuck [of False] by (intro exI [of _ missed]) (simp add: missed_def)
qed

text \<open>
  C20. In the first round of an exchange the module synchronises: no wait returns before the other
  process's tell, all runs are finite, and a process that has been told does not stay in its first
  wait. It serves no second round: waiting restores the mask from before \<open>TELL_WAIT\<close>, so that
  a tell can come between the test of \<open>sigflag\<close> and \<open>sigsuspend\<close>, which then never returns.
\<close>
theorem tell_wait_one_round:
  assumes "reach (\<lambda>s. s = forked calls) (tw_step keep) s"
  shows "waited (s p) \<le> told (s (other p)) \<and>
    (\<forall>n t. (tw_step keep ^^ n) (forked calls) t \<longrightarrow> n \<le> 20 * (length (calls Parent) + length (calls Child)) + 10) \<and>
    (waited (s p) = 0 \<and> todo (s p) \<noteq> [] \<and> 0 < told (s (other p)) \<longrightarrow> (\<exists>t. tw_step keep s t \<and> t p \<noteq> s p)) \<and>
    (\<exists>u. reach (\<lambda>s. s = forked ping_pong) (tw_step False) u \<and> (\<forall>t. \<not> tw_step False u t) \<and>
      place (u Parent) = Suspended \<and> waited (u Parent) < told (u Child) \<and> todo (u Child) = [])"
  using tell_wait_first_round [OF assms, of p] tell_wait_second_round by blast

lemma tell_wait_one_round_witness:
  "waited (forked (\<lambda>p. [Wait]) Parent) \<le> told (forked (\<lambda>p. [Wait]) Child)"
proof -
  have "reach (\<lambda>s. s = forked (\<lambda>p. [Wait])) (tw_step True) (forked (\<lambda>p. [Wait]))" by (simp add: reach_init)
  from tell_wait_one_round [OF this, of Parent, THEN conjunct1] show ?thesis by simp
qed

end
