(* ===== verification/Signals.thy ===== *)
theory Signals imports CString
begin

text \<open>
  Signals in the library: \<open>lib/signal.c\<close>, \<open>signalintr.c\<close>, \<open>sleep.c\<close>, \<open>sleepus.c\<close>,
  \<open>prmask.c\<close> and \<open>prexit.c\<close>. Numbers of signals, flags and the layout of a wait status are
  those of Linux.
\<close>

unbundle bit_operations_syntax

section \<open>Signal state of a process\<close>

abbreviation (input) SIGINT :: int where "SIGINT \<equiv> 2"
abbreviation (input) SIGQUIT :: int where "SIGQUIT \<equiv> 3"
abbreviation (input) SIGKILL :: int where "SIGKILL \<equiv> 9"
abbreviation (input) SIGUSR1 :: int where "SIGUSR1 \<equiv> 10"
abbreviation (input) SIGALRM :: int where "SIGALRM \<equiv> 14"
abbreviation (input) SIGSTOP :: int where "SIGSTOP \<equiv> 19"

definition SA_RESTART :: "32 word" where "SA_RESTART = 0x10000000"
definition SA_INTERRUPT :: "32 word" where "SA_INTERRUPT = 0x20000000"

text \<open>A disposition; a caught signal has a function, here by name.\<close>

datatype sigfunc = SIG_DFL | SIG_IGN | SIG_ERR | Catch string

record sigaction =
  sa_handler :: sigfunc
  sa_mask :: "int set"
  sa_flags :: "32 word"

record sigs =
  actions :: "int \<Rightarrow> sigaction"
  sigmask :: "int set"
  alarm_in :: "nat option"
  errno :: int

text \<open>\<open>sigaction\<close>: the old action, or \<open>EINVAL\<close> for a number that is no signal or cannot be
  caught.\<close>

definition sigaction_ok :: "int \<Rightarrow> bool" where
  "sigaction_ok signo \<longleftrightarrow> 1 \<le> signo \<and> signo \<le> 64 \<and> signo \<noteq> SIGKILL \<and> signo \<noteq> SIGSTOP"

definition set_action :: "int \<Rightarrow> sigaction \<Rightarrow> sigs \<Rightarrow> sigaction option \<times> sigs" where
  "set_action signo act s = (if sigaction_ok signo
     then (Some (actions s signo), s\<lparr>actions := (actions s)(signo := act)\<rparr>)
     else (None, s\<lparr>errno := EINVAL\<rparr>))"

section \<open>signal and signal_intr\<close>

definition signal :: "int \<Rightarrow> sigfunc \<Rightarrow> sigs \<Rightarrow> sigfunc \<times> sigs" where
  "signal signo func s =
     (let flags = (if signo = SIGALRM then 0 OR SA_INTERRUPT else 0 OR SA_RESTART);
          act = \<lparr>sa_handler = func, sa_mask = {}, sa_flags = flags\<rparr>
      in case set_action signo act s of (None, s) \<Rightarrow> (SIG_ERR, s) | (Some oact, s) \<Rightarrow> (sa_handler oact, s))"

definition signal_intr :: "int \<Rightarrow> sigfunc \<Rightarrow> sigs \<Rightarrow> sigfunc \<times> sigs" where
  "signal_intr signo func s =
     (let act = \<lparr>sa_handler = func, sa_mask = {}, sa_flags = 0 OR SA_INTERRUPT\<rparr>
      in case set_action signo act s of (None, s) \<Rightarrow> (SIG_ERR, s) | (Some oact, s) \<Rightarrow> (sa_handler oact, s))"

text \<open>Whether a slow system call that the signal interrupts is started again.\<close>

definition restarts :: "int \<Rightarrow> sigs \<Rightarrow> bool" where
  "restarts signo s \<longleftrightarrow> sa_flags (actions s signo) AND SA_RESTART \<noteq> 0"

section \<open>sleep and sleep_us\<close>

text \<open>\<open>alarm\<close>: the seconds left of the previous alarm; 0 seconds cancel it.\<close>

definition alarm :: "32 word \<Rightarrow> sigs \<Rightarrow> 32 word \<times> sigs" where
  "alarm seconds s = ((case alarm_in s of None \<Rightarrow> 0 | Some k \<Rightarrow> word_of_nat k),
     s\<lparr>alarm_in := if seconds = 0 then None else Some (unat seconds)\<rparr>)"

text \<open>\<open>sigsuspend\<close> with \<open>SIGALRM\<close> unblocked, where \<open>other\<close> is the time until some other
  signal is caught: when it returns, and the alarm that is left then.\<close>

definition sigsuspend :: "nat option \<Rightarrow> sigs \<Rightarrow> (nat \<times> sigs) option" where
  "sigsuspend other s = (case (alarm_in s, other) of
     (None, None) \<Rightarrow> None
   | (Some a, None) \<Rightarrow> Some (a, s\<lparr>alarm_in := None\<rparr>)
   | (None, Some t) \<Rightarrow> Some (t, s)
   | (Some a, Some t) \<Rightarrow> if a \<le> t then Some (a, s\<lparr>alarm_in := None\<rparr>) else Some (t, s\<lparr>alarm_in := Some (a - t)\<rparr>))"

text \<open>The result is what \<open>sleep\<close> returns, the time it took, and the new state; \<open>None\<close> when it
  never returns.\<close>

definition sleep :: "nat option \<Rightarrow> 32 word \<Rightarrow> sigs \<Rightarrow> (32 word \<times> nat \<times> sigs) option" where
  "sleep other seconds s =
     (let newact = \<lparr>sa_handler = Catch ''sig_alrm'', sa_mask = {}, sa_flags = 0\<rparr>;
          (oldact, s) = set_action SIGALRM newact s;
          oldmask = sigmask s;
          s = s\<lparr>sigmask := oldmask \<union> {SIGALRM}\<rparr>;
          (_, s) = alarm seconds s;
          suspmask = oldmask - {SIGALRM}
      in case sigsuspend other (s\<lparr>sigmask := suspmask\<rparr>) of
         None \<Rightarrow> None
       | Some (t, s) \<Rightarrow>
           (let s = s\<lparr>sigmask := oldmask \<union> {SIGALRM}\<rparr>;
                (unslept, s) = alarm 0 s;
                (_, s) = set_action SIGALRM (case oldact of Some a \<Rightarrow> a | None \<Rightarrow> newact) s;
                s = s\<lparr>sigmask := oldmask\<rparr>
            in Some (unslept, t, s)))"

definition sleep_us :: "32 word \<Rightarrow> 32 word \<times> 32 word" where
  "sleep_us nusecs = (nusecs div 1000000, nusecs mod 1000000)"

section \<open>pr_mask and pr_exit\<close>

text \<open>The signals of the mask that \<open>pr_mask\<close> knows, after its argument.\<close>

definition pr_mask :: "string \<Rightarrow> sigs \<Rightarrow> string" where
  "pr_mask str s = str @ (if SIGINT \<in> sigmask s then '' SIGINT'' else []) @
     (if SIGQUIT \<in> sigmask s then '' SIGQUIT'' else []) @ (if SIGUSR1 \<in> sigmask s then '' SIGUSR1'' else []) @
     (if SIGALRM \<in> sigmask s then '' SIGALRM'' else []) @ [CHR 0x0A]"

definition WTERMSIG :: "32 word \<Rightarrow> 32 word" where "WTERMSIG status = status AND 0x7F"
definition WEXITSTATUS :: "32 word \<Rightarrow> 32 word" where "WEXITSTATUS status = drop_bit 8 (status AND 0xFF00)"
definition WIFEXITED :: "32 word \<Rightarrow> bool" where "WIFEXITED status \<longleftrightarrow> WTERMSIG status = 0"
definition WIFSTOPPED :: "32 word \<Rightarrow> bool" where "WIFSTOPPED status \<longleftrightarrow> status AND 0xFF = 0x7F"
definition WIFSIGNALED :: "32 word \<Rightarrow> bool" where
  "WIFSIGNALED status \<longleftrightarrow> 0 < sint (ucast (WTERMSIG status + 1) :: 8 word) div 2"
definition WCOREDUMP :: "32 word \<Rightarrow> bool" where "WCOREDUMP status \<longleftrightarrow> status AND 0x80 \<noteq> 0"

definition pr_exit :: "32 word \<Rightarrow> string" where
  "pr_exit status =
     (if WIFEXITED status then ''normal termination, exit status = '' @ dec (sint (WEXITSTATUS status)) @ [CHR 0x0A]
      else if WIFSIGNALED status then ''abnormal termination, signal number = '' @ dec (sint (WTERMSIG status)) @
        (if WCOREDUMP status then '' (core file generated)'' else []) @ [CHR 0x0A]
      else if WIFSTOPPED status then ''child stopped, signal number = '' @ dec (sint (WEXITSTATUS status)) @ [CHR 0x0A]
      else [])"

section \<open>Wait statuses\<close>

text \<open>What \<open>wait\<close> stores: an exit status, a signal with or without a core dump, the signal of
  a stop, or that the process went on.\<close>

datatype fate = Exited nat | Killed nat bool | Stopped nat | Continued

fun wait_status :: "fate \<Rightarrow> nat" where
  "wait_status (Exited n) = 256 * (n mod 256)"
| "wait_status (Killed n core) = n + (if core then 128 else 0)"
| "wait_status (Stopped n) = 256 * n + 127"
| "wait_status Continued = 65535"

fun fate_ok :: "fate \<Rightarrow> bool" where
  "fate_ok (Exited n) \<longleftrightarrow> True"
| "fate_ok (Killed n core) \<longleftrightarrow> 1 \<le> n \<and> n \<le> 64"
| "fate_ok (Stopped n) \<longleftrightarrow> 1 \<le> n \<and> n \<le> 64"
| "fate_ok Continued \<longleftrightarrow> True"

fun told_of :: "fate \<Rightarrow> string" where
  "told_of (Exited n) = ''normal termination, exit status = '' @ dec (int (n mod 256)) @ [CHR 0x0A]"
| "told_of (Killed n core) = ''abnormal termination, signal number = '' @ dec (int n) @
     (if core then '' (core file generated)'' else []) @ [CHR 0x0A]"
| "told_of (Stopped n) = ''child stopped, signal number = '' @ dec (int n) @ [CHR 0x0A]"
| "told_of Continued = []"

lemma unat_take_bit: "unat (take_bit n w) = unat w mod 2 ^ n" for w :: "32 word"
  by (rule trans [OF unsigned_take_bit_eq take_bit_eq_mod])

lemma unat_WTERMSIG: "unat (WTERMSIG w) = unat w mod 128"
proof -
  have "WTERMSIG w = take_bit 7 w" unfolding WTERMSIG_def take_bit_eq_mask by (simp add: mask_eq_exp_minus_1)
  then show ?thesis using unat_take_bit [of 7 w] by simp
qed

lemma unat_WEXITSTATUS: "unat (WEXITSTATUS w) = unat w div 256 mod 256"
proof -
  have "(0xFF00 :: 32 word) = push_bit 8 (mask 8)" by (simp add: mask_eq_exp_minus_1)
  then have "WEXITSTATUS w = take_bit 8 (drop_bit 8 w)" unfolding WEXITSTATUS_def
    by (simp add: drop_bit_and take_bit_eq_mask mask_eq_exp_minus_1)
  moreover have "unat (drop_bit 8 w) = unat w div 256"
    by (rule trans [OF unat_drop_bit_eq]) (simp add: drop_bit_eq_div)
  ultimately show ?thesis using unat_take_bit [of 8 "drop_bit 8 w"] by simp
qed

lemma sint_small: "unat w < 2 ^ 31 \<Longrightarrow> sint w = int (unat w)" for w :: "32 word"
proof -
  assume a: "unat w < 2 ^ 31"
  then have "int (unat w) < int (2 ^ 31)" by (rule of_nat_less_iff [THEN iffD2])
  then have "uint w < 2 ^ 31" by simp
  then have "signed_take_bit 31 (uint w) = uint w"
    by (intro signed_take_bit_int_eq_self) (simp_all add: order_trans [OF _ uint_ge_0])
  then show ?thesis unfolding sint_uint by simp
qed

lemma WIFEXITED_iff: "WIFEXITED w \<longleftrightarrow> unat w mod 128 = 0"
  using unat_WTERMSIG [of w] unfolding WIFEXITED_def by (metis unat_eq_zero)

lemma WIFSTOPPED_iff: "WIFSTOPPED w \<longleftrightarrow> unat w mod 256 = 127"
proof -
  have e: "w AND 0xFF = take_bit 8 w" by (simp add: take_bit_eq_mask mask_eq_exp_minus_1)
  have "w AND 0xFF = 0x7F \<longleftrightarrow> unat (take_bit 8 w) = unat (0x7F :: 32 word)"
    unfolding e by (simp add: word_unat_eq_iff)
  then show ?thesis using unat_take_bit [of 8 w] by (simp add: WIFSTOPPED_def)
qed

lemma WCOREDUMP_iff: "WCOREDUMP w \<longleftrightarrow> odd (unat w div 128)"
proof -
  have "(0x80 :: 32 word) = push_bit 7 1" by simp
  then have "WCOREDUMP w \<longleftrightarrow> bit w 7"
    unfolding WCOREDUMP_def by (simp add: bit_iff_and_push_bit_not_eq_0)
  also have "\<dots> \<longleftrightarrow> bit (unat w) 7" by (simp add: bit_unsigned_iff)
  finally show ?thesis by (simp add: bit_iff_odd)
qed

lemma WIFSIGNALED_iff: "WIFSIGNALED w \<longleftrightarrow> unat w mod 128 \<noteq> 0 \<and> unat w mod 128 \<noteq> 127"
proof -
  define k where "k = unat w mod 128"
  have "k < 128" by (simp add: k_def)
  have "unat (WTERMSIG w + 1) = k + 1"
    using \<open>k < 128\<close> by (subst unat_plus_simple [THEN iffD1]) (simp_all add: unat_WTERMSIG k_def word_le_nat_alt unat_word_ariths)
  then have "(ucast (WTERMSIG w + 1) :: 8 word) = word_of_nat (k + 1)" by (metis of_nat_unat)
  moreover have "sint (word_of_nat (k + 1) :: 8 word) = (if k = 127 then - 128 else int k + 1)"
  proof -
    have "\<forall>k \<in> set [0..<128]. sint (word_of_nat (k + 1) :: 8 word) = (if k = 127 then - 128 else int k + 1)"
      by code_simp
    with \<open>k < 128\<close> show ?thesis by simp
  qed
  ultimately show ?thesis by (auto simp: WIFSIGNALED_def k_def)
qed

lemmas status_iffs = WIFEXITED_iff WIFSIGNALED_iff WIFSTOPPED_iff WCOREDUMP_iff

lemma sint_WEXITSTATUS: "sint (WEXITSTATUS w) = int (unat w div 256 mod 256)"
proof -
  have "unat (WEXITSTATUS w) < 256" by (simp add: unat_WEXITSTATUS)
  then have "unat (WEXITSTATUS w) < 2 ^ 31" by (rule less_trans) simp
  from sint_small [OF this] show ?thesis by (simp only: unat_WEXITSTATUS)
qed

lemma sint_WTERMSIG: "sint (WTERMSIG w) = int (unat w mod 128)"
proof -
  have "unat (WTERMSIG w) < 128" by (simp add: unat_WTERMSIG)
  then have "unat (WTERMSIG w) < 2 ^ 31" by (rule less_trans) simp
  from sint_small [OF this] show ?thesis by (simp only: unat_WTERMSIG)
qed

lemma wait_status_bound: "fate_ok f \<Longrightarrow> wait_status f < 2 ^ 32"
proof (cases f)
  case (Exited n)
  have "n mod 256 < 256" by simp
  with Exited show ?thesis by simp
qed simp_all

lemma unat_wait_status: "fate_ok f \<Longrightarrow> unat (word_of_nat (wait_status f) :: 32 word) = wait_status f"
  using wait_status_bound [of f] by (simp add: unsigned_of_nat take_bit_nat_eq_self)

lemma pr_exit_by:
  "pr_exit w = (let u = unat w in
     if u mod 128 = 0 then ''normal termination, exit status = '' @ dec (int (u div 256 mod 256)) @ [CHR 0x0A]
     else if u mod 128 \<noteq> 127 then ''abnormal termination, signal number = '' @ dec (int (u mod 128)) @
       (if odd (u div 128) then '' (core file generated)'' else []) @ [CHR 0x0A]
     else if u mod 256 = 127 then ''child stopped, signal number = '' @ dec (int (u div 256 mod 256)) @ [CHR 0x0A]
     else [])"
  by (simp only: pr_exit_def status_iffs sint_WEXITSTATUS sint_WTERMSIG Let_def) simp

text \<open>
  C40. \<open>pr_exit\<close> reads every wait status for what it is: the low eight bits of an exit status,
  the signal of a killed process and whether it dumped core, the signal of a stopped one; of a
  process that goes on it says nothing.
\<close>
theorem pr_exit_tells:
  assumes "fate_ok f"
  shows "pr_exit (word_of_nat (wait_status f)) = told_of f"
proof (cases f)
  case (Exited n)
  have w: "unat (word_of_nat (wait_status f) :: 32 word) = 256 * (n mod 256)"
    by (rule trans [OF unat_wait_status [OF assms]]) (simp add: Exited)
  have e: "256 * m = 128 * (2 * m)" for m :: nat by simp
  have "256 * (n mod 256) mod 128 = 0" by (subst e) (rule mod_mult_self1_is_0)
  moreover have "256 * (n mod 256) div 256 mod 256 = n mod 256" by simp
  ultimately show ?thesis unfolding pr_exit_by w Let_def unfolding Exited
    by (simp only: told_of.simps simp_thms if_True)
next
  case (Killed n core)
  with assms have n: "1 \<le> n" "n \<le> 64" by simp_all
  have w: "unat (word_of_nat (wait_status f) :: 32 word) = n + (if core then 128 else 0)"
    by (rule trans [OF unat_wait_status [OF assms]]) (simp add: Killed)
  have m: "(n + (if core then 128 else 0)) mod 128 = n" using n by (cases core) simp_all
  have d: "odd ((n + (if core then 128 else 0)) div 128) = core"
    using n div_add_self2 [of 128 n] by (cases core) (simp_all only: if_True if_False, simp_all)
  have k: "(n = 0) = False" "(n = 127) = False" using n by simp_all
  show ?thesis unfolding pr_exit_by w Let_def unfolding Killed told_of.simps m d k by simp
next
  case (Stopped n)
  have w: "unat (word_of_nat (wait_status f) :: 32 word) = 256 * n + 127"
    by (rule trans [OF unat_wait_status [OF assms]]) (simp add: Stopped)
  have "(127 + 128 * (2 * n)) mod 128 = 127" by (simp only: mod_mult_self2) simp
  moreover have "256 * n + 127 = 127 + 128 * (2 * n)" by simp
  ultimately have "(256 * n + 127) mod 128 = 127" by (simp only:)
  moreover have "(256 * n + 127) mod 256 = 127" "(256 * n + 127) div 256 mod 256 = n"
    using assms Stopped by simp_all
  ultimately show ?thesis unfolding pr_exit_by w Let_def unfolding Stopped told_of.simps
    by (simp only: simp_thms if_True if_False) simp
next
  case Continued
  have w: "unat (word_of_nat (wait_status f) :: 32 word) = 65535"
    by (rule trans [OF unat_wait_status [OF assms]]) (simp add: Continued)
  show ?thesis unfolding pr_exit_by w Let_def unfolding Continued by simp
qed

lemma pr_exit_tells_witness:
  "pr_exit 0x8B = ''abnormal termination, signal number = 11 (core file generated)'' @ [CHR 0x0A]"
proof -
  have "dec 11 = ''11''" by code_simp
  with pr_exit_tells [of "Killed 11 True"] show ?thesis by simp
qed

section \<open>The wrappers\<close>

text \<open>
  \<open>signal\<close> and \<open>signal_intr\<close> install a handler for the one signal and return the one
  before, which a second call puts back; only \<open>signal\<close>, and for other signals than
  \<open>SIGALRM\<close>, has interrupted calls started again. Numbers that cannot be caught give
  \<open>SIG_ERR\<close> and change nothing but \<open>errno\<close>.
\<close>
theorem signal_wrappers:
  "(case (if intr then signal_intr signo f s else signal signo f s) of (old, s') \<Rightarrow>
    if sigaction_ok signo then old = sa_handler (actions s signo) \<and> sa_handler (actions s' signo) = f \<and>
      restarts signo s' = (\<not> intr \<and> signo \<noteq> SIGALRM) \<and>
      s'\<lparr>actions := (actions s')(signo := actions s signo)\<rparr> = s \<and>
      sa_handler (actions (snd (signal signo old s')) signo) = old
    else old = SIG_ERR \<and> s' = s\<lparr>errno := EINVAL\<rparr>)"
  by (auto simp: signal_def signal_intr_def set_action_def restarts_def SA_RESTART_def SA_INTERRUPT_def Let_def)

text \<open>
  \<open>sleep\<close> returns after the given seconds with 0, or when another signal is caught before
  with the seconds that are left, and puts action and mask back as they were. It also removes an
  alarm that was set before, and for 0 seconds it waits for some other signal, if need be for
  ever. The two parts of \<open>sleep_us\<close> are the microseconds it is given.
\<close>
theorem sleep_returns:
  "sleep other seconds s = (case other of
       None \<Rightarrow> if seconds = 0 then None else Some (0, unat seconds, s\<lparr>alarm_in := None\<rparr>)
     | Some t \<Rightarrow> if seconds \<noteq> 0 \<and> unat seconds \<le> t then Some (0, unat seconds, s\<lparr>alarm_in := None\<rparr>)
         else Some (if seconds = 0 then 0 else seconds - word_of_nat t, t, s\<lparr>alarm_in := None\<rparr>)) \<and>
   (case sleep_us n of (tv_sec, tv_usec) \<Rightarrow> unat tv_sec * 1000000 + unat tv_usec = unat n \<and> tv_usec < 1000000)"
proof
  show "sleep other seconds s = (case other of
       None \<Rightarrow> if seconds = 0 then None else Some (0, unat seconds, s\<lparr>alarm_in := None\<rparr>)
     | Some t \<Rightarrow> if seconds \<noteq> 0 \<and> unat seconds \<le> t then Some (0, unat seconds, s\<lparr>alarm_in := None\<rparr>)
         else Some (if seconds = 0 then 0 else seconds - word_of_nat t, t, s\<lparr>alarm_in := None\<rparr>))"
    by (auto simp: sleep_def set_action_def sigaction_ok_def alarm_def sigsuspend_def Let_def of_nat_diff split: option.split)
  show "case sleep_us n of (tv_sec, tv_usec) \<Rightarrow> unat tv_sec * 1000000 + unat tv_usec = unat n \<and> tv_usec < 1000000"
    by (simp add: sleep_us_def unat_div_distrib unat_mod_distrib word_mod_less_divisor)
qed

end
