(* ===== verification/SockConn.thy ===== *)
theory SockConn imports FdTable CString
begin

text \<open>
  Connections by UNIX domain sockets: \<open>lib/servlisten.c\<close>, \<open>servaccept.c\<close>, \<open>cliconn.c\<close>,
  \<open>nspipe.c\<close> and \<open>spipe.c\<close>. A server listens at a path; a client binds a path of its own, by which the
  server learns its user; both share the file system. Names are not empty. Each system call can
  fail for reasons of the kernel with an errno that is a parameter, besides the failures that
  the state of the model causes.
\<close>

unbundle bit_operations_syntax

section \<open>Sockets and files\<close>


text \<open>A socket: the path it is bound to, and once it listens the paths of the clients that wait;
  an inode: the number of the socket of a socket file, its mode, owner and times.\<close>

record sock =
  addr :: string
  backlog :: "string list option"

record inode =
  socket_of :: "nat option"
  st_mode :: "32 word"
  st_uid :: int
  st_atime :: int
  st_ctime :: int
  st_mtime :: int

record system =
  files :: "string \<Rightarrow> inode option"
  socks :: "sock list"
  now :: int

text \<open>A process: its descriptors, process and user id, the mode of the files it creates, and
  \<open>errno\<close>.\<close>

record proc =
  fds :: "nat fdtable"
  pid :: nat
  uid :: int
  creates :: "32 word"
  errno :: int

section \<open>System calls\<close>






definition upd_sock :: "nat \<Rightarrow> (sock \<Rightarrow> sock) \<Rightarrow> system \<Rightarrow> system" where
  "upd_sock n f w = w\<lparr>socks := (socks w)[n := f (socks w ! n)]\<rparr>"








section \<open>The functions\<close>





text \<open>The client's own path, \<open>%s%05ld\<close> of \<open>CLI_PATH\<close> and the process id.\<close>

definition CLI_PATH :: string where "CLI_PATH = ''/var/tmp/''"
definition CLI_PERM :: "32 word" where "CLI_PERM = 0x1C0"

definition dec5 :: "nat \<Rightarrow> string" where
  "dec5 n = (let d = udec n in replicate (5 - length d) CHR ''0'' @ d)"

definition own_path :: "proc \<Rightarrow> string" where
  "own_path p = CLI_PATH @ dec5 (pid p)"


text \<open>\<open>serv_accept\<close>. Its buffer for the name comes from \<open>malloc(sizeof(un.sun_path + 1))\<close>, the
  size of a pointer: eight bytes, of which the allocator may make \<open>usable\<close> ones. The length that
  \<open>accept\<close> stores includes the terminator of the client's path and is 0 for a client without
  one.\<close>

definition mode_ok :: "32 word \<Rightarrow> bool" where
  "mode_ok m \<longleftrightarrow> \<not> (m AND (0x38 OR 0x07) \<noteq> 0 \<or> m AND 0x1C0 \<noteq> 0x1C0)"






section \<open>Names\<close>






lemma dec5_nul_free [simp]: "nul_free (dec5 n)"
  using nul_free_udec [of n] by (auto simp: dec5_def Let_def nul_free_def NUL_def)


lemma own_path_fds [simp]: "own_path (p\<lparr>fds := t\<rparr>) = own_path p"
  by (simp add: own_path_def)




section \<open>A connection is made\<close>


lemma upd_sock_socks [simp]: "socks (upd_sock n f w) = (socks w)[n := f (socks w ! n)]" "files (upd_sock n f w) = files w"
  "now (upd_sock n f w) = now w"
  by (simp_all add: upd_sock_def)





lemma CLI_PERM_ok [simp]: "mode_ok CLI_PERM"
  by (simp add: mode_ok_def CLI_PERM_def)





section \<open>A connection is not made\<close>







end
