(* ===== verification/Pty.thy ===== *)
theory Pty imports FdTable CString
begin

text \<open>
  Processes and their terminals: \<open>lib/ptyopen.c\<close>, \<open>ptyfork.c\<close> and \<open>daemonize.c\<close>, as
  compiled for Linux, over the table of descriptors. The answers of the system calls are
  parameters; a function that calls \<open>fork\<close> is followed in the process that sees the given
  result.
\<close>

section \<open>Descriptors\<close>

text \<open>What a descriptor refers to: master or slave of a pseudo terminal, \<open>/dev/null\<close>, or
  something else.\<close>

datatype dev = Master nat | Slave nat | DevNull | Elsewhere nat

definition close_fd :: "int \<Rightarrow> dev fdtable \<Rightarrow> dev fdtable" where
  "close_fd fd t = fst (fd_close fd t)"

definition dup2_to :: "int \<Rightarrow> int \<Rightarrow> dev fdtable \<Rightarrow> dev fdtable outcome" where
  "dup2_to old new t = (case fd_dup2 old new t of (t, r) \<Rightarrow> if r \<noteq> new then Exits 1 else Ret t)"

section \<open>ptym_open and ptys_open\<close>

record pty_answers =
  openpt_ok :: bool
  grantpt_ok :: bool
  unlockpt_ok :: bool
  ptsname :: "string option"
  pty_no :: nat
  slave_ok :: bool
  setsid_ok :: bool
  tcset_ok :: bool
  winsz_ok :: bool

text \<open>\<open>strncpy\<close> with the terminator written at the last place; sizes below 1 write before the
  buffer or without bound.\<close>

definition name_copy :: "char list \<Rightarrow> int \<Rightarrow> string \<Rightarrow> char list option" where
  "name_copy buf sz s = (if sz \<le> 0 then None else case strncpy buf 0 s (nat sz) of None \<Rightarrow> None
     | Some b \<Rightarrow> store b (nat sz - 1) NUL)"

text \<open>The descriptor or -1, the buffer of the name, and the descriptors.\<close>

definition ptym_open :: "pty_answers \<Rightarrow> char list \<Rightarrow> int \<Rightarrow> dev fdtable \<Rightarrow> (int \<times> char list \<times> dev fdtable) outcome" where
  "ptym_open a pts_name sz t =
     (if \<not> openpt_ok a then Ret (-1, pts_name, t)
      else let (t, fdm) = fd_alloc (Master (pty_no a)) t in
        if \<not> grantpt_ok a \<or> \<not> unlockpt_ok a then Ret (-1, pts_name, close_fd fdm t)
        else case ptsname a of None \<Rightarrow> Ret (-1, pts_name, close_fd fdm t)
        | Some ptr \<Rightarrow> (case name_copy pts_name sz ptr of None \<Rightarrow> Undef | Some b \<Rightarrow> Ret (fdm, b, t)))"

definition ptys_open :: "pty_answers \<Rightarrow> dev fdtable \<Rightarrow> int \<times> dev fdtable" where
  "ptys_open a t = (if \<not> slave_ok a then (-1, t)
     else case fd_alloc (Slave (pty_no a)) t of (t, fds) \<Rightarrow> (fds, t))"

section \<open>pty_fork\<close>

text \<open>The child, from \<open>setsid\<close> to its return of 0; \<open>termios\<close> and \<open>winsize\<close> say whether the
  caller gave them.\<close>

definition pty_child :: "pty_answers \<Rightarrow> bool \<Rightarrow> bool \<Rightarrow> int \<Rightarrow> dev fdtable \<Rightarrow> dev fdtable outcome" where
  "pty_child a termios winsize fdm t =
     (if \<not> setsid_ok a then Exits 1
      else case ptys_open a t of (fds, t) \<Rightarrow>
        if fds < 0 then Exits 1
        else let t = close_fd fdm t in
          if termios \<and> \<not> tcset_ok a then Exits 1
          else if winsize \<and> \<not> winsz_ok a then Exits 1
          else and_then (dup2_to fds STDIN_FILENO t) (\<lambda>t.
            and_then (dup2_to fds STDOUT_FILENO t) (\<lambda>t.
            and_then (dup2_to fds STDERR_FILENO t) (\<lambda>t.
              Ret (if fds \<noteq> STDIN_FILENO \<and> fds \<noteq> STDOUT_FILENO \<and> fds \<noteq> STDERR_FILENO then close_fd fds t else t)))))"

text \<open>The result: what it returns, the master's descriptor if it is stored, the caller's buffer
  for the name, and the descriptors. If no master can be opened, the message of \<open>err_sys\<close> prints
  the local buffer, which nobody has written.\<close>

definition pty_fork :: "pty_answers \<Rightarrow> int \<Rightarrow> (char list \<times> int) option \<Rightarrow> bool \<Rightarrow> bool \<Rightarrow> dev fdtable \<Rightarrow>
    (int \<times> int option \<times> char list \<times> dev fdtable) outcome" where
  "pty_fork a pid slave_name termios winsize t =
     and_then (ptym_open a (replicate 20 NUL) 20 t) (\<lambda>(fdm, pts_name, t).
       if fdm < 0 then Undef
       else case (case slave_name of None \<Rightarrow> Some [] | Some (buf, sz) \<Rightarrow> name_copy buf sz (c_str pts_name)) of
         None \<Rightarrow> Undef
       | Some name \<Rightarrow>
           if pid < 0 then Ret (-1, None, name, t)
           else if pid = 0 then and_then (pty_child a termios winsize fdm t) (\<lambda>t. Ret (0, None, name, t))
           else Ret (pid, Some fdm, name, t))"

section \<open>daemonize\<close>

record daemon =
  umask :: nat
  leader :: bool
  has_tty :: bool
  ignores_hup :: bool
  cwd :: string
  dfds :: "dev fdtable"

datatype rlimit = Limit nat | RLIM_INFINITY

record daemon_answers =
  getrlimit :: "rlimit option"
  sigaction_ok :: bool
  chdir_ok :: bool
  open_ok :: bool

definition rlim :: "rlimit \<Rightarrow> nat" where
  "rlim r = (case r of Limit n \<Rightarrow> n | RLIM_INFINITY \<Rightarrow> 1024)"

text \<open>The loop that closes descriptors \<open>i\<close>, \<open>i + 1\<close>, \<dots> below the limit.\<close>

fun close_below :: "nat \<Rightarrow> int \<Rightarrow> dev fdtable \<Rightarrow> dev fdtable" where
  "close_below 0 i t = t"
| "close_below (Suc n) i t = close_below n (i + 1) (close_fd i t)"

text \<open>\<open>fd0 = open("/dev/null", O_RDWR); fd1 = dup(0); fd2 = dup(0)\<close>\<close>

definition std_null :: "bool \<Rightarrow> dev fdtable \<Rightarrow> dev fdtable \<times> int \<times> int \<times> int" where
  "std_null okay t =
     (let (t, fd0) = (if okay then fd_alloc DevNull t else (t, -1));
          (t, fd1) = fd_dup 0 t; (t, fd2) = fd_dup 0 t
      in (t, fd0, fd1, fd2))"

definition daemonize :: "daemon_answers \<Rightarrow> int \<Rightarrow> int \<Rightarrow> daemon \<Rightarrow> daemon outcome" where
  "daemonize a fork1 fork2 p =
     (let p = p\<lparr>umask := 0\<rparr> in
      case getrlimit a of None \<Rightarrow> Exits 1
      | Some rl \<Rightarrow>
        if fork1 < 0 then Exits 1
        else if fork1 \<noteq> 0 then Exits 0
        else let p = p\<lparr>leader := True, has_tty := False\<rparr> in
          if \<not> sigaction_ok a then Exits 1
          else let p = p\<lparr>ignores_hup := True\<rparr> in
            if fork2 < 0 then Exits 1
            else if fork2 \<noteq> 0 then Exits 0
            else let p = p\<lparr>leader := False\<rparr> in
              if \<not> chdir_ok a then Exits 1
              else let p = p\<lparr>cwd := ''/''\<rparr>;
                   (t, fd0, fd1, fd2) = std_null (open_ok a) (close_below (rlim rl) 0 (dfds p))
                in if fd0 \<noteq> 0 \<or> fd1 \<noteq> 1 \<or> fd2 \<noteq> 2 then Exits 1 else Ret (p\<lparr>dfds := t\<rparr>))"

section \<open>Descriptors after the calls\<close>

lemma close_fd_get [simp]: "fd_get (close_fd fd t) k = (if k = fd then None else fd_get t k)"
  unfolding close_fd_def by (rule fd.close_get) (simp add: prod_eq_iff)

lemma dup2_to_Ret:
  "fd_get t old = Some x \<Longrightarrow> 0 \<le> new \<Longrightarrow>
    \<exists>u. dup2_to old new t = Ret u \<and> (\<forall>k. fd_get u k = (if k = new then Some x else fd_get t k))"
  by (simp add: dup2_to_def fd_dup2_def fd_get_set)

lemma close_below_get: "0 \<le> i \<Longrightarrow> fd_get (close_below n i t) k = (if i \<le> k \<and> k < i + int n then None else fd_get t k)"
  by (induction n i t rule: close_below.induct) auto

lemma copied_name:
  assumes "0 < n" "n \<le> length buf"
  shows "\<exists>rest. (take n s @ replicate (n - length s) NUL @ drop n buf)[n - 1 := NUL] = take (n - 1) s @ NUL # rest"
proof (cases "n \<le> length s")
  case True
  then have "take n s = take (n - 1) s @ [s ! (n - 1)]"
    using assms(1) take_Suc_conv_app_nth [of "n - 1" s] by simp
  with True assms show ?thesis by (simp add: list_update_append)
next
  case False
  then obtain m where m: "n = length s + Suc m" by (metis less_iff_Suc_add not_le add_Suc_right)
  let ?xs = "s @ replicate (Suc m) NUL @ drop n buf"
  have "?xs ! (n - 1) = NUL" unfolding m by (simp add: nth_append del: replicate_Suc)
  then have "?xs[n - 1 := NUL] = ?xs" by (metis list_update_id)
  then show ?thesis unfolding m by (auto simp: list_update_append)
qed

lemma name_copy_fits:
  assumes "nul_free s" "0 < sz" "nat sz \<le> length buf"
  shows "\<exists>b. name_copy buf sz s = Some b \<and> c_str b = take (nat sz - 1) s"
proof -
  define n where "n = nat sz"
  define src where "src = take n s @ replicate (n - length s) NUL"
  have n: "0 < n" "n \<le> length buf" "length src = n" using assms(2,3) by (simp_all add: n_def src_def)
  obtain rest where r: "(src @ drop n buf)[n - 1 := NUL] = take (n - 1) s @ NUL # rest"
    using copied_name [of n buf s] n unfolding src_def by auto
  have "blit buf 0 src = Some (src @ drop n buf)" using n by (simp add: blit_def)
  moreover have "store (src @ drop n buf) (n - 1) NUL = Some (take (n - 1) s @ NUL # rest)"
    using n store_Some [of "n - 1" "src @ drop n buf" NUL] r by simp
  ultimately have "name_copy buf sz s = Some (take (nat sz - 1) s @ NUL # rest)"
    using assms(2) unfolding name_copy_def strncpy_def src_def n_def by simp
  then show ?thesis using assms(1) by simp
qed

text \<open>The master, from the buffer of \<open>pty_fork\<close>.\<close>

lemma ptym_open_ok:
  assumes "openpt_ok a" "grantpt_ok a" "unlockpt_ok a" "ptsname a = Some s" "nul_free s"
    and "fd_alloc (Master (pty_no a)) t = (u, fdm)"
  shows "\<exists>b. ptym_open a (replicate 20 NUL) 20 t = Ret (fdm, b, u) \<and> c_str b = take 19 s"
  using name_copy_fits [OF assms(5), of 20 "replicate 20 NUL"] assms by (auto simp: ptym_open_def)

lemma pty_child_fds:
  assumes "setsid_ok a" "slave_ok a" "termios \<longrightarrow> tcset_ok a" "winsize \<longrightarrow> winsz_ok a"
    and "fd_alloc (Master (pty_no a)) t = (u, fdm)"
  shows "\<exists>v. pty_child a termios winsize fdm u = Ret v \<and>
    (\<forall>k. fd_get v k = (if 0 \<le> k \<and> k \<le> 2 then Some (Slave (pty_no a)) else fd_get t k))"
proof -
  obtain u1 fds where s: "fd_alloc (Slave (pty_no a)) u = (u1, fds)" by (cases "fd_alloc (Slave (pty_no a)) u")
  note m = fd.alloc_free [OF assms(5)] fd.alloc_get [OF assms(5)]
  note n = fd.alloc_free [OF s] fd.alloc_get [OF s]
  have ne: "fds \<noteq> fdm" using m n by auto
  let ?u2 = "close_fd fdm u1"
  have g: "fd_get ?u2 fds = Some (Slave (pty_no a))" using ne n by simp
  obtain v0 where v0: "dup2_to fds 0 ?u2 = Ret v0"
    "\<And>k. fd_get v0 k = (if k = 0 then Some (Slave (pty_no a)) else fd_get ?u2 k)"
    using dup2_to_Ret [OF g, of 0] by auto
  have "fd_get v0 fds = Some (Slave (pty_no a))" using v0(2) g by simp
  then obtain v1 where v1: "dup2_to fds 1 v0 = Ret v1"
    "\<And>k. fd_get v1 k = (if k = 1 then Some (Slave (pty_no a)) else fd_get v0 k)"
    using dup2_to_Ret [of v0 fds _ 1] by auto
  have "fd_get v1 fds = Some (Slave (pty_no a))" using v1(2) v0(2) g by simp
  then obtain v2 where v2: "dup2_to fds 2 v1 = Ret v2"
    "\<And>k. fd_get v2 k = (if k = 2 then Some (Slave (pty_no a)) else fd_get v1 k)"
    using dup2_to_Ret [of v1 fds _ 2] by auto
  let ?v = "if fds \<noteq> 0 \<and> fds \<noteq> 1 \<and> fds \<noteq> 2 then close_fd fds v2 else v2"
  have "pty_child a termios winsize fdm u = Ret ?v"
    using assms(1-4) n s v0(1) v1(1) v2(1) by (auto simp: pty_child_def ptys_open_def)
  moreover have "fd_get ?v k = (if 0 \<le> k \<and> k \<le> 2 then Some (Slave (pty_no a)) else fd_get t k)" for k
  proof (cases "0 \<le> k \<and> k \<le> 2")
    case True
    then have "k = 0 \<or> k = 1 \<or> k = 2" by linarith
    with True v0(2) v1(2) v2(2) show ?thesis by auto
  next
    case False
    then have "k \<noteq> 0" "k \<noteq> 1" "k \<noteq> 2" by auto
    then have "fd_get v2 k = fd_get ?u2 k" by (simp add: v0(2) v1(2) v2(2))
    with False m n ne show ?thesis by auto
  qed
  ultimately show ?thesis by blast
qed

text \<open>
  C22. Where all calls succeed, the child of \<open>pty_fork\<close> has the slave as its descriptors 0, 1 and
  2 and no other descriptor that it did not have before, not even the master, whatever was open;
  the parent has the master on one new descriptor and gets as much of the slave's name as fits
  into its buffer. When \<open>fork\<close> fails the master stays open.
\<close>
theorem pty_fork_descriptors:
  assumes "openpt_ok a" "grantpt_ok a" "unlockpt_ok a" "ptsname a = Some s" "nul_free s" "length s < 20"
    and "setsid_ok a" "slave_ok a" "tcset_ok a" "winsz_ok a"
    and "0 < pid" "0 < sz" "nat sz \<le> length buf"
  shows "\<exists>fdm name t1 t2. 0 \<le> fdm \<and> fd_get t fdm = None \<and> c_str name = take (nat sz - 1) s \<and>
    pty_fork a 0 (Some (buf, sz)) termios winsize t = Ret (0, None, name, t1) \<and>
    (\<forall>k. fd_get t1 k = (if 0 \<le> k \<and> k \<le> 2 then Some (Slave (pty_no a)) else fd_get t k)) \<and>
    pty_fork a pid (Some (buf, sz)) termios winsize t = Ret (pid, Some fdm, name, t2) \<and>
    pty_fork a (-1) (Some (buf, sz)) termios winsize t = Ret (-1, None, name, t2) \<and>
    (\<forall>k. fd_get t2 k = (if k = fdm then Some (Master (pty_no a)) else fd_get t k))"
proof -
  obtain u fdm where u: "fd_alloc (Master (pty_no a)) t = (u, fdm)" by (cases "fd_alloc (Master (pty_no a)) t")
  from ptym_open_ok [OF assms(1-5) u] assms(6) obtain b
    where b: "ptym_open a (replicate 20 NUL) 20 t = Ret (fdm, b, u)" "c_str b = s" by auto
  from name_copy_fits [OF assms(5,12,13)] obtain name
    where n: "name_copy buf sz s = Some name" "c_str name = take (nat sz - 1) s" by blast
  from pty_child_fds [OF assms(7,8) _ _ u, of termios winsize] assms(9,10) obtain v
    where v: "pty_child a termios winsize fdm u = Ret v"
      "\<forall>k. fd_get v k = (if 0 \<le> k \<and> k \<le> 2 then Some (Slave (pty_no a)) else fd_get t k)" by blast
  have m: "0 \<le> fdm" "fd_get t fdm = None" "\<forall>k. fd_get u k = (if k = fdm then Some (Master (pty_no a)) else fd_get t k)"
    using fd.alloc_free [OF u] fd.alloc_get [OF u] by auto
  have "pty_fork a 0 (Some (buf, sz)) termios winsize t = Ret (0, None, name, v)"
    "pty_fork a pid (Some (buf, sz)) termios winsize t = Ret (pid, Some fdm, name, u)"
    "pty_fork a (-1) (Some (buf, sz)) termios winsize t = Ret (-1, None, name, u)"
    using assms(11) m(1) by (simp_all add: pty_fork_def b n v)
  with m n v show ?thesis by blast
qed

definition pty_fine :: pty_answers where
  "pty_fine = \<lparr>openpt_ok = True, grantpt_ok = True, unlockpt_ok = True, ptsname = Some ''/dev/pts/3'', pty_no = 3,
     slave_ok = True, setsid_ok = True, tcset_ok = True, winsz_ok = True\<rparr>"

lemma pty_fork_descriptors_witness:
  "\<exists>name t1. pty_fork pty_fine 0 (Some (replicate 9 NUL, 9)) True True [Some (Elsewhere 0)] = Ret (0, None, name, t1) \<and>
     fd_get t1 0 = Some (Slave 3) \<and> c_str name = ''/dev/pts''"
proof -
  have "\<exists>fdm name t1 t2. 0 \<le> fdm \<and> fd_get [Some (Elsewhere 0)] fdm = None \<and> c_str name = take (nat 9 - 1) ''/dev/pts/3'' \<and>
    pty_fork pty_fine 0 (Some (replicate 9 NUL, 9)) True True [Some (Elsewhere 0)] = Ret (0, None, name, t1) \<and>
    (\<forall>k. fd_get t1 k = (if 0 \<le> k \<and> k \<le> 2 then Some (Slave (pty_no pty_fine)) else fd_get [Some (Elsewhere 0)] k)) \<and>
    pty_fork pty_fine 5 (Some (replicate 9 NUL, 9)) True True [Some (Elsewhere 0)] = Ret (5, Some fdm, name, t2) \<and>
    pty_fork pty_fine (-1) (Some (replicate 9 NUL, 9)) True True [Some (Elsewhere 0)] = Ret (-1, None, name, t2) \<and>
    (\<forall>k. fd_get t2 k = (if k = fdm then Some (Master (pty_no pty_fine)) else fd_get [Some (Elsewhere 0)] k))"
    by (rule pty_fork_descriptors) (simp_all add: pty_fine_def NUL_def)
  then obtain name t1 where "c_str name = take (nat 9 - 1) ''/dev/pts/3''"
    "pty_fork pty_fine 0 (Some (replicate 9 NUL, 9)) True True [Some (Elsewhere 0)] = Ret (0, None, name, t1)"
    "\<forall>k. fd_get t1 k = (if 0 \<le> k \<and> k \<le> 2 then Some (Slave (pty_no pty_fine)) else fd_get [Some (Elsewhere 0)] k)" by blast
  then show ?thesis by (intro exI [of _ name] exI [of _ t1]) (simp add: pty_fine_def)
qed

section \<open>A daemon\<close>

lemma fd_free_is:
  assumes "0 \<le> n" "\<And>k. 0 \<le> k \<Longrightarrow> k < n \<Longrightarrow> fd_get t k \<noteq> None" "fd_get t n = None"
  shows "fd_free t = n"
proof -
  have "\<not> n < fd_free t" using fd_get_below [of n t] assms(1,3) by blast
  moreover have "\<not> fd_free t < n" using assms(2) [of "fd_free t"] by auto
  ultimately show ?thesis by simp
qed

lemma fd_get_after_alloc: "fd_get (fst (fd_alloc x t)) k = (if k = fd_free t then Some x else fd_get t k)"
  by (simp add: fd_alloc_def fd_get_set)

lemma fd_alloc_pair: "fd_alloc x t = (fst (fd_alloc x t), fd_free t)"
  by (simp add: fd_alloc_def)

lemma std_null_ok:
  assumes "fd_get t 0 = None" "fd_get t 1 = None" "fd_get t 2 = None"
  shows "\<exists>v. std_null True t = (v, 0, 1, 2) \<and>
    (\<forall>k. fd_get v k = (if 0 \<le> k \<and> k \<le> 2 then Some DevNull else fd_get t k))"
proof -
  have f0: "fd_free t = 0" by (rule fd_free_is) (use assms in auto)
  define t1 where "t1 = fst (fd_alloc DevNull t)"
  have g1: "fd_get t1 k = (if k = 0 then Some DevNull else fd_get t k)" for k
    by (simp add: t1_def fd_get_after_alloc f0)
  have f1: "fd_free t1 = 1" by (rule fd_free_is) (use assms in \<open>auto simp: g1\<close>)
  define t2 where "t2 = fst (fd_alloc DevNull t1)"
  have g2: "fd_get t2 k = (if k = 1 then Some DevNull else fd_get t1 k)" for k
    by (simp add: t2_def fd_get_after_alloc f1)
  have f2: "fd_free t2 = 2"
  proof (rule fd_free_is)
    show "fd_get t2 k \<noteq> None" if "0 \<le> k" "k < 2" for k
      using that by (cases "k = 0"; cases "k = 1") (auto simp: g1 g2)
  qed (use assms in \<open>auto simp: g1 g2\<close>)
  define v where "v = fst (fd_alloc DevNull t2)"
  have g: "fd_get v k = (if k = 2 then Some DevNull else fd_get t2 k)" for k
    by (simp add: v_def fd_get_after_alloc f2)
  have a0: "fd_alloc DevNull t = (t1, 0)" using fd_alloc_pair [of DevNull t] unfolding t1_def [symmetric] f0 .
  have a1: "fd_alloc DevNull t1 = (t2, 1)" using fd_alloc_pair [of DevNull t1] unfolding t2_def [symmetric] f1 .
  have a2: "fd_alloc DevNull t2 = (v, 2)" using fd_alloc_pair [of DevNull t2] unfolding v_def [symmetric] f2 .
  have "std_null True t = (v, 0, 1, 2)"
    by (simp add: std_null_def a0 a1 a2 fd_dup_def g1 g2 Let_def)
  moreover have "fd_get v k = (if 0 \<le> k \<and> k \<le> 2 then Some DevNull else fd_get t k)" for k
    by (cases "k = 0"; cases "k = 1"; cases "k = 2") (auto simp: g g1 g2)
  ultimately show ?thesis by blast
qed

lemma std_null_fails: "fd_get t 0 = None \<Longrightarrow> std_null False t = (t, -1, -1, -1)"
  by (simp add: std_null_def fd_dup_def Let_def)

text \<open>
  The process that goes on after both forks is a daemon: no creation mask, not the leader of
  a session and without terminal, \<open>SIGHUP\<close> ignored, in the root directory, its descriptors 0,
  1 and 2 on \<open>/dev/null\<close> and every other one below the limit closed. Without \<open>/dev/null\<close> it
  exits with 1, and the two parents exit with 0.
\<close>
theorem daemonize_makes_daemon:
  assumes "getrlimit a = Some rl" "sigaction_ok a" "chdir_ok a" "3 \<le> rlim rl" "0 < pid"
  shows "(open_ok a \<longrightarrow> (\<exists>q. daemonize a 0 0 p = Ret q \<and> umask q = 0 \<and> \<not> leader q \<and> \<not> has_tty q \<and>
      ignores_hup q \<and> cwd q = ''/'' \<and>
      (\<forall>k. fd_get (dfds q) k = (if 0 \<le> k \<and> k \<le> 2 then Some DevNull
        else if k < int (rlim rl) then None else fd_get (dfds p) k)))) \<and>
    (\<not> open_ok a \<longrightarrow> daemonize a 0 0 p = Exits 1) \<and>
    daemonize a pid fork2 p = Exits 0 \<and> daemonize a 0 pid p = Exits 0"
proof (intro conjI impI)
  let ?t = "close_below (rlim rl) 0 (dfds p)"
  have g: "fd_get ?t k = (if 0 \<le> k \<and> k < int (rlim rl) then None else fd_get (dfds p) k)" for k
    using close_below_get [of 0 "rlim rl" "dfds p" k] by simp
  have n: "fd_get ?t 0 = None" "fd_get ?t 1 = None" "fd_get ?t 2 = None" using assms(4) by (simp_all add: g)
  show "\<exists>q. daemonize a 0 0 p = Ret q \<and> umask q = 0 \<and> \<not> leader q \<and> \<not> has_tty q \<and>
      ignores_hup q \<and> cwd q = ''/'' \<and>
      (\<forall>k. fd_get (dfds q) k = (if 0 \<le> k \<and> k \<le> 2 then Some DevNull
        else if k < int (rlim rl) then None else fd_get (dfds p) k))" if "open_ok a"
  proof -
    from std_null_ok [OF n] obtain v where v: "std_null True ?t = (v, 0, 1, 2)"
      "\<And>k. fd_get v k = (if 0 \<le> k \<and> k \<le> 2 then Some DevNull else fd_get ?t k)" by blast
    have "fd_get v k = (if 0 \<le> k \<and> k \<le> 2 then Some DevNull
        else if k < int (rlim rl) then None else fd_get (dfds p) k)" for k
      using fd_get_neg [of k "dfds p"] by (auto simp: v(2) g)
    with assms that v(1) show ?thesis by (simp add: daemonize_def Let_def)
  qed
  show "daemonize a 0 0 p = Exits 1" if "\<not> open_ok a"
    using assms that std_null_fails [OF n(1)] by (simp add: daemonize_def Let_def)
  show "daemonize a pid fork2 p = Exits 0" "daemonize a 0 pid p = Exits 0"
    using assms by (simp_all add: daemonize_def Let_def)
qed

lemma daemonize_makes_daemon_witness:
  "returns (daemonize \<lparr>getrlimit = Some RLIM_INFINITY, sigaction_ok = True, chdir_ok = True, open_ok = True\<rparr> 0 0
     \<lparr>umask = 18, leader = False, has_tty = True, ignores_hup = False, cwd = ''/root'', dfds = [Some (Elsewhere 0)]\<rparr>)"
proof -
  let ?a = "\<lparr>getrlimit = Some RLIM_INFINITY, sigaction_ok = True, chdir_ok = True, open_ok = True\<rparr>"
  let ?p = "\<lparr>umask = 18, leader = False, has_tty = True, ignores_hup = False, cwd = ''/root'', dfds = [Some (Elsewhere 0)]\<rparr>"
  show ?thesis using daemonize_makes_daemon [of ?a RLIM_INFINITY 1 ?p 0] by (auto simp: rlim_def returns_iff)
qed

end
