(* ===== verification/SniffSpoof.thy ===== *)
theory SniffSpoof imports Spoof Capture
begin

text \<open>
  \<open>main\<close> of \<open>packetSpoofing/sniff_spoof_udp.c\<close>, which gives every captured packet to
  \<open>got_packet\<close>, and what happens when it captures its own replies.
\<close>

section \<open>main\<close>

text \<open>\<open>pcap_loop\<close> with a count of -1 over the packets that pass the filter, as long as there are
  any.\<close>

fun pcap_loop :: "(u8 list \<Rightarrow> rawcall list option) \<Rightarrow> u8 list list \<Rightarrow> rawcall list option" where
  "pcap_loop handler [] = Some []"
| "pcap_loop handler (p # ps) = (case handler p of None \<Rightarrow> None
     | Some cs \<Rightarrow> (case pcap_loop handler ps of None \<Rightarrow> None | Some ds \<Rightarrow> Some (cs @ ds)))"

definition sniff_spoof_main :: "bool \<Rightarrow> int \<Rightarrow> u8 list list \<Rightarrow> rawcall list outcome" where
  "sniff_spoof_main filter_set sock packets = (if \<not> filter_set then Exits 1
     else case pcap_loop (got_packet sock) packets of None \<Rightarrow> Undef | Some calls \<Rightarrow> Ret calls)"

section \<open>A reply\<close>

text \<open>The packet that answers a datagram without IP options.\<close>

definition reply_packet :: "ipheader \<Rightarrow> udpheader \<Rightarrow> u8 list" where
  "reply_packet ip udp = enc_ip (ip\<lparr>iph_sourceip := iph_destip ip, iph_destip := iph_sourceip ip, iph_ttl := 50,
       iph_len := htons 53\<rparr>) @
     enc_udp \<lparr>udp_sport = udp_dport udp, udp_dport = udp_sport udp, udp_ulen = htons 33, udp_sum = 0\<rparr> @ reply_payload"

text \<open>A datagram without options in a frame of its own.\<close>

definition carries :: "u8 list \<Rightarrow> ipheader \<Rightarrow> udpheader \<Rightarrow> bool" where
  "carries pkt ip udp \<longleftrightarrow> get_at 20 dec_ip pkt 0 = Some ip \<and> get_at 8 dec_udp pkt 20 = Some udp \<and>
     iph_ihl ip = 5 \<and> iph_protocol ip = 17 \<and> 28 \<le> unat (ntohs (iph_len ip)) \<and>
     unat (ntohs (iph_len ip)) \<le> min 1500 (length pkt)"

lemma reply_carries:
  assumes "carries pkt ip udp"
  shows "carries (reply_packet ip udp) (ip\<lparr>iph_sourceip := iph_destip ip, iph_destip := iph_sourceip ip, iph_ttl := 50,
      iph_len := htons 53\<rparr>) \<lparr>udp_sport = udp_dport udp, udp_dport = udp_sport udp, udp_ulen = htons 33, udp_sum = 0\<rparr>"
  using assms by (simp add: carries_def reply_packet_def get_at_def ip_l.length_enc ip_l.dec_enc udp_l.length_enc udp_l.dec_enc
     reply_payload_def char_bytes_def)

lemma got_framed:
  assumes "carries pkt ip udp"
  shows "got_packet sock (frame dst src 0x0800 pkt) = spoof_reply_udp sock pkt"
proof -
  have e: "get_at 14 dec_eth (frame dst src 0x0800 pkt) 0 = Some \<lparr>ether_dhost = dst, ether_shost = src, ether_type = htons 0x0800\<rparr>"
    and i: "get_at 20 dec_ip (frame dst src 0x0800 pkt) 14 = Some ip" and d: "drop 14 (frame dst src 0x0800 pkt) = pkt"
    using assms by (auto simp: frame_def carries_def get_at_def eth_l.length_enc eth_l.dec_enc split: if_splits)
  have "protocol_of ip = UDP" using assms by (simp add: carries_def protocol_of_def)
  then show ?thesis by (simp add: got_packet_def e i d)
qed

lemma answered:
  assumes "carries pkt ip udp" "ntohs (udp_dport udp) = 9999"
  shows "got_packet sock (frame dst src 0x0800 pkt) = Some (sends sock (iph_sourceip ip) (reply_packet ip udp))"
proof -
  have c: "get_at 20 dec_ip pkt 0 = Some ip" "get_at 8 dec_udp pkt (unat (iph_ihl ip) * 4) = Some udp"
    "5 \<le> unat (iph_ihl ip)" "unat (iph_ihl ip) * 4 \<le> unat (ntohs (iph_len ip))"
    "unat (ntohs (iph_len ip)) \<le> min 1500 (length pkt)" "iph_ihl ip = 5" using assms(1) by (auto simp: carries_def)
  have "length (reply_packet ip udp) = 53"
    by (simp add: reply_packet_def ip_l.length_enc udp_l.length_enc reply_payload_def char_bytes_def)
  then have "take 53 (reply_packet ip udp) = reply_packet ip udp" by simp
  then show ?thesis
    using spoof_reply_built [OF c(1,2) assms(2) c(3,4), of sock] c(5,6) unfolding got_framed [OF assms(1)]
    by (simp add: reply_packet_def)
qed

lemma not_answered:
  assumes "carries pkt ip udp" "ntohs (udp_dport udp) \<noteq> 9999"
  shows "got_packet sock (frame dst src 0x0800 pkt) = Some []"
  using assms unfolding got_framed [OF assms(1)] by (simp add: spoof_reply_udp_def carries_def)

section \<open>The program hears itself\<close>

text \<open>
  C26. A datagram without options to port 9999 is answered by one packet. When the program captures
  that packet too, it does not answer it, so that the exchange ends, unless the datagram also came
  from port 9999: then the answer is answered, the answer of that is the first one again, and the
  program goes on for ever on its own packets.
\<close>
theorem reply_loop:
  assumes "carries pkt ip udp" "ntohs (udp_dport udp) = 9999" "filter_set"
  shows "\<exists>r r2 ip2. got_packet sock (frame d s 0x0800 pkt) = Some (sends sock (iph_sourceip ip) r) \<and>
    (ntohs (udp_sport udp) \<noteq> 9999 \<longrightarrow> sniff_spoof_main filter_set sock [frame d s 0x0800 pkt, frame d s 0x0800 r] =
       Ret (sends sock (iph_sourceip ip) r)) \<and>
    (ntohs (udp_sport udp) = 9999 \<longrightarrow>
       got_packet sock (frame d s 0x0800 r) = Some (sends sock (iph_destip ip) r2) \<and>
       got_packet sock (frame d s 0x0800 r2) = Some (sends sock ip2 r))"
proof -
  let ?r = "reply_packet ip udp"
  let ?i = "ip\<lparr>iph_sourceip := iph_destip ip, iph_destip := iph_sourceip ip, iph_ttl := 50, iph_len := htons 53\<rparr>"
  let ?u = "\<lparr>udp_sport = udp_dport udp, udp_dport = udp_sport udp, udp_ulen = htons 33, udp_sum = 0\<rparr>"
  let ?r2 = "reply_packet ?i ?u"
  let ?i2 = "?i\<lparr>iph_sourceip := iph_destip ?i, iph_destip := iph_sourceip ?i, iph_ttl := 50, iph_len := htons 53\<rparr>"
  let ?u2 = "\<lparr>udp_sport = udp_dport ?u, udp_dport = udp_sport ?u, udp_ulen = htons 33, udp_sum = 0\<rparr>"
  note c = reply_carries [OF assms(1)]
  have a: "got_packet sock (frame d s 0x0800 pkt) = Some (sends sock (iph_sourceip ip) ?r)"
    by (rule answered [OF assms(1,2)])
  have n: "got_packet sock (frame d s 0x0800 ?r) = Some []" if "ntohs (udp_sport udp) \<noteq> 9999"
    by (rule not_answered [OF c]) (simp add: that)
  have a2: "got_packet sock (frame d s 0x0800 ?r) = Some (sends sock (iph_destip ip) ?r2)" if "ntohs (udp_sport udp) = 9999"
    using answered [OF c, of sock d s] that by simp
  have a3: "got_packet sock (frame d s 0x0800 ?r2) = Some (sends sock (iph_sourceip ip) ?r)" if "ntohs (udp_sport udp) = 9999"
    using answered [OF reply_carries [OF c], of sock d s] assms(2) by (simp add: reply_packet_def)
  show ?thesis
    using a n a2 a3 assms(3)
    by (intro exI [of _ ?r] exI [of _ ?r2] exI [of _ "iph_sourceip ip"]) (simp add: sniff_spoof_main_def)
qed

lemma reply_loop_witness:
  "\<exists>r. sniff_spoof_main True 4 [frame 0 0 0x0800 query, frame 0 0 0x0800 r] =
    Ret (sends 4 (iph_sourceip (dec_ip query)) r)"
proof -
  have "carries query (dec_ip query) (dec_udp (drop 20 query))" "ntohs (udp_dport (dec_udp (drop 20 query))) = 9999"
    "ntohs (udp_sport (dec_udp (drop 20 query))) \<noteq> 9999" by code_simp+
  with reply_loop [of query "dec_ip query" "dec_udp (drop 20 query)" True 4 0 0] show ?thesis by blast
qed

end
