(* ===== verification/RecordLocks.thy ===== *)
theory RecordLocks imports Prelude
begin

text \<open>
  \<open>lib/lockreg.c\<close> and \<open>locktest.c\<close>: setting and testing the record locks of a file. The
  kernel's table is a list of locked ranges; its meaning is which lock each process has on each byte.
\<close>

section \<open>The table of locks\<close>

datatype ltype = F_RDLCK | F_WRLCK | F_UNLCK

datatype whence = SEEK_SET | SEEK_CUR | SEEK_END

datatype cmd = F_GETLK | F_SETLK | F_SETLKW

text \<open>A range from a first byte to a last one, or to the end of the file and beyond.\<close>

type_synonym range = "int \<times> int option"

record flock =
  l_type :: ltype
  l_start :: int
  l_whence :: whence
  l_len :: int
  l_pid :: int

record held =
  owner :: int
  kind :: ltype
  bytes :: range

record locked_file =
  table :: "held list"
  pos :: int
  size :: int

definition EAGAIN :: int where "EAGAIN = 11"

fun within :: "int \<Rightarrow> range \<Rightarrow> bool" where
  "within x (a, b) \<longleftrightarrow> a \<le> x \<and> (case b of None \<Rightarrow> True | Some e \<Rightarrow> x \<le> e)"

fun proper :: "range \<Rightarrow> bool" where
  "proper (a, b) \<longleftrightarrow> (case b of None \<Rightarrow> True | Some e \<Rightarrow> a \<le> e)"

text \<open>The region of a request; \<open>None\<close> if it begins before the file.\<close>

definition region :: "flock \<Rightarrow> locked_file \<Rightarrow> range option" where
  "region l f = (let start = (case l_whence l of SEEK_SET \<Rightarrow> 0 | SEEK_CUR \<Rightarrow> pos f | SEEK_END \<Rightarrow> size f) + l_start l in
     if start < 0 then None
     else if l_len l = 0 then Some (start, None)
     else if 0 < l_len l then Some (start, Some (start + l_len l - 1))
     else if start + l_len l < 0 then None
     else Some (start + l_len l, Some (start - 1)))"

fun overlaps :: "range \<Rightarrow> range \<Rightarrow> bool" where
  "overlaps (a, b) (c, d) \<longleftrightarrow> (case b of None \<Rightarrow> True | Some e \<Rightarrow> c \<le> e) \<and> (case d of None \<Rightarrow> True | Some e \<Rightarrow> a \<le> e)"

definition conflicts :: "int \<Rightarrow> ltype \<Rightarrow> range \<Rightarrow> held \<Rightarrow> bool" where
  "conflicts p t r h \<longleftrightarrow> owner h \<noteq> p \<and> t \<noteq> F_UNLCK \<and> (t = F_WRLCK \<or> kind h = F_WRLCK) \<and> overlaps (bytes h) r"

text \<open>What is left of a range when another is taken out, and the table after a request.\<close>

fun without :: "range \<Rightarrow> range \<Rightarrow> range list" where
  "without (a, b) (c, d) = filter proper
     ((a, Some (case b of None \<Rightarrow> c - 1 | Some e \<Rightarrow> min e (c - 1))) #
      (case d of None \<Rightarrow> [] | Some e \<Rightarrow> [(max a (e + 1), b)]))"

definition released :: "int \<Rightarrow> range \<Rightarrow> held list \<Rightarrow> held list" where
  "released p r hs = concat (map (\<lambda>h. if owner h = p then map (\<lambda>b. h\<lparr>bytes := b\<rparr>) (without (bytes h) r) else [h]) hs)"

definition changed :: "int \<Rightarrow> ltype \<Rightarrow> range \<Rightarrow> held list \<Rightarrow> held list" where
  "changed p t r hs = (if t = F_UNLCK then released p r hs
     else \<lparr>owner = p, kind = t, bytes = r\<rparr> # released p r hs)"

text \<open>\<open>fcntl\<close> by process \<open>p\<close>: 0 and the structure, or an errno. A test for no lock is an error;
  the detection of deadlocks among waiting processes is left out.\<close>

definition fcntl :: "int \<Rightarrow> cmd \<Rightarrow> flock \<Rightarrow> locked_file \<Rightarrow> (int + flock \<times> locked_file) outcome" where
  "fcntl p c l f = (case region l f of None \<Rightarrow> Ret (Inl EINVAL)
     | Some r \<Rightarrow> if c = F_GETLK \<and> l_type l = F_UNLCK then Ret (Inl EINVAL) else (case (c, find (conflicts p (l_type l) r) (table f)) of
         (F_GETLK, None) \<Rightarrow> Ret (Inr (l\<lparr>l_type := F_UNLCK\<rparr>, f))
       | (F_GETLK, Some h) \<Rightarrow> Ret (Inr (l\<lparr>l_type := kind h, l_pid := owner h\<rparr>, f))
       | (F_SETLK, None) \<Rightarrow> Ret (Inr (l, f\<lparr>table := changed p (l_type l) r (table f)\<rparr>))
       | (F_SETLK, Some h) \<Rightarrow> Ret (Inl EAGAIN)
       | (F_SETLKW, None) \<Rightarrow> Ret (Inr (l, f\<lparr>table := changed p (l_type l) r (table f)\<rparr>))
       | (F_SETLKW, Some h) \<Rightarrow> Blocks))"

section \<open>The functions\<close>

text \<open>\<open>l_pid\<close> is not set by the callers and only read where \<open>fcntl\<close> has stored it.\<close>

definition lock_reg :: "int \<Rightarrow> cmd \<Rightarrow> ltype \<Rightarrow> int \<Rightarrow> whence \<Rightarrow> int \<Rightarrow> locked_file \<Rightarrow> (int \<times> locked_file) outcome" where
  "lock_reg p c t offset wh len f =
     and_then (fcntl p c \<lparr>l_type = t, l_start = offset, l_whence = wh, l_len = len, l_pid = 0\<rparr> f)
       (\<lambda>r. case r of Inl e \<Rightarrow> Ret (-1, f) | Inr (l, f) \<Rightarrow> Ret (0, f))"



definition readw_lock :: "int \<Rightarrow> int \<Rightarrow> whence \<Rightarrow> int \<Rightarrow> locked_file \<Rightarrow> (int \<times> locked_file) outcome" where
  "readw_lock p offset wh len = lock_reg p F_SETLKW F_RDLCK offset wh len"


definition writew_lock :: "int \<Rightarrow> int \<Rightarrow> whence \<Rightarrow> int \<Rightarrow> locked_file \<Rightarrow> (int \<times> locked_file) outcome" where
  "writew_lock p offset wh len = lock_reg p F_SETLKW F_WRLCK offset wh len"

definition un_lock :: "int \<Rightarrow> int \<Rightarrow> whence \<Rightarrow> int \<Rightarrow> locked_file \<Rightarrow> (int \<times> locked_file) outcome" where
  "un_lock p offset wh len = lock_reg p F_SETLK F_UNLCK offset wh len"



section \<open>What a table means\<close>

text \<open>\<open>has_lock hs p x t\<close>: process \<open>p\<close> has a lock of kind \<open>t\<close> on byte \<open>x\<close>.\<close>

definition has_lock :: "held list \<Rightarrow> int \<Rightarrow> int \<Rightarrow> ltype \<Rightarrow> bool" where
  "has_lock hs p x t \<longleftrightarrow> (\<exists>h\<in>set hs. owner h = p \<and> kind h = t \<and> within x (bytes h))"


text \<open>Another process has a lock on a byte of the region that excludes one of kind \<open>t\<close>.\<close>

definition excluded :: "held list \<Rightarrow> int \<Rightarrow> ltype \<Rightarrow> range \<Rightarrow> int \<Rightarrow> bool" where
  "excluded hs p t r q \<longleftrightarrow> q \<noteq> p \<and> t \<noteq> F_UNLCK \<and>
     (\<exists>x k. within x r \<and> has_lock hs q x k \<and> (t = F_WRLCK \<or> k = F_WRLCK))"




lemma excluded_unlock [simp]: "\<not> excluded hs p F_UNLCK r q"
  by (simp add: excluded_def)


lemma has_lock_simps [simp]:
  "\<not> has_lock [] p x t"
  "has_lock (h # hs) p x t \<longleftrightarrow> owner h = p \<and> kind h = t \<and> within x (bytes h) \<or> has_lock hs p x t"
  "has_lock (hs @ hs') p x t \<longleftrightarrow> has_lock hs p x t \<or> has_lock hs' p x t"
  by (auto simp: has_lock_def)












section \<open>A file that processes lock\<close>









end
