(* ===== verification/Limits.thy ===== *)
theory Limits imports Prelude
begin

text \<open>
  Sizes and times: \<open>lib/pathalloc.c\<close>, which finds out how much room a path name needs, and
  \<open>threads/maketimeout.c\<close> with the use of such a time in \<open>threads/timedlock.c\<close>.
\<close>

section \<open>path_alloc\<close>

text \<open>The static variables; \<open>pathmax\<close> starts with \<open>PATH_MAX\<close> where the system has one, else
  with 0.\<close>

record limits =
  pathmax :: int
  posix_version :: int
  xsi_version :: int

definition limits_start :: "int option \<Rightarrow> limits" where
  "limits_start PATH_MAX = \<lparr>pathmax = (case PATH_MAX of None \<Rightarrow> 0 | Some n \<Rightarrow> n), posix_version = 0, xsi_version = 0\<rparr>"

definition PATH_MAX_GUESS :: int where "PATH_MAX_GUESS = 1024"

text \<open>The answers of \<open>sysconf\<close>, \<open>pathconf\<close> (a negative one with its \<open>errno\<close>) and
  \<open>malloc\<close>.\<close>

record limit_answers =
  sc_version :: int
  sc_xopen :: int
  pc_path :: int
  pc_errno :: int
  malloc_ok :: bool

definition path_versions :: "limit_answers \<Rightarrow> limits \<Rightarrow> limits" where
  "path_versions a s =
     (let s = (if posix_version s = 0 then s\<lparr>posix_version := sc_version a\<rparr> else s)
      in if xsi_version s = 0 then s\<lparr>xsi_version := sc_xopen a\<rparr> else s)"

definition path_limit :: "limit_answers \<Rightarrow> limits \<Rightarrow> limits outcome" where
  "path_limit a s = (if pathmax s = 0 then
       (let s = s\<lparr>pathmax := pc_path a\<rparr> in
        if pathmax s < 0 then
          (if pc_errno a = 0 then Ret (s\<lparr>pathmax := PATH_MAX_GUESS\<rparr>) else Exits 1)
        else if pathmax s = LONG_MAX then Undef
        else Ret (s\<lparr>pathmax := pathmax s + 1\<rparr>))
     else Ret s)"

definition path_size :: "limits \<Rightarrow> int outcome" where
  "path_size s = (if posix_version s < 200112 \<and> xsi_version s < 4
     then (if pathmax s = LONG_MAX then Undef else Ret (pathmax s + 1)) else Ret (pathmax s))"

text \<open>The size of the memory that is returned, and the new statics.\<close>

definition path_alloc :: "limit_answers \<Rightarrow> limits \<Rightarrow> (int \<times> limits) outcome" where
  "path_alloc a s = and_then (path_limit a (path_versions a s)) (\<lambda>s.
     and_then (path_size s) (\<lambda>sz. if malloc_ok a then Ret (sz, s) else Exits 1))"

text \<open>The bytes a path name of the system takes with its terminator: a version before
  POSIX.1-2001 and XPG4 may leave the terminator out of the limit, and \<open>pathconf\<close> counts from the
  root, without the slash.\<close>

definition room_needed :: "int option \<Rightarrow> limit_answers \<Rightarrow> int" where
  "room_needed PATH_MAX a = (case PATH_MAX of Some n \<Rightarrow> n | None \<Rightarrow> if pc_path a < 0 then PATH_MAX_GUESS else pc_path a + 1) +
     (if sc_version a < 200112 \<and> sc_xopen a < 4 then 1 else 0)"

lemma path_alloc_again:
  assumes "path_alloc a s = Ret (n, s')" "pathmax s' \<noteq> 0" "posix_version s' \<noteq> 0" "xsi_version s' \<noteq> 0" "malloc_ok b"
  shows "path_alloc b s' = Ret (n, s')"
proof -
  from assms(1) have "path_size s' = Ret n" by (auto simp: path_alloc_def split: if_splits)
  with assms(2-5) show ?thesis by (simp add: path_alloc_def path_versions_def path_limit_def Let_def)
qed

text \<open>
  \<open>path_alloc\<close> asks for exactly the room that path names of the system need, whatever its
  version and whether it has a limit of its own, fails only if \<open>pathconf\<close> or \<open>malloc\<close> does, and
  a later call gives the same size from the static variables, whatever the system says then.
\<close>
theorem path_alloc_suffices:
  assumes "case PATH_MAX of None \<Rightarrow> pc_path a < LONG_MAX - 1 \<and> (pc_path a < 0 \<longrightarrow> pc_errno a = 0) | Some n \<Rightarrow> 0 < n \<and> n < LONG_MAX"
    and "sc_version a \<noteq> 0" "sc_xopen a \<noteq> 0"
  shows "\<exists>s. path_alloc a (limits_start PATH_MAX) = (if malloc_ok a then Ret (room_needed PATH_MAX a, s) else Exits 1) \<and>
    (malloc_ok a \<and> malloc_ok b \<longrightarrow> path_alloc b s = Ret (room_needed PATH_MAX a, s))"
proof -
  let ?m = "case PATH_MAX of Some n \<Rightarrow> n | None \<Rightarrow> if pc_path a < 0 then PATH_MAX_GUESS else pc_path a + 1"
  let ?s = "\<lparr>pathmax = ?m, posix_version = sc_version a, xsi_version = sc_xopen a\<rparr>"
  have m: "0 < ?m" "?m < LONG_MAX" using assms(1)
    by (auto simp: PATH_MAX_GUESS_def LONG_MAX_def split: option.splits)
  have "path_limit a (path_versions a (limits_start PATH_MAX)) = Ret ?s"
    using assms(1) by (auto simp: path_limit_def path_versions_def limits_start_def LONG_MAX_def Let_def split: option.splits)
  moreover have "path_size ?s = Ret (room_needed PATH_MAX a)"
    using m by (simp add: path_size_def room_needed_def)
  ultimately have e: "path_alloc a (limits_start PATH_MAX) = (if malloc_ok a then Ret (room_needed PATH_MAX a, ?s) else Exits 1)"
    by (simp add: path_alloc_def)
  have "path_alloc b ?s = Ret (room_needed PATH_MAX a, ?s)" if "malloc_ok a" "malloc_ok b"
    by (rule path_alloc_again [of a "limits_start PATH_MAX"]) (use e that m(1) assms(2,3) in simp_all)
  with e show ?thesis by blast
qed

lemma path_alloc_suffices_witness:
  "\<exists>s. path_alloc \<lparr>sc_version = 200809, sc_xopen = 700, pc_path = -1, pc_errno = 0, malloc_ok = True\<rparr> (limits_start None) = Ret (1024, s)"
  using path_alloc_suffices [where PATH_MAX = None and a = "\<lparr>sc_version = 200809, sc_xopen = 700, pc_path = -1, pc_errno = 0, malloc_ok = True\<rparr>"
    and b = "\<lparr>sc_version = 200809, sc_xopen = 700, pc_path = -1, pc_errno = 0, malloc_ok = True\<rparr>"]
  by (auto simp: room_needed_def PATH_MAX_GUESS_def LONG_MAX_def)

section \<open>Times\<close>

text \<open>\<open>struct timespec\<close>, ordered as points of time.\<close>

datatype timespec = Timespec (tv_sec: int) (tv_nsec: int)

instantiation timespec :: linorder
begin

definition less_eq_timespec :: "timespec \<Rightarrow> timespec \<Rightarrow> bool" where
  "less_eq_timespec s t \<longleftrightarrow> tv_sec s < tv_sec t \<or> tv_sec s = tv_sec t \<and> tv_nsec s \<le> tv_nsec t"

definition less_timespec :: "timespec \<Rightarrow> timespec \<Rightarrow> bool" where
  "less_timespec s t \<longleftrightarrow> tv_sec s < tv_sec t \<or> tv_sec s = tv_sec t \<and> tv_nsec s < tv_nsec t"

instance
  by standard (auto simp: less_eq_timespec_def less_timespec_def timespec.expand)

end

text \<open>\<open>maketimeout\<close> at a time in seconds and microseconds, with 64-bit arithmetic.\<close>

definition in_long :: "int \<Rightarrow> bool" where
  "in_long n \<longleftrightarrow> - LONG_MAX - 1 \<le> n \<and> n \<le> LONG_MAX"

definition maketimeout :: "int \<Rightarrow> int \<Rightarrow> int \<Rightarrow> timespec option" where
  "maketimeout sec usec minutes =
     (if in_long (usec * 1000) \<and> in_long (minutes * 60) \<and> in_long (sec + minutes * 60)
      then Some (Timespec (sec + minutes * 60) (usec * 1000)) else None)"

definition ETIMEDOUT :: int where "ETIMEDOUT = 110"

text \<open>\<open>pthread_mutex_timedlock\<close> of a normal mutex at time \<open>now\<close>: the owner itself waits like
  any other thread, until the given time if that is still to come. The result is 0 or an error, the
  time it returns, and the owner.\<close>

definition pthread_mutex_timedlock :: "nat \<Rightarrow> nat option \<Rightarrow> timespec \<Rightarrow> timespec \<Rightarrow> int \<times> timespec \<times> nat option" where
  "pthread_mutex_timedlock me own now abstime = (case own of None \<Rightarrow> (0, now, Some me)
     | Some t \<Rightarrow> (ETIMEDOUT, max now abstime, Some t))"

text \<open>\<open>main\<close> of \<open>timedlock.c\<close>: the lines it prints without the times, and the two times.\<close>

definition timedlock_main :: "timespec \<Rightarrow> string list \<times> timespec \<times> timespec" where
  "timedlock_main start = (let own = Some 0; tout = start;
       tout = Timespec (tv_sec tout + 10) (tv_nsec tout);
       (err, later, own) = pthread_mutex_timedlock 0 own start tout
     in ([''mutex is locked'', if err = 0 then ''mutex locked again!'' else ''can't lock mutex again: '' @
            (if err = ETIMEDOUT then ''Connection timed out'' else [])], start, later))"

text \<open>
  \<open>maketimeout\<close> gives the time so many minutes from now, with proper nanoseconds, and in the
  order of times; it is defined as long as the seconds do not overflow. \<open>timedlock\<close> waits ten
  seconds for the mutex that it holds itself and then reports that it cannot lock it.
\<close>
theorem timeouts:
  assumes "0 \<le> usec" "usec < 1000000" "in_long (60 * minutes)" "in_long (sec + 60 * minutes)"
  shows "(\<exists>t. maketimeout sec usec minutes = Some t \<and> tv_sec t = sec + 60 * minutes \<and> 0 \<le> tv_nsec t \<and> tv_nsec t < 1000000000 \<and>
      (Timespec sec (1000 * usec) < t \<longleftrightarrow> 0 < minutes)) \<and>
    timedlock_main now = ([''mutex is locked'', ''can't lock mutex again: Connection timed out''], now,
      Timespec (tv_sec now + 10) (tv_nsec now))"
proof
  have "in_long (usec * 1000)" using assms(1,2) by (simp add: in_long_def LONG_MAX_def)
  with assms show "\<exists>t. maketimeout sec usec minutes = Some t \<and> tv_sec t = sec + 60 * minutes \<and> 0 \<le> tv_nsec t \<and> tv_nsec t < 1000000000 \<and>
      (Timespec sec (1000 * usec) < t \<longleftrightarrow> 0 < minutes)"
    by (simp add: maketimeout_def mult.commute less_timespec_def)
  have "max now (Timespec (tv_sec now + 10) (tv_nsec now)) = Timespec (tv_sec now + 10) (tv_nsec now)"
    by (rule max_absorb2) (simp add: less_eq_timespec_def)
  then show "timedlock_main now = ([''mutex is locked'', ''can't lock mutex again: Connection timed out''], now,
      Timespec (tv_sec now + 10) (tv_nsec now))"
    by (simp add: timedlock_main_def pthread_mutex_timedlock_def ETIMEDOUT_def)
qed

lemma timeouts_witness: "\<exists>t. maketimeout 1700000000 250000 5 = Some t \<and> tv_sec t = 1700000300"
  using timeouts [of 250000 5 1700000000 "Timespec 0 0", THEN conjunct1] by (auto simp: in_long_def LONG_MAX_def)

end
