(* ===== verification/Ipc.thy ===== *)
theory Ipc imports Runs FdTable Signals
begin

text \<open>
  Processes that pass a message: \<open>pipes-unnamed/forkExecPipe.cpp\<close> and
  \<open>pipes-named/forkExecPipe.cpp\<close>, from \<open>fork\<close> on as two lists of calls that the kernel carries
  out in any order the calls allow.
\<close>

section \<open>Two processes and a pipe\<close>

datatype pend = R | W | Std

text \<open>A descriptor stands for an end of the pipe or for the terminal. Of the calls \<open>Exec\<close> is the
  program that replaces the child, by what it prints and the status it ends with, and \<open>Report\<close> is what the parent prints at its end.\<close>

datatype call = Close int | Write int string | Read int nat | OpenFifo pend | WaitChild
  | Say "string list" | Exec "string list" nat | Report string

record proc =
  todo :: "call list"
  tab :: "pend fdtable"
  buf :: "char list"
  status :: "fate option"
  ended :: "fate option"

record ipc =
  parent :: proc
  child :: proc
  pipe :: string
  terminal :: "string list"

definition has_end :: "pend \<Rightarrow> proc \<Rightarrow> bool" where
  "has_end e p \<longleftrightarrow> Some e \<in> set (tab p)"

text \<open>The descriptors of a process are closed when it ends.\<close>

definition ends_with :: "fate \<Rightarrow> proc \<Rightarrow> proc" where
  "ends_with st p = p\<lparr>todo := [], tab := [], ended := Some st\<rparr>"

text \<open>The last lines of the parent; the one with the child's number is given.\<close>

definition report_lines :: "string \<Rightarrow> proc \<Rightarrow> string list" where
  "report_lines pid_line p =
     [''Hello from the parent process!'', ''Parent received: '' @ c_str (buf p), pid_line] @
     (case status p of Some (Exited n) \<Rightarrow> [''Child process exited normally with status: '' @ dec (int (n mod 256))]
      | Some (Killed n core) \<Rightarrow> [''Child process terminated by signal: '' @ dec (int n)]
      | _ \<Rightarrow> [])"

text \<open>One call of a process, which sees the pipe, whether the other one has each end, and how the
  other one ended: its new state, the pipe and what is printed, or \<open>None\<close> while it waits. A process
  that writes without a reader is killed by \<open>SIGPIPE\<close>, and one without calls left returns 0.\<close>

definition call_step :: "proc \<Rightarrow> proc \<Rightarrow> string \<Rightarrow> (proc \<times> string \<times> string list) option" where
  "call_step p other data = (if ended p \<noteq> None then None else case todo p of
     [] \<Rightarrow> Some (ends_with (Exited 0) p, data, [])
   | Close fd # cs \<Rightarrow> Some (p\<lparr>todo := cs, tab := fst (fd_close fd (tab p))\<rparr>, data, [])
   | Write fd bytes # cs \<Rightarrow>
       if fd_get (tab p) fd \<noteq> Some W then Some (p\<lparr>todo := cs\<rparr>, data, [])
       else if \<not> has_end R p \<and> \<not> has_end R other then Some (ends_with (Killed 13 False) p, data, [])
       else Some (p\<lparr>todo := cs\<rparr>, data @ bytes, [])
   | Read fd n # cs \<Rightarrow>
       if fd_get (tab p) fd \<noteq> Some R then Some (p\<lparr>todo := cs\<rparr>, data, [])
       else if data = [] \<and> (has_end W p \<or> has_end W other) then None
       else Some (p\<lparr>todo := cs, buf := take n data @ drop (length (take n data)) (buf p)\<rparr>, drop n data, [])
   | OpenFifo e # cs \<Rightarrow> None
   | WaitChild # cs \<Rightarrow> (case ended other of None \<Rightarrow> None | Some st \<Rightarrow> Some (p\<lparr>todo := cs, status := Some st\<rparr>, data, []))
   | Say ls # cs \<Rightarrow> Some (p\<lparr>todo := cs\<rparr>, data, ls)
   | Exec ls n # cs \<Rightarrow> Some (ends_with (Exited n) p, data, ls)
   | Report l # cs \<Rightarrow> Some (p\<lparr>todo := cs\<rparr>, data, report_lines l p))"

text \<open>Opening a FIFO for reading and for writing, each waits for the other; both are done then.\<close>

inductive ipc_step :: "ipc \<Rightarrow> ipc \<Rightarrow> bool" where
  parent_calls: "call_step (parent s) (child s) (pipe s) = Some (p, data, ls) \<Longrightarrow>
    ipc_step s (s\<lparr>parent := p, pipe := data, terminal := terminal s @ ls\<rparr>)"
| child_calls: "call_step (child s) (parent s) (pipe s) = Some (p, data, ls) \<Longrightarrow>
    ipc_step s (s\<lparr>child := p, pipe := data, terminal := terminal s @ ls\<rparr>)"
| fifo_opened: "todo (parent s) = OpenFifo R # cs \<Longrightarrow> todo (child s) = OpenFifo W # ds \<Longrightarrow>
    ipc_step s (s\<lparr>parent := (parent s)\<lparr>todo := cs, tab := fst (fd_alloc R (tab (parent s)))\<rparr>,
      child := (child s)\<lparr>todo := ds, tab := fst (fd_alloc W (tab (child s)))\<rparr>\<rparr>)"

inductive_simps ipc_step_iff: "ipc_step \<lparr>parent = p, child = c, pipe = data, terminal = ls\<rparr> t"

section \<open>The two programs\<close>

definition forks :: "call list \<Rightarrow> call list \<Rightarrow> pend fdtable \<Rightarrow> ipc" where
  "forks ps cs t = (let p = \<lparr>todo = [], tab = t, buf = replicate 30 NUL, status = None, ended = None\<rparr>
     in \<lparr>parent = p\<lparr>todo := ps\<rparr>, child = p\<lparr>todo := cs\<rparr>, pipe = [], terminal = []\<rparr>)"

definition message :: string where "message = ''I'' @ [CHR 0x27] @ ''m your favorite child''"

definition child_hello :: "int \<Rightarrow> string list" where
  "child_hello ppid = [''Hello from the child process!'', ''The parent process ID is '' @ dec ppid, ''Child is writing in the pipe'']"

text \<open>The ends of the unnamed pipe are descriptors 3 and 4, after the three standard ones
  of the terminal; the message is written with its terminator.\<close>

definition unnamed_pipe :: "int \<Rightarrow> int \<Rightarrow> string list \<Rightarrow> nat \<Rightarrow> ipc" where
  "unnamed_pipe ppid cpid listing st = forks [WaitChild, Close 4, Read 3 24, Close 3, Report (''Child  process ID was '' @ dec cpid)]
     [Say (child_hello ppid), Close 3, Write 4 (message @ [NUL]), Close 3, Exec listing st] [Some Std, Some Std, Some Std, Some R, Some W]"

definition named_pipe :: "int \<Rightarrow> int \<Rightarrow> string list \<Rightarrow> nat \<Rightarrow> ipc" where
  "named_pipe ppid cpid listing st = forks [OpenFifo R, WaitChild, Read 3 23, Close 3, Report (''Child process ID was '' @ dec cpid)]
     [OpenFifo W, Say (child_hello ppid), Write 3 message, Close 3, Exec listing st] [Some Std, Some Std, Some Std]"

text \<open>\<open>main\<close> of the two, given whether \<open>pipe\<close> and \<open>fork\<close> succeed, and whether the FIFO, which the program
  does not make, is there.\<close>

definition unnamed_main :: "bool \<Rightarrow> bool \<Rightarrow> int \<Rightarrow> int \<Rightarrow> string list \<Rightarrow> nat \<Rightarrow> ipc outcome" where
  "unnamed_main pipe_ok fork_ok ppid cpid listing st = (if \<not> pipe_ok then Exits 1 else if \<not> fork_ok then Exits 1
     else Ret (unnamed_pipe ppid cpid listing st))"

definition named_main :: "bool \<Rightarrow> bool \<Rightarrow> int \<Rightarrow> int \<Rightarrow> string list \<Rightarrow> nat \<Rightarrow> ipc outcome" where
  "named_main fifo_there fork_ok ppid cpid listing st = (if \<not> fork_ok then Exits 1 else if \<not> fifo_there then Aborts
     else Ret (named_pipe ppid cpid listing st))"

section \<open>What they do\<close>

lemma length_message [simp]: "length message = 23"
  by (simp add: message_def)

lemma c_str_message [simp]: "c_str (message @ NUL # rest) = message"
  by (rule c_str_append_NUL) (simp add: message_def NUL_def)

lemma c_str_message_zeros [simp]: "0 < n \<Longrightarrow> c_str (message @ replicate n NUL) = message"
  by (cases n) simp_all

lemma forks_state: "forks ps cs t = \<lparr>parent = \<lparr>todo = ps, tab = t, buf = replicate 30 NUL, status = None, ended = None\<rparr>,
    child = \<lparr>todo = cs, tab = t, buf = replicate 30 NUL, status = None, ended = None\<rparr>, pipe = [], terminal = []\<rparr>"
  by (simp add: forks_def)

lemmas run_defs = runs_to_numeral forks_state ipc_step_iff call_step_def has_end_def ends_with_def report_lines_def
  fd_get_def fd_close_def fd_set_def fd_alloc_def

definition final_lines :: "string \<Rightarrow> nat \<Rightarrow> string list" where
  "final_lines pid_line st = [''Hello from the parent process!'', ''Parent received: '' @ message,
     pid_line, ''Child process exited normally with status: '' @ dec (int (st mod 256))]"

lemma unnamed_runs: "\<exists>fin. runs_to ipc_step 11 (unnamed_pipe ppid cpid listing st) fin \<and>
    terminal fin = child_hello ppid @ listing @ final_lines (''Child  process ID was '' @ dec cpid) st"
  by (simp add: unnamed_pipe_def run_defs final_lines_def)

lemma named_runs: "\<exists>fin. runs_to ipc_step 10 (named_pipe ppid cpid listing st) fin \<and>
    terminal fin = child_hello ppid @ listing @ final_lines (''Child process ID was '' @ dec cpid) st"
  by (simp add: named_pipe_def run_defs final_lines_def)

definition child_execs :: "ipc \<Rightarrow> bool" where
  "child_execs s \<longleftrightarrow> (case todo (child s) of Exec ls n # cs \<Rightarrow> True | _ \<Rightarrow> False)"

lemma unnamed_child: "\<exists>s. runs_to (before child_execs ipc_step) 4 (unnamed_pipe ppid cpid listing st) s \<and> has_end W (child s)"
  by (simp add: unnamed_pipe_def run_defs before_def child_execs_def)

lemma named_child: "\<exists>s. runs_to (before child_execs ipc_step) 4 (named_pipe ppid cpid listing st) s \<and> \<not> has_end W (child s)"
  by (simp add: named_pipe_def run_defs before_def child_execs_def)

text \<open>
  C18. Through either pipe the parent gets the child's message and prints it after all that the
  child and the program it turns into have printed, with the status of that program: whatever
  order the processes run in, there is one run, which ends. That program still has the write end of
  the unnamed pipe, which the child means to close, but not that of the named one.
\<close>
theorem message_arrives:
  "(\<exists>s fin. unnamed_main True True ppid cpid listing st = Ret s \<and> runs_to ipc_step 11 s fin \<and>
      terminal fin = child_hello ppid @ listing @ final_lines (''Child  process ID was '' @ dec cpid) st \<and>
      (\<exists>t. runs_to (before child_execs ipc_step) 4 s t \<and> has_end W (child t))) \<and>
   (\<exists>s fin. named_main True True ppid cpid listing st = Ret s \<and> runs_to ipc_step 10 s fin \<and>
      terminal fin = child_hello ppid @ listing @ final_lines (''Child process ID was '' @ dec cpid) st \<and>
      (\<exists>t. runs_to (before child_execs ipc_step) 4 s t \<and> \<not> has_end W (child t)))"
  using unnamed_runs [of ppid cpid listing st] named_runs [of ppid cpid listing st]
    unnamed_child [of ppid cpid listing st] named_child [of ppid cpid listing st]
  by (auto simp: unnamed_main_def named_main_def)

end
