(* ===== verification/SharedMem.thy ===== *)
theory SharedMem imports CString
begin

text \<open>
  \<open>sharedMem/main.cpp\<close>: a message put into a shared memory segment and taken out again. The
  segments of the system are a map from their names; \<open>slack\<close> is what the allocator gives beyond
  the bytes asked for, which C++ does not let a program use.
\<close>

section \<open>Segments\<close>

type_synonym segments = "string \<rightharpoonup> char list"

text \<open>The name without its slashes in front, as \<open>shm_open\<close> of the C library takes it.\<close>

definition shm_name :: "string \<Rightarrow> string" where
  "shm_name n = dropWhile (\<lambda>c. c = CHR ''/'') n"

text \<open>\<open>shm_open\<close> with \<open>O_CREAT\<close> and \<open>ftruncate\<close>; a new segment and a longer one is filled up
  with zeros. \<open>ok\<close> tells whether the system grants it.\<close>

definition shm_open :: "bool \<Rightarrow> string \<Rightarrow> segments \<Rightarrow> segments \<times> int" where
  "shm_open ok name m = (if \<not> ok then (m, -1)
     else (case m (shm_name name) of None \<Rightarrow> m(shm_name name \<mapsto> []) | Some seg \<Rightarrow> m, 3))"

definition ftruncate_shm :: "string \<Rightarrow> int \<Rightarrow> nat \<Rightarrow> segments \<Rightarrow> segments" where
  "ftruncate_shm name fd len m = (if fd < 0 then m else case m (shm_name name) of None \<Rightarrow> m
     | Some seg \<Rightarrow> m(shm_name name \<mapsto> take len seg @ replicate (len - length seg) NUL))"

definition shm_unlink :: "string \<Rightarrow> segments \<Rightarrow> segments" where
  "shm_unlink name m = m(shm_name name := None)"

section \<open>The program\<close>

text \<open>The name of the segment that is mapped; it exits with 0 if there is none.\<close>

definition my_shm_connect :: "bool \<Rightarrow> string \<Rightarrow> nat \<Rightarrow> segments \<Rightarrow> (string \<times> segments) outcome" where
  "my_shm_connect ok name len m = (let (m, fd) = shm_open ok name m; m = ftruncate_shm name fd len m
     in if fd < 0 then Exits 0 else Ret (shm_name name, m))"

text \<open>\<open>new char[strlen(s)]\<close> and \<open>sprintf\<close> of \<open>s\<close> into it.\<close>

definition new_copy :: "nat \<Rightarrow> string \<Rightarrow> string outcome" where
  "new_copy slack s = (case strcpy_at (replicate (length s + slack) NUL) 0 s of None \<Rightarrow> Undef | Some buf \<Rightarrow> Ret (c_str buf))"

definition send_shm :: "bool \<Rightarrow> nat \<Rightarrow> string \<Rightarrow> segments \<Rightarrow> (string list \<times> segments) outcome" where
  "send_shm ok slack message m = and_then (new_copy slack ''/testing'') (\<lambda>name. let len = 1024 in
     and_then (my_shm_connect ok name len m) (\<lambda>(ptr, m).
       case m ptr of None \<Rightarrow> Undef | Some seg \<Rightarrow> case strcpy_at seg 0 message of None \<Rightarrow> Undef
       | Some seg \<Rightarrow> Ret ([''Put message: '' @ message], m(ptr \<mapsto> seg))))"

text \<open>\<open>receive\<close> ends the process with \<open>exit(0)\<close>: what is printed and the segments then.\<close>

definition receive_shm :: "bool \<Rightarrow> nat \<Rightarrow> segments \<Rightarrow> (string list \<times> segments) outcome" where
  "receive_shm ok slack m = and_then (new_copy slack ''testing'') (\<lambda>name. let len = 1024 in
     and_then (my_shm_connect ok name len m) (\<lambda>(ptr, m).
       case m ptr of None \<Rightarrow> Undef | Some seg \<Rightarrow> if strlen seg = None then Undef
       else Ret ([''Got message: '' @ c_str seg], shm_unlink name m)))"

definition shm_main :: "bool \<Rightarrow> nat \<Rightarrow> segments \<Rightarrow> (string list \<times> segments) outcome" where
  "shm_main ok slack m = and_then (new_copy slack ''Hola Mundo'') (\<lambda>message.
     and_then (send_shm ok slack message m) (\<lambda>(put, m).
       and_then (receive_shm ok slack m) (\<lambda>(got, m). Ret (put @ got, m))))"

section \<open>What it does\<close>

lemma new_copy: "nul_free s \<Longrightarrow> new_copy slack s = (if slack = 0 then Undef else Ret s)"
proof (cases slack)
  case (Suc k)
  moreover assume "nul_free s"
  ultimately show ?thesis using strcpy_at_0 [of s "replicate (length s + slack) NUL"]
    by (auto simp: new_copy_def dest: holds_c_str)
qed (simp add: new_copy_def strcpy_overflows)

lemma connect_ok: "my_shm_connect True name len m =
    Ret (shm_name name, m(shm_name name \<mapsto> (case m (shm_name name) of None \<Rightarrow> replicate len NUL
      | Some seg \<Rightarrow> take len seg @ replicate (len - length seg) NUL)))"
  by (auto simp: my_shm_connect_def shm_open_def ftruncate_shm_def split: option.splits)

lemma names [simp]: "shm_name ''/testing'' = ''testing''" "shm_name ''testing'' = ''testing''"
  "0 < slack \<Longrightarrow> new_copy slack ''/testing'' = Ret ''/testing''"
  "0 < slack \<Longrightarrow> new_copy slack ''testing'' = Ret ''testing''"
  by (simp_all add: shm_name_def new_copy NUL_def)

lemma send_receive:
  assumes "nul_free s" "length s < 1024" "0 < slack"
  shows "\<exists>m'. send_shm True slack s m = Ret ([''Put message: '' @ s], m') \<and>
    receive_shm True slack m' = Ret ([''Got message: '' @ s], m(''testing'' := None))"
proof -
  let ?seg = "case m ''testing'' of None \<Rightarrow> replicate 1024 NUL | Some seg \<Rightarrow> take 1024 seg @ replicate (1024 - length seg) NUL"
  have l: "length ?seg = 1024" by (simp add: min_def split: option.split)
  obtain buf where b: "strcpy_at ?seg 0 s = Some buf" "holds buf s" "length buf = 1024"
    using strcpy_at_0 [of s ?seg] assms(1,2) l by auto
  have "send_shm True slack s m = Ret ([''Put message: '' @ s], m(''testing'' \<mapsto> buf))"
    using assms(3) b(1) by (simp add: send_shm_def connect_ok del: and_then_eq_Ret)
  moreover have "receive_shm True slack (m(''testing'' \<mapsto> buf)) = Ret ([''Got message: '' @ s], m(''testing'' := None))"
    using assms(3) b(2,3) by (simp add: receive_shm_def connect_ok shm_unlink_def holds_strlen holds_c_str del: and_then_eq_Ret)
  ultimately show ?thesis by blast
qed

text \<open>
  The program prints its message twice and leaves the segments without its own; it gets there
  only with an allocator that gives more than it asks for: each of its three arrays is a byte too
  short for the terminator.
\<close>
theorem shared_message:
  "shm_main True slack m = (if slack = 0 then Undef
     else Ret ([''Put message: Hola Mundo'', ''Got message: Hola Mundo''], m(''testing'' := None)))"
proof -
  have "nul_free ''Hola Mundo''" by (simp add: NUL_def)
  then show ?thesis using send_receive [of "''Hola Mundo''" slack m] by (auto simp: shm_main_def new_copy)
qed

end
