(* ===== verification/ThreadEnds.thy ===== *)
theory ThreadEnds imports CString
begin

text \<open>
  How threads end: \<open>threads/exitstatus.c\<close>, \<open>cleanup.c\<close>, \<open>badexit2.c\<close> and \<open>threadid.c\<close>,
  which start threads and print what became of them.
\<close>

section \<open>A thread\<close>

text \<open>What the start routines do; \<open>Push\<close> and \<open>Pop\<close> are \<open>pthread_cleanup_push\<close> and
  \<open>pthread_cleanup_pop\<close> with the routine \<open>cleanup\<close>.\<close>

datatype op = Print string | Push string | Pop bool | Return int | Pthread_exit int

definition cleanup :: "string \<Rightarrow> string" where
  "cleanup arg = ''cleanup: '' @ arg"

text \<open>The lines it prints, and the value it ends with. To return between a push and its pop is not
  defined; \<open>pthread_exit\<close> carries out the handlers, the last one first.\<close>

fun thread_run :: "op list \<Rightarrow> string list \<Rightarrow> string list \<times> int outcome" where
  "thread_run [] hs = ([], Undef)"
| "thread_run (Print l # ops) hs = (let (ls, r) = thread_run ops hs in (l # ls, r))"
| "thread_run (Push h # ops) hs = thread_run ops (h # hs)"
| "thread_run (Pop b # ops) [] = ([], Undef)"
| "thread_run (Pop b # ops) (h # hs) = (let (ls, r) = thread_run ops hs in ((if b then [cleanup h] else []) @ ls, r))"
| "thread_run (Return n # ops) hs = ([], if hs = [] then Ret n else Undef)"
| "thread_run (Pthread_exit n # ops) hs = (map cleanup hs, Ret n)"

definition exit_line :: "int \<Rightarrow> int \<Rightarrow> string" where
  "exit_line k n = ''thread '' @ dec k @ '' exit code '' @ dec n"

text \<open>\<open>main\<close> of \<open>exitstatus.c\<close> and \<open>cleanup.c\<close>: the errors of creating the two threads; the
  outputs and statuses that are possible, the lines of the threads in any order that keeps those of
  each and what \<open>main\<close> waits for. \<open>None\<close> if a thread leaves the defined behaviour.\<close>

definition threads_main :: "op list \<Rightarrow> op list \<Rightarrow> int \<Rightarrow> int \<Rightarrow> (string list \<times> int) set option" where
  "threads_main f1 f2 err1 err2 = (if err1 \<noteq> 0 then Some {([], 1)} else
     let (l1, r1) = thread_run f1 []; (l2, r2) = thread_run f2 [] in
     case r1 of Ret a \<Rightarrow>
       if err2 \<noteq> 0 then Some {(take n l1, 1) |n. n \<le> length l1}
       else (case r2 of
          Ret b \<Rightarrow> Some {(ls @ [exit_line 2 b], 0) |ls. ls \<in> shuffles (l1 @ [exit_line 1 a]) l2}
        | _ \<Rightarrow> None)
     | _ \<Rightarrow> None)"

section \<open>exitstatus.c\<close>

definition exitstatus_thr_fn1 :: "op list" where
  "exitstatus_thr_fn1 = [Print ''thread 1 returning'', Return 1]"

definition exitstatus_thr_fn2 :: "op list" where
  "exitstatus_thr_fn2 = [Print ''thread 2 exiting'', Pthread_exit 2]"

section \<open>cleanup.c\<close>

definition cleanup_thr_fn1 :: "int \<Rightarrow> op list" where
  "cleanup_thr_fn1 arg = [Print ''thread 1 start'', Push ''thread 1 first handler'', Push ''thread 1 second handler'',
       Print ''thread 1 push complete''] @
     (if arg \<noteq> 0 then [Return 1] else [Pop False, Pop False, Return 1])"

definition cleanup_thr_fn2 :: "int \<Rightarrow> op list" where
  "cleanup_thr_fn2 arg = [Print ''thread 2 start'', Push ''thread 2 first handler'', Push ''thread 2 second handler'',
       Print ''thread 2 push complete''] @
     (if arg \<noteq> 0 then [Pthread_exit 2] else [Pop False, Pop False, Pthread_exit 2])"

definition cleanup_main :: "int \<Rightarrow> int \<Rightarrow> (string list \<times> int) set option" where
  "cleanup_main err1 err2 = threads_main (cleanup_thr_fn1 1) (cleanup_thr_fn2 1) err1 err2"

section \<open>badexit2.c\<close>

text \<open>\<open>%lx\<close>\<close>

fun uhex :: "nat \<Rightarrow> string" where
  "uhex n = (if n < 16 then [''0123456789abcdef'' ! n] else uhex (n div 16) @ [''0123456789abcdef'' ! (n mod 16)])"

declare uhex.simps [simp del]

record foo =
  foo_a :: int
  foo_b :: int
  foo_c :: int
  foo_d :: int

text \<open>Memory holds the objects that are alive; what a thread has on its stack is gone when it
  ends.\<close>

type_synonym memory = "nat \<rightharpoonup> foo"

definition printfoo :: "string \<Rightarrow> nat \<Rightarrow> memory \<Rightarrow> string list outcome" where
  "printfoo s fp m = (case m fp of None \<Rightarrow> Undef
     | Some f \<Rightarrow> Ret [s, ''  structure at 0x'' @ uhex fp, ''  foo.a = '' @ dec (foo_a f), ''  foo.b = '' @ dec (foo_b f), ''  foo.c = '' @ dec (foo_c f), ''  foo.d = '' @ dec (foo_d f)])"

text \<open>\<open>thr_fn1\<close> with its object at the address \<open>fp\<close>: the lines, the exit value and the memory
  when it has ended.\<close>

definition bad_thr_fn1 :: "nat \<Rightarrow> memory \<Rightarrow> (string list \<times> nat \<times> memory) outcome" where
  "bad_thr_fn1 fp m = (let m' = m(fp \<mapsto> \<lparr>foo_a = 1, foo_b = 2, foo_c = 3, foo_d = 4\<rparr>) in
     and_then (printfoo ''thread 1:'' fp m') (\<lambda>ls. Ret (ls, fp, m'(fp := None))))"

definition bad_thr_fn2 :: "nat \<Rightarrow> string list \<times> nat" where
  "bad_thr_fn2 self = ([''thread 2: ID is '' @ dec (int self)], 0)"

definition badexit_main :: "nat \<Rightarrow> nat \<Rightarrow> int \<Rightarrow> int \<Rightarrow> memory \<Rightarrow> string list outcome" where
  "badexit_main stack tid2 err1 err2 m = (if err1 \<noteq> 0 then Exits 1 else
     and_then (bad_thr_fn1 stack m) (\<lambda>(l1, fp, m).
       if err2 \<noteq> 0 then Exits 1 else
       and_then (printfoo ''parent:'' fp m) (\<lambda>l. Ret (l1 @ [''parent starting second thread''] @ fst (bad_thr_fn2 tid2) @ l))))"

section \<open>threadid.c\<close>

definition printids :: "string \<Rightarrow> nat \<Rightarrow> nat \<Rightarrow> string" where
  "printids s pid tid = s @ '' pid '' @ udec pid @ '' tid '' @ udec tid @ '' (0x'' @ uhex tid @ '')''"

text \<open>The outputs that are possible when \<open>main\<close> waits a second only.\<close>

definition threadid_main :: "int \<Rightarrow> nat \<Rightarrow> nat \<Rightarrow> nat \<Rightarrow> (string list \<times> int) set" where
  "threadid_main err pid tid ntid = (if err \<noteq> 0 then {([], 1)} else
     (let new = [printids ''new thread: '' pid ntid]; own = [printids ''main thread:'' pid tid] in
      {(ls, 0) |ls. ls \<in> shuffles new own \<or> ls = own}))"

section \<open>What they print\<close>

lemma exit_lines [simp]: "exit_line 1 1 = ''thread 1 exit code 1''" "exit_line 2 2 = ''thread 2 exit code 2''"
  by code_simp+

lemma exitstatus_outputs: "threads_main exitstatus_thr_fn1 exitstatus_thr_fn2 0 0 =
    Some {(ls @ [''thread 2 exit code 2''], 0) |ls. ls \<in> {[''thread 2 exiting'', ''thread 1 returning'', ''thread 1 exit code 1''],
      [''thread 1 returning'', ''thread 2 exiting'', ''thread 1 exit code 1''],
      [''thread 1 returning'', ''thread 1 exit code 1'', ''thread 2 exiting'']}}"
  by (auto simp: threads_main_def exitstatus_thr_fn1_def exitstatus_thr_fn2_def)

lemma threads_main_undef: "snd (thread_run f1 []) = Undef \<Longrightarrow> threads_main f1 f2 0 err2 = None"
  by (simp add: threads_main_def split_beta)

lemma fn1_ends: "snd (thread_run (cleanup_thr_fn1 arg) []) = (if arg = 0 then Ret 1 else Undef)"
  by (simp add: cleanup_thr_fn1_def split_beta)

lemma fn2_ends: "thread_run (cleanup_thr_fn2 arg) [] =
     ([''thread 2 start'', ''thread 2 push complete''] @
      (if arg \<noteq> 0 then map cleanup [''thread 2 second handler'', ''thread 2 first handler''] else []), Ret 2)"
  by (simp add: cleanup_thr_fn2_def)

text \<open>
  A thread that ends by \<open>pthread_exit\<close> carries out the handlers that it has pushed and not
  popped, the last one first, and one that returns must have popped them all: \<open>thr_fn2\<close> does
  what it means to with either argument, \<open>thr_fn1\<close> returns between push and pop when its argument
  is not 0, which is what \<open>main\<close> makes it do.
\<close>
theorem cleanup_handlers:
  "thread_run (cleanup_thr_fn2 arg) [] =
     ([''thread 2 start'', ''thread 2 push complete''] @
      (if arg \<noteq> 0 then [''cleanup: thread 2 second handler'', ''cleanup: thread 2 first handler''] else []), Ret 2) \<and>
   snd (thread_run (cleanup_thr_fn1 arg) []) = (if arg = 0 then Ret 1 else Undef) \<and>
   cleanup_main 0 0 = None"
proof (intro conjI)
  show "cleanup_main 0 0 = None" unfolding cleanup_main_def by (rule threads_main_undef) (simp add: fn1_ends)
qed (simp_all add: fn1_ends fn2_ends cleanup_def)

text \<open>The structure of \<open>badexit2.c\<close> is gone when the parent prints it, wherever it was.\<close>

theorem exit_with_local: "badexit_main stack tid2 err1 err2 m = (if err1 \<noteq> 0 \<or> err2 \<noteq> 0 then Exits 1 else Undef)"
  by (simp add: badexit_main_def bad_thr_fn1_def printfoo_def)

end
