(* ===== verification/GetAddress.thy ===== *)
theory GetAddress imports CommandLine
begin

text \<open>
  \<open>client-server/getAddress.cpp\<close>: the addresses of a host. The resolver and \<open>inet_ntop\<close>, which are
  the system's, are parameters.
\<close>

section \<open>The program\<close>

datatype family = AF_INET | AF_INET6

record addrinfo =
  ai_family :: family
  ai_addr :: "u8 list"

text \<open>\<open>inet_ntop\<close> with the family, the address and the size of the buffer: the text, or an
  error.\<close>

type_synonym ntop = "family \<Rightarrow> u8 list \<Rightarrow> nat \<Rightarrow> string option"

definition INET_ADDRSTRLEN :: nat where "INET_ADDRSTRLEN = 16"

definition INET6_ADDRSTRLEN :: nat where "INET6_ADDRSTRLEN = 46"

definition ipver_of :: "family \<Rightarrow> string" where
  "ipver_of f = (if f = AF_INET then ''IPv4'' else ''IPv6'')"

text \<open>The line for one address. After an error the buffer is printed although nothing was put
  there.\<close>

definition addr_line :: "ntop \<Rightarrow> addrinfo \<Rightarrow> string outcome" where
  "addr_line ntop p = (case strcpy_at (replicate 5 NUL) 0 (ipver_of (ai_family p)) of None \<Rightarrow> Undef
     | Some ipver \<Rightarrow> if ai_family p = AF_INET
         then (case ntop (ai_family p) (ai_addr p) INET_ADDRSTRLEN of
             Some ip4str \<Rightarrow> Ret ('' '' @ c_str ipver @ '': '' @ ip4str) | None \<Rightarrow> Undef)
         else (case ntop (ai_family p) (ai_addr p) INET6_ADDRSTRLEN of
             Some ip6str \<Rightarrow> Ret ('' '' @ c_str ipver @ '': '' @ ip6str) | None \<Rightarrow> Undef))"

fun addr_loop :: "ntop \<Rightarrow> addrinfo list \<Rightarrow> int \<Rightarrow> (string list \<times> int) outcome" where
  "addr_loop ntop [] numAddresses = Ret ([], numAddresses)"
| "addr_loop ntop (p # ps) numAddresses = and_then (addr_line ntop p) (\<lambda>l.
     if INT_MAX \<le> numAddresses then Undef else
     and_then (addr_loop ntop ps (numAddresses + 1)) (\<lambda>(ls, n). Ret (l # ls, n)))"

text \<open>The resolver gives an error or a list.\<close>

definition getAddr :: "ntop \<Rightarrow> (string \<Rightarrow> int + addrinfo list) \<Rightarrow> string \<Rightarrow> (string list \<times> int) outcome" where
  "getAddr ntop getaddrinfo addrName = (case getaddrinfo addrName of
     Inl err \<Rightarrow> Ret ([], 0) | Inr servinfo \<Rightarrow> addr_loop ntop servinfo 0)"

text \<open>The loop over \<open>getopt\<close>: the address if there is one; \<open>None\<close> for a wrong option or one
  without its argument, which ends the program.\<close>

fun address_loop :: "string option list \<Rightarrow> string option \<Rightarrow> string option option" where
  "address_loop [] address = Some address"
| "address_loop (Some optarg # rs) address = address_loop rs (Some optarg)"
| "address_loop (None # rs) address = None"

definition get_address :: "string list \<Rightarrow> string option \<Rightarrow> string option option" where
  "get_address args address = address_loop (getopt (CHR ''a'') args) address"

text \<open>Without the option a null pointer is printed.\<close>

definition getAddress_main :: "ntop \<Rightarrow> (string \<Rightarrow> int + addrinfo list) \<Rightarrow> string list \<Rightarrow> (string list \<times> int) outcome" where
  "getAddress_main ntop getaddrinfo argv = (case get_address (tl argv) None of
     None \<Rightarrow> Ret ([''Usage: '' @ hd argv @ '' -a ip_address''], 1)
   | Some None \<Rightarrow> Undef
   | Some (Some address) \<Rightarrow> and_then (getAddr ntop getaddrinfo address) (\<lambda>(ls, status).
       Ret ([''Looking up '' @ address] @ ls @ [''Returned '' @ dec status @ '' address(es)''], 0)))"

section \<open>What it prints\<close>

text \<open>\<open>inet_ntop\<close> succeeds for both families with room for any address of the family.\<close>

definition ntop_works :: "ntop \<Rightarrow> addrinfo list \<Rightarrow> bool" where
  "ntop_works ntop ps \<longleftrightarrow>
     (\<forall>p\<in>set ps. ntop (ai_family p) (ai_addr p) (if ai_family p = AF_INET then 16 else 46) \<noteq> None)"

definition shown :: "ntop \<Rightarrow> addrinfo \<Rightarrow> string" where
  "shown ntop p = '' '' @ ipver_of (ai_family p) @ '': '' @ the (ntop (ai_family p) (ai_addr p) (if ai_family p = AF_INET then 16 else 46))"

lemma addr_line_shown: "ntop_works ntop [p] \<Longrightarrow> addr_line ntop p = Ret (shown ntop p)"
  by (auto simp: addr_line_def shown_def ntop_works_def ipver_of_def strcpy_at_def blit_def
    INET_ADDRSTRLEN_def INET6_ADDRSTRLEN_def c_str_def NUL_def)

lemma addr_loop_lines: "ntop_works ntop ps \<Longrightarrow> n + int (length ps) \<le> INT_MAX \<Longrightarrow>
    addr_loop ntop ps n = Ret (map (shown ntop) ps, n + int (length ps))"
proof (induction ps arbitrary: n)
  case (Cons p ps)
  have "ntop_works ntop [p]" "ntop_works ntop ps" using Cons.prems(1) by (simp_all add: ntop_works_def)
  with Cons show ?case by (simp add: addr_line_shown del: and_then_eq_Ret)
qed simp

lemma addr_line_failed: "ntop (ai_family p) (ai_addr p) (if ai_family p = AF_INET then 16 else 46) = None \<Longrightarrow> addr_line ntop p = Undef"
  by (simp add: addr_line_def INET_ADDRSTRLEN_def INET6_ADDRSTRLEN_def split: option.split if_splits)

lemma get_address_forms:
  "get_address (''-a'' # h # ws) address = get_address ws (Some h)"
  "h \<noteq> [] \<Longrightarrow> get_address ((''-a'' @ h) # ws) address = get_address ws (Some h)"
  "get_address [] address = Some address"
  "get_address [''-a''] address = None"
  by (simp_all add: get_address_def)

text \<open>
  With \<open>-a host\<close>, the program prints the addresses of the host, one line each in the resolver's
  order with its version, and their number; a host that is not found has none. Without the option it
  prints a null pointer, and an option without its argument ends it.
\<close>
theorem addresses_printed:
  assumes "get_address args None = Some (Some h)"
    and "getaddrinfo h = Inr ps \<and> ntop_works ntop ps \<and> int (length ps) \<le> INT_MAX \<or> getaddrinfo h = Inl err \<and> ps = []"
  shows "getAddress_main ntop getaddrinfo (me # args) = Ret ([''Looking up '' @ h] @ map (shown ntop) ps @
      [''Returned '' @ dec (int (length ps)) @ '' address(es)''], 0) \<and>
    getAddress_main ntop getaddrinfo [me] = Undef \<and>
    getAddress_main ntop getaddrinfo [me, ''-a''] = Ret ([''Usage: '' @ me @ '' -a ip_address''], 1)"
proof -
  have "getAddr ntop getaddrinfo h = Ret (map (shown ntop) ps, int (length ps))"
    using assms(2) addr_loop_lines [of ntop ps 0] by (auto simp: getAddr_def)
  with assms(1) show ?thesis by (simp add: getAddress_main_def get_address_forms del: and_then_eq_Ret)
qed

lemma addresses_printed_witness:
  "getAddress_main (\<lambda>f a n. Some ''127.0.0.1'') (\<lambda>h. Inr [\<lparr>ai_family = AF_INET, ai_addr = [127, 0, 0, 1]\<rparr>]) [''getAddress'', ''-a'', ''localhost''] =
     Ret ([''Looking up localhost'', '' IPv4: 127.0.0.1'', ''Returned 1 address(es)''], 0)"
proof -
  let ?ps = "[\<lparr>ai_family = AF_INET, ai_addr = [127, 0, 0, 1]\<rparr>]"
  have d: "dec 1 = ''1''" by code_simp
  have "get_address [''-a'', ''localhost''] None = Some (Some ''localhost'')" by (simp add: get_address_forms)
  moreover have "ntop_works (\<lambda>f a n. Some ''127.0.0.1'') ?ps" by (simp add: ntop_works_def)
  ultimately show ?thesis
    using addresses_printed [of "[''-a'', ''localhost'']" "''localhost''" "\<lambda>h. Inr ?ps" ?ps "\<lambda>f a n. Some ''127.0.0.1''" 0 "''getAddress''", THEN conjunct1]
    by (simp add: INT_MAX_def shown_def ipver_of_def d)
qed

end
