(* ===== verification/ChatSetup.thy ===== *)
theory ChatSetup imports Chat CommandLine Spoof Capture
begin

text \<open>
  \<open>client-server/tcp-Client.cpp\<close> and \<open>tcp-Server.cpp\<close> up to the connection and after the session
  that theory \<open>Chat\<close> models: arguments, addresses, the calls on sockets and the report.
\<close>

section \<open>Addresses\<close>

text \<open>\<open>sockaddr_in\<close> with address and port in network order.\<close>

record sockaddr =
  s_addr :: u32
  sin_port :: u16

definition INADDR_ANY :: u32 where "INADDR_ANY = 0"

text \<open>\<open>inet_addr(inet_ntoa(a))\<close>\<close>

lemma of_char_digit_diff: "d < 10 \<Longrightarrow> of_char (digit d) - 48 = d"
  by (simp add: of_char_digit)

lemma digit_no_dot: "d < 10 \<Longrightarrow> digit d \<noteq> CHR ''.''"
  using digit_is_digit [of d] by (auto simp: is_digit_def)

lemma quad_udec: "quad ns 0 (udec k @ t) = quad ns k t"
proof (induction k arbitrary: t rule: udec.induct)
  case (1 k)
  show ?case
  proof (cases "k < 10")
    case True
    then show ?thesis by (subst udec.simps) (simp add: digit_no_dot of_char_digit_diff)
  next
    case False
    with 1 show ?thesis
      by (subst udec.simps) (simp add: digit_no_dot of_char_digit_diff)
  qed
qed

lemma quad_text: "quad [] 0 (quad_text [a, b, c, d]) = [unat a, unat b, unat c, unat d]"
  by (simp add: quad_text_def quad_udec) (use quad_udec [of "[unat a, unat b, unat c]" "unat d" "[]"] in simp)

lemma inet_addr_text: "inet_addr (addr_text a) = a"
proof -
  obtain w x y z where b: "bytes32 a = [w, x, y, z]" "le32 w x y z = a"
    by (auto simp: bytes32_def bytes16_def)
  then show ?thesis by (simp add: inet_addr_def addr_text_def quad_text)
qed

section \<open>The server\<close>

text \<open>Which calls succeed, and the clock at the start and the end of the session.\<close>

record net_env =
  socket_ok :: bool
  bind_ok :: bool
  accept_ok :: bool
  start_sec :: int
  end_sec :: int

text \<open>What it prints to standard output until it is connected, and the address it listens at. The
  errors end it with 0, but that of \<open>accept\<close> with 1.\<close>

definition server_setup :: "string list \<Rightarrow> net_env \<Rightarrow> (string list \<times> sockaddr) outcome" where
  "server_setup argv env = (if length argv \<noteq> 2 then Exits 0 else
     and_then (atoi (argv ! 1)) (\<lambda>port.
       let servAddr = \<lparr>s_addr = htonl INADDR_ANY, sin_port = htons (word_of_int port)\<rparr> in
       if \<not> socket_ok env then Exits 0
       else if \<not> bind_ok env then Exits 0
       else if \<not> accept_ok env then Exits 1
       else Ret ([''Waiting for a client to connect...'', ''Connected with client!''], servAddr)))"

text \<open>The report; \<open>None\<close> if it prints an indeterminate number.\<close>

definition report :: "net_env \<Rightarrow> side \<Rightarrow> string list option" where
  "report env x = (case bytesRead x of None \<Rightarrow> None | Some n \<Rightarrow>
     Some [''********Session********'', ''Bytes written: '' @ dec (bytesWritten x) @ '' Bytes read: '' @ dec n,
       ''Elapsed time: '' @ dec (end_sec env - start_sec env) @ '' secs''])"

definition server_report :: "net_env \<Rightarrow> side \<Rightarrow> string list option" where
  "server_report env x = map_option (\<lambda>ls. ls @ [''Connection closed...'']) (report env x)"

section \<open>The client\<close>

text \<open>Host names are looked up in \<open>hosts\<close>, and \<open>connect\<close> tells who listens. An unknown host is a
  null pointer; that \<open>socket\<close> failed is only noticed when \<open>connect\<close> does. It returns -1 then.\<close>

definition client_setup ::
  "(string \<Rightarrow> u32 list option) \<Rightarrow> (sockaddr \<Rightarrow> bool) \<Rightarrow> string list \<Rightarrow> net_env \<Rightarrow> (string list \<times> sockaddr) outcome" where
  "client_setup hosts connect argv env = (if length argv \<noteq> 3 then Exits 0 else
     let serverIp = argv ! 1 in
     and_then (atoi (argv ! 2)) (\<lambda>port.
       case hosts serverIp of None \<Rightarrow> Undef | Some [] \<Rightarrow> Undef
       | Some (h_addr # _) \<Rightarrow>
           let sendSockAddr = \<lparr>s_addr = inet_addr (addr_text h_addr), sin_port = htons (word_of_int port)\<rparr> in
           if \<not> socket_ok env \<or> \<not> connect sendSockAddr then Exits 255
           else Ret ([''Connected to the server!''], sendSockAddr)))"

definition client_report :: "net_env \<Rightarrow> side \<Rightarrow> string list option" where
  "client_report env x = map_option (\<lambda>ls. ls @ [''Connection closed'']) (report env x)"

text \<open>A machine with the addresses \<open>own\<close> on which the server \<open>srv\<close> listens.\<close>

definition listens :: "u32 list \<Rightarrow> sockaddr \<Rightarrow> sockaddr \<Rightarrow> bool" where
  "listens own srv a \<longleftrightarrow> sin_port a = sin_port srv \<and> s_addr a \<in> set own \<and> (s_addr srv = INADDR_ANY \<or> s_addr srv = s_addr a)"

lemma htonl_ANY [simp]: "htonl INADDR_ANY = INADDR_ANY"
  by (simp add: INADDR_ANY_def htonl_def bytes32_def bytes16_def) code_simp

lemma type_line_read: "type_line x = (y, bs) \<Longrightarrow> bytesRead y = bytesRead x"
  by (auto simp: type_line_def next_line_def Let_def split: list.splits if_splits)

lemma got_bytes_read: "bytesRead x = None \<Longrightarrow> bytesRead (got_bytes bs x) = None"
  by (simp add: got_bytes_def Let_def)

lemma never_counted: "(chat_step split)\<^sup>*\<^sup>* (session_start cs ss) s \<Longrightarrow> bytesRead (client s) = None \<and> bytesRead (server s) = None"
proof (induction rule: rtranclp_induct)
  case (step s t)
  from step.hyps(2) step.IH show ?case
    by cases (auto simp: got_bytes_read dest: type_line_read)
qed (simp add: session_start_def side_start_def)

text \<open>
  A server with a port number in its argument and a client with a name of its machine and the
  same number get connected, and so they do with a number that is the same up to 65536, since
  the ports have 16 bits; a client that does not know the host follows a null pointer. Whatever
  happens in the session, neither report is defined, as the bytes read are never counted from 0.
\<close>
theorem chat_connects:
  assumes "hosts h = Some (a # as)" "a \<in> set own"
    and "0 \<le> p" "p \<le> INT_MAX" "0 \<le> q" "q \<le> INT_MAX" "p mod 65536 = q mod 65536"
    and "(chat_step split)\<^sup>*\<^sup>* (session_start cs ss) s"
  shows "\<exists>ls addr. server_setup [sname, dec p] \<lparr>socket_ok = True, bind_ok = True, accept_ok = True, start_sec = t, end_sec = u\<rparr> = Ret (ls, addr) \<and>
    client_setup hosts (listens own addr) [cname, h, dec q] \<lparr>socket_ok = True, bind_ok = b, accept_ok = c, start_sec = t, end_sec = u\<rparr> =
      Ret ([''Connected to the server!''], \<lparr>s_addr = a, sin_port = sin_port addr\<rparr>) \<and>
    (hosts g = None \<longrightarrow> client_setup hosts (listens own addr) [cname, g, dec q] env = Undef) \<and>
    client_report env (client s) = None \<and> server_report env (server s) = None"
proof -
  have w: "word_of_int p = (word_of_int q :: u16)"
    using assms(7) by (simp add: word_of_int_eq_iff take_bit_eq_mod)
  have "atoi (dec p) = Ret p" "atoi (dec q) = Ret q" using assms by (simp_all add: atoi_dec)
  with assms(1,2) w never_counted [OF assms(8)] show ?thesis
    by (simp add: server_setup_def client_setup_def listens_def inet_addr_text report_def server_report_def client_report_def Let_def)
qed

lemma chat_connects_witness:
  "\<exists>ls addr. server_setup [''server'', dec 70000] \<lparr>socket_ok = True, bind_ok = True, accept_ok = True, start_sec = 0, end_sec = 9\<rparr> = Ret (ls, addr) \<and>
    client_setup (\<lambda>h. Some [0x0100007f]) (listens [0x0100007f] addr) [''client'', ''localhost'', dec 4464]
      \<lparr>socket_ok = True, bind_ok = True, accept_ok = True, start_sec = 0, end_sec = 9\<rparr> =
      Ret ([''Connected to the server!''], \<lparr>s_addr = 0x0100007f, sin_port = sin_port addr\<rparr>)"
  using chat_connects [of "\<lambda>h. Some [0x0100007f]" "''localhost''" "0x0100007f" "[]" "[0x0100007f]" 70000 4464 False "[]" "[]" "session_start [] []"]
  unfolding INT_MAX_def by fastforce

end
