(* ===== verification/Reaping.thy ===== *)
theory Reaping imports CString
begin

text \<open>
  The programs of \<open>fork/\<close>: how a parent gets rid of its children. An ended child is a zombie until
  the parent waits for it, ignores \<open>SIGCHLD\<close> when it ends, or ends itself. The texts end with the
  number of the process, which is given.
\<close>

section \<open>noSig.cpp and sig.cpp\<close>

datatype kid = Starting | Working | Zombie | Gone

datatype pcall = Say_parent | Wait | Ignore_SIGCHLD

record duo =
  todo :: "pcall list"
  ended :: bool
  ignoring :: bool
  kid :: kid
  lines :: "string list"

definition noSig_calls :: "pcall list" where
  "noSig_calls = [Say_parent, Wait]"

definition sig_calls :: "pcall list" where
  "sig_calls = [Ignore_SIGCHLD, Say_parent]"

definition parent_line :: "int \<Rightarrow> string" where
  "parent_line pid = ''printed from parent process '' @ dec pid"

definition child_line :: "int \<Rightarrow> string" where
  "child_line pid = ''printed from child process '' @ dec pid"

text \<open>After a successful \<open>fork\<close>; \<open>None\<close> is the exit with a failure.\<close>

definition duo_start :: "bool \<Rightarrow> pcall list \<Rightarrow> duo option" where
  "duo_start fork_ok calls = (if \<not> fork_ok then None
     else Some \<lparr>todo = calls, ended = False, ignoring = False, kid = Starting, lines = []\<rparr>)"

inductive duo_step :: "int \<Rightarrow> int \<Rightarrow> duo \<Rightarrow> duo \<Rightarrow> bool" for ppid cpid :: int where
  says: "todo s = Say_parent # cs \<Longrightarrow>
    duo_step ppid cpid s (s\<lparr>todo := cs, lines := lines s @ [parent_line ppid]\<rparr>)"
| waits: "todo s = Wait # cs \<Longrightarrow> kid s = Zombie \<Longrightarrow> duo_step ppid cpid s (s\<lparr>todo := cs, kid := Gone\<rparr>)"
| waits_none: "todo s = Wait # cs \<Longrightarrow> kid s = Gone \<Longrightarrow> duo_step ppid cpid s (s\<lparr>todo := cs\<rparr>)"
| ignores: "todo s = Ignore_SIGCHLD # cs \<Longrightarrow> duo_step ppid cpid s (s\<lparr>todo := cs, ignoring := True\<rparr>)"
| returns: "todo s = [] \<Longrightarrow> \<not> ended s \<Longrightarrow>
    duo_step ppid cpid s (s\<lparr>ended := True, kid := (if kid s = Zombie then Gone else kid s)\<rparr>)"
| child_says: "kid s = Starting \<Longrightarrow>
    duo_step ppid cpid s (s\<lparr>kid := Working, lines := lines s @ [child_line cpid]\<rparr>)"
| child_returns: "kid s = Working \<Longrightarrow>
    duo_step ppid cpid s (s\<lparr>kid := (if ignoring s \<or> ended s then Gone else Zombie)\<rparr>)"

text \<open>Lines and calls fit each other, and a parent that has got past \<open>wait\<close> has no child.\<close>

definition duo_inv :: "int \<Rightarrow> int \<Rightarrow> duo \<Rightarrow> bool" where
  "duo_inv ppid cpid s \<longleftrightarrow> (ended s \<longrightarrow> todo s = [] \<and> kid s \<noteq> Zombie) \<and>
     mset (lines s) = (if Say_parent \<in> set (todo s) then {#} else {#parent_line ppid#}) +
       (if kid s = Starting then {#} else {#child_line cpid#}) \<and>
     todo s \<in> {noSig_calls, [Wait], [], sig_calls, [Say_parent]} \<and>
     (ignoring s \<longrightarrow> todo s \<in> {[Say_parent], []}) \<and> (todo s = [] \<and> \<not> ignoring s \<longrightarrow> kid s = Gone) \<and>
     (todo s = [Say_parent] \<longrightarrow> ignoring s)"

lemma duo_step_inv:
  assumes "duo_step ppid cpid s t" "duo_inv ppid cpid s"
  shows "duo_inv ppid cpid t"
  using assms by (cases rule: duo_step.cases) (auto simp: duo_inv_def noSig_calls_def sig_calls_def)

lemma duo_start_inv: "calls \<in> {noSig_calls, sig_calls} \<Longrightarrow> duo_start ok calls = Some s \<Longrightarrow> duo_inv ppid cpid s"
  by (auto simp: duo_start_def duo_inv_def noSig_calls_def sig_calls_def split: if_splits)

interpretation duo: safe_machine "\<lambda>s. duo_start ok noSig_calls = Some s \<or> duo_start ok sig_calls = Some s"
  "duo_step ppid cpid" "duo_inv ppid cpid" for ok ppid cpid
  by unfold_locales (use duo_start_inv duo_step_inv in blast)+



section \<open>sig2.cpp\<close>

record family =
  kids :: "kid list"
  tries :: nat
  sigchld :: bool
  handling :: bool
  out :: "string list"

definition family_start :: family where
  "family_start = \<lparr>kids = [], tries = 0, sigchld = False, handling = False, out = []\<rparr>"

definition night_line :: "int \<Rightarrow> string" where "night_line p = ''Night: '' @ dec p"

definition out_line :: "int \<Rightarrow> string" where "out_line p = ''Up and out: '' @ dec p"

definition signal_line :: "int \<Rightarrow> string" where "signal_line p = ''I got a signal: '' @ dec p"

definition relaxing :: string where "relaxing = ''Relaxing''"

text \<open>\<open>my_handler\<close> begins when a pending \<open>SIGCHLD\<close> is delivered, which is not queued, and ends
  when its \<open>wait\<close> has got a child or there is none. \<open>pid\<close> gives the numbers of the children. With
  \<open>paced\<close> a child ends only when the signal of the last one has been handled.\<close>

inductive family_step :: "bool \<Rightarrow> int \<Rightarrow> (nat \<Rightarrow> int) \<Rightarrow> family \<Rightarrow> family \<Rightarrow> bool"
  for paced :: bool and ppid :: int and pid :: "nat \<Rightarrow> int" where
  forks: "tries s < 5 \<Longrightarrow> \<not> handling s \<Longrightarrow>
    family_step paced ppid pid s (s\<lparr>tries := tries s + 1, kids := kids s @ [Starting]\<rparr>)"
| fork_fails: "tries s < 5 \<Longrightarrow> \<not> handling s \<Longrightarrow> family_step paced ppid pid s (s\<lparr>tries := tries s + 1\<rparr>)"
| relaxes: "tries s = 5 \<Longrightarrow> \<not> handling s \<Longrightarrow> family_step paced ppid pid s (s\<lparr>out := out s @ [relaxing]\<rparr>)"
| nights: "i < length (kids s) \<Longrightarrow> kids s ! i = Starting \<Longrightarrow>
    family_step paced ppid pid s (s\<lparr>kids := (kids s)[i := Working], out := out s @ [night_line (pid i)]\<rparr>)"
| goes: "i < length (kids s) \<Longrightarrow> kids s ! i = Working \<Longrightarrow> (paced \<longrightarrow> \<not> sigchld s \<and> \<not> handling s) \<Longrightarrow>
    family_step paced ppid pid s (s\<lparr>kids := (kids s)[i := Zombie], sigchld := True, out := out s @ [out_line (pid i)]\<rparr>)"
| caught: "sigchld s \<Longrightarrow> \<not> handling s \<Longrightarrow>
    family_step paced ppid pid s (s\<lparr>sigchld := False, handling := True, out := out s @ [signal_line ppid]\<rparr>)"
| reaps: "handling s \<Longrightarrow> i < length (kids s) \<Longrightarrow> kids s ! i = Zombie \<Longrightarrow>
    family_step paced ppid pid s (s\<lparr>kids := (kids s)[i := Gone], handling := False\<rparr>)"
| no_kids: "handling s \<Longrightarrow> set (kids s) \<subseteq> {Gone} \<Longrightarrow> family_step paced ppid pid s (s\<lparr>handling := False\<rparr>)"

definition zombies :: "family \<Rightarrow> nat" where
  "zombies s = length (filter (\<lambda>k. k = Zombie) (kids s))"

definition family_inv :: "bool \<Rightarrow> family \<Rightarrow> bool" where
  "family_inv paced s \<longleftrightarrow> of_bool (sigchld s) + of_bool (handling s) \<le> zombies s \<and>
     (paced \<longrightarrow> zombies s = of_bool (sigchld s) + of_bool (handling s))"

lemma filter_update: "i < length xs \<Longrightarrow>
    length (filter P (xs[i := y])) + of_bool (P (xs ! i)) = length (filter P xs) + of_bool (P y)"
proof (induction xs arbitrary: i)
  case (Cons x xs)
  then show ?case using Cons.IH [of "i - 1"] by (cases i) auto
qed simp

lemma zombies_update: "i < length (kids s) \<Longrightarrow>
    length (filter (\<lambda>k. k = Zombie) ((kids s)[i := k])) + of_bool (kids s ! i = Zombie) = zombies s + of_bool (k = Zombie)"
  unfolding zombies_def by (rule filter_update)

lemma zombies_0: "zombies s = 0 \<longleftrightarrow> Zombie \<notin> set (kids s)"
  by (auto simp: zombies_def filter_empty_conv)

lemma family_step_inv:
  assumes "family_step paced ppid pid s t" "family_inv paced s"
  shows "family_inv paced t"
  using assms
proof (cases rule: family_step.cases)
  case no_kids
  with assms(2) have "zombies s \<noteq> 0" by (auto simp: family_inv_def)
  with no_kids show ?thesis by (auto simp: zombies_0)
next
  case (nights i)
  with assms(2) zombies_update [of i s Working] show ?thesis by (simp add: family_inv_def zombies_def)
next
  case (goes i)
  with assms(2) zombies_update [of i s Zombie] show ?thesis by (auto simp: family_inv_def zombies_def)
next
  case (reaps i)
  with assms(2) zombies_update [of i s Gone] show ?thesis by (auto simp: family_inv_def zombies_def)
qed (auto simp: family_inv_def zombies_def)

interpretation family: safe_machine "\<lambda>s. s = family_start" "family_step paced ppid pid" "family_inv paced" for paced ppid pid
proof unfold_locales
  show "family_inv paced s" if "s = family_start" for s
    using that by (simp add: family_start_def family_inv_def zombies_def)
qed (rule family_step_inv)









end
