(* ===== verification/SmallPrograms.thy ===== *)
theory SmallPrograms imports Spoof
begin

text \<open>
  Programs of a few calls: \<open>files/link.cpp\<close>, \<open>unlink.cpp\<close> and \<open>readDirectory.cpp\<close>,
  \<open>threadStart/\<close>, \<open>mutex/threadStart.cpp\<close> and \<open>packetSpoofing/udp_client.c\<close>.
\<close>

section \<open>Directories\<close>

text \<open>A directory: its names with the numbers of their files, in the order in which it lists
  them.\<close>

type_synonym directory = "(string \<times> nat) list"

definition link_name :: "string \<Rightarrow> string \<Rightarrow> directory \<Rightarrow> directory \<times> int" where
  "link_name old new d = (case map_of d old of None \<Rightarrow> (d, -1)
     | Some ino \<Rightarrow> if map_of d new = None then (d @ [(new, ino)], 0) else (d, -1))"

definition unlink_name :: "string \<Rightarrow> directory \<Rightarrow> directory \<times> int" where
  "unlink_name name d = (if map_of d name = None then (d, -1) else (filter (\<lambda>e. fst e \<noteq> name) d, 0))"

text \<open>What the programs print, on standard output or through \<open>perror\<close>.\<close>

definition link_main :: "directory \<Rightarrow> string \<times> directory" where
  "link_main d = (let (d, r) = link_name ''anotherFoobar.txt'' ''yetAnother.txt'' d in
     (if r = -1 then ''failed to make new link'' else ''Linked'', d))"

definition unlink_main :: "directory \<Rightarrow> string \<times> directory" where
  "unlink_main d = (let (d, r) = unlink_name ''yetAnother.txt'' d in
     (if r = -1 then ''failed to delete link'' else ''Unlinked'', d))"

text \<open>\<open>opendir\<close> of the argument, which may not be there; its result is not tested.\<close>

fun read_loop :: "directory \<Rightarrow> string list" where
  "read_loop [] = []"
| "read_loop (e # d) = fst e # read_loop d"

definition readDirectory_main :: "(string \<Rightarrow> directory option) \<Rightarrow> string list \<Rightarrow> string list outcome" where
  "readDirectory_main opendir argv = (if length argv \<le> 1 then Undef
     else case opendir (argv ! 1) of None \<Rightarrow> Undef | Some d \<Rightarrow> Ret (read_loop d))"

section \<open>Threads\<close>

text \<open>What the threads insert into \<open>cout\<close>, one insertion at a time; \<open>self\<close> is the text of a
  thread's number. \<open>main\<close> joins both before its last line.\<close>

definition endl :: string where "endl = [CHR 0x0A]"

definition threadFunc1 :: "string list" where
  "threadFunc1 = [''One finished '', endl]"

definition threadFunc2 :: "string list" where
  "threadFunc2 = [''Two finished'', endl]"

definition joined_outputs :: "string list \<Rightarrow> string list \<Rightarrow> string list \<Rightarrow> string list set" where
  "joined_outputs first second own =
     {out @ [''Everyone is finished'', endl] |out. \<exists>both\<in>shuffles first second. out \<in> shuffles both own}"

definition threadStart_main :: "string list set" where
  "threadStart_main = joined_outputs threadFunc1 threadFunc2 [''Main, First and Second are now concurrent'', endl]"

definition id_threadFunc1 :: "string \<Rightarrow> string list" where
  "id_threadFunc1 self = [''I'' @ [CHR 0x27] @ ''m One and my thread ID is: '', self, endl, ''One finished '', endl]"

definition id_threadFunc2 :: "string \<Rightarrow> string list" where
  "id_threadFunc2 self = [''I'' @ [CHR 0x27] @ ''m Two and my thread ID is: '', self, endl, ''Two finished'', endl]"

definition id_threadStart_main :: "string \<Rightarrow> string \<Rightarrow> string \<Rightarrow> string list set" where
  "id_threadStart_main t0 t1 t2 = joined_outputs (id_threadFunc1 t1) (id_threadFunc2 t2)
     [''I'' @ [CHR 0x27] @ ''m main and my thread ID is: '', t0, endl, ''Main, First and Second are now concurrent'', endl]"

section \<open>A datagram\<close>

datatype udpcall = UdpSocket | UdpSend int u32 u16 "u8 list" | UdpClose int

definition udp_client_main :: "int \<Rightarrow> udpcall list" where
  "udp_client_main sock = (let data = ''UDP message'' @ [CHR 0x0A] in
     [UdpSocket, UdpSend sock (inet_addr ''10.9.0.5'') (htons 9090) (char_bytes data), UdpClose sock])"

section \<open>What they do\<close>

lemma unlink_new: "map_of d n = None \<Longrightarrow> filter (\<lambda>e. fst e \<noteq> n) d = d"
  by (auto simp: map_of_eq_None_iff filter_id_conv)

text \<open>
  \<open>link\<close> gives the file of its first name a second one if that is free, and \<open>unlink\<close> after it
  restores the directory; a directory is listed with all its names.
\<close>
lemma link_unlink:
  assumes "map_of d ''yetAnother.txt'' = None"
  shows "link_main d = (if map_of d ''anotherFoobar.txt'' = None then (''failed to make new link'', d)
      else (''Linked'', d @ [(''yetAnother.txt'', the (map_of d ''anotherFoobar.txt''))]))"
    and "snd (unlink_main (snd (link_main d))) = d"
proof -
  show l: "link_main d = (if map_of d ''anotherFoobar.txt'' = None then (''failed to make new link'', d)
      else (''Linked'', d @ [(''yetAnother.txt'', the (map_of d ''anotherFoobar.txt''))]))"
    using assms by (auto simp: link_main_def link_name_def)
  show "snd (unlink_main (snd (link_main d))) = d"
    unfolding l using assms unlink_new [OF assms] by (auto simp: unlink_main_def unlink_name_def)
qed

lemma read_loop_names: "read_loop d = map fst d"
  by (induction d) auto

lemma joined_all: "out \<in> joined_outputs first second own \<Longrightarrow>
    mset out = mset first + mset second + mset own + {#''Everyone is finished'', endl#} \<and> last out = endl"
  by (auto simp: joined_outputs_def mset_shuffles)

lemma udp_client_sends: "length (char_bytes (''UDP message'' @ [CHR 0x0A])) = 12"
  by (simp add: char_bytes_def)

end
